(* ===== verification/Prelude.thy ===== *)
theory Prelude
  imports Main "HOL-Library.Word"
begin

text \<open>
  The vocabulary shared by every component theory of the development.

  \<^item> \<open>errno\<close> and \<open>('e, 'a) result\<close>: the error numbers of
    \<^verbatim>\<open>services/libs/aster-std/src/error.rs\<close> that the modelled code returns, and the
    outcome of a fallible Rust function. \<open>Ok\<close> and \<open>Err\<close> are the constructors of Rust's
    \<^verbatim>\<open>Result\<close>; \<open>Panic\<close> is a run that does not return because an assertion, an
    \<^verbatim>\<open>unwrap\<close>, an index or an arithmetic check failed.
  \<^item> \<open>rbind\<close>: the operator \<^verbatim>\<open>?\<close> of Rust.
  \<^item> \<open>usize_add\<close>, \<open>usize_sub\<close>: arithmetic on \<^verbatim>\<open>usize\<close>, kept as \<open>nat\<close> below
    \<open>2 ^ 64\<close>, with the overflow checks of the development profile written out.
  \<^item> \<open>sbind\<close>: sequencing of operations that also change a state.
  \<^item> \<open>range\<close>: Rust's half-open \<^verbatim>\<open>Range<usize>\<close>.
  \<^item> lemmas on lists and association lists that several components share.
\<close>

section \<open>Collections of simplification rules\<close>

named_theorems result_simps \<open>characterisations of outcomes\<close>
named_theorems range_simps \<open>definitions of the operations on address ranges\<close>

section \<open>Errors and outcomes\<close>

datatype errno =
    EPERM | ENOENT | ESRCH | EINTR | EIO | EBADF | ECHILD | EAGAIN | ENOMEM | EACCES | EFAULT
  | EBUSY | EEXIST | ENODEV | ENOTDIR | EISDIR | EINVAL | EMFILE | ENOTTY | EFBIG | ENOSPC
  | ESPIPE | EROFS | EPIPE | ERANGE | ENAMETOOLONG | ENOSYS | ENOTEMPTY | ELOOP | ENOTSOCK
  | EOVERFLOW | E2BIG | ENOEXEC | ETIME

datatype ('e, 'a) result = Ok 'a | Err 'e | Panic

type_synonym 'a res = "(errno, 'a) result"

primrec rbind :: "('e, 'a) result \<Rightarrow> ('a \<Rightarrow> ('e, 'b) result) \<Rightarrow> ('e, 'b) result" where
  "rbind (Ok x) f = f x"
| "rbind (Err e) f = Err e"
| "rbind Panic f = Panic"

primrec rmap :: "('a \<Rightarrow> 'b) \<Rightarrow> ('e, 'a) result \<Rightarrow> ('e, 'b) result" where
  "rmap f (Ok x) = Ok (f x)"
| "rmap f (Err e) = Err e"
| "rmap f Panic = Panic"

definition assert_or_panic :: "bool \<Rightarrow> ('e, unit) result" where
  "assert_or_panic b = (if b then Ok () else Panic)"

definition ok_or :: "'e \<Rightarrow> 'a option \<Rightarrow> ('e, 'a) result" where
  "ok_or e x = (case x of Some y \<Rightarrow> Ok y | None \<Rightarrow> Err e)"

definition unwrap_opt :: "'a option \<Rightarrow> ('e, 'a) result" where
  "unwrap_opt x = (case x of Some y \<Rightarrow> Ok y | None \<Rightarrow> Panic)"

lemma rbind_eq_Ok [result_simps]: "rbind m f = Ok y \<longleftrightarrow> (\<exists>x. m = Ok x \<and> f x = Ok y)"
  by (cases m) auto

lemma rbind_eq_Err [result_simps]:
  "rbind m f = Err e \<longleftrightarrow> m = Err e \<or> (\<exists>x. m = Ok x \<and> f x = Err e)"
  by (cases m) auto

lemma rbind_eq_Panic [result_simps]:
  "rbind m f = Panic \<longleftrightarrow> m = Panic \<or> (\<exists>x. m = Ok x \<and> f x = Panic)"
  by (cases m) auto

lemma rbind_assoc: "rbind (rbind m f) g = rbind m (\<lambda>x. rbind (f x) g)"
  by (cases m) auto

lemma rmap_eq_Ok [result_simps]: "rmap f m = Ok y \<longleftrightarrow> (\<exists>x. m = Ok x \<and> y = f x)"
  by (cases m) auto

lemma assert_or_panic_Ok [simp]: "assert_or_panic b = Ok u \<longleftrightarrow> b"
  by (simp add: assert_or_panic_def)

lemma assert_or_panic_Panic [simp]: "assert_or_panic b = Panic \<longleftrightarrow> \<not> b"
  by (simp add: assert_or_panic_def)

lemma assert_or_panic_not_Err [simp]: "assert_or_panic b \<noteq> Err e"
  by (simp add: assert_or_panic_def)

lemma assert_or_panic_simps [simp]: "assert_or_panic True = Ok ()" "assert_or_panic False = Panic"
  by (simp_all add: assert_or_panic_def)

lemma ok_or_simps [simp]: "ok_or e (Some y) = Ok y" "ok_or e None = Err e"
  by (simp_all add: ok_or_def)

lemma ok_or_eq_Ok [result_simps]: "ok_or e x = Ok y \<longleftrightarrow> x = Some y"
  by (cases x) simp_all

lemma unwrap_opt_simps [simp]: "unwrap_opt (Some y) = Ok y" "unwrap_opt None = Panic"
  by (simp_all add: unwrap_opt_def)

lemma unwrap_opt_eq_Ok [result_simps]: "unwrap_opt x = Ok y \<longleftrightarrow> x = Some y"
  by (cases x) simp_all

section \<open>Machine-size arithmetic\<close>

abbreviation USIZE_LIMIT :: nat where
  "USIZE_LIMIT \<equiv> 2 ^ 64"

definition usize_add :: "nat \<Rightarrow> nat \<Rightarrow> ('e, nat) result" where
  "usize_add a b = (if a + b < USIZE_LIMIT then Ok (a + b) else Panic)"

definition usize_sub :: "nat \<Rightarrow> nat \<Rightarrow> ('e, nat) result" where
  "usize_sub a b = (if b \<le> a then Ok (a - b) else Panic)"

definition checked_add :: "nat \<Rightarrow> nat \<Rightarrow> nat option" where
  "checked_add a b = (if a + b < USIZE_LIMIT then Some (a + b) else None)"

lemma usize_add_eq_Ok [result_simps]: "usize_add a b = Ok c \<longleftrightarrow> c = a + b \<and> a + b < USIZE_LIMIT"
  by (auto simp: usize_add_def)

lemma usize_sub_eq_Ok [result_simps]: "usize_sub a b = Ok c \<longleftrightarrow> b \<le> a \<and> c = a - b"
  by (auto simp: usize_sub_def)

lemma usize_arith_not_Err [simp]: "usize_add a b \<noteq> Err e" "usize_sub a b \<noteq> Err e"
  by (simp_all add: usize_add_def usize_sub_def)

lemma checked_add_eq_Some [result_simps]:
  "checked_add a b = Some c \<longleftrightarrow> c = a + b \<and> a + b < USIZE_LIMIT"
  by (auto simp: checked_add_def)

section \<open>Operations that change a state and may fail\<close>

text \<open>A failure in the middle of an operation keeps the changes made before it.\<close>

type_synonym ('st, 'a) sres = "'st \<Rightarrow> 'a res \<times> 'st"

definition sbind :: "('st, 'a) sres \<Rightarrow> ('a \<Rightarrow> ('st, 'b) sres) \<Rightarrow> ('st, 'b) sres" where
  "sbind m f s = (case m s of (Ok x, s') \<Rightarrow> f x s' | (Err e, s') \<Rightarrow> (Err e, s') | (Panic, s') \<Rightarrow> (Panic, s'))"

definition sreturn :: "'a \<Rightarrow> ('st, 'a) sres" where
  "sreturn x s = (Ok x, s)"

definition slift :: "'a res \<Rightarrow> ('st, 'a) sres" where
  "slift r s = (r, s)"

definition sget :: "('st \<Rightarrow> 'a) \<Rightarrow> ('st, 'a) sres" where
  "sget f s = (Ok (f s), s)"

definition smod :: "('st \<Rightarrow> 'st) \<Rightarrow> ('st, unit) sres" where
  "smod f s = (Ok (), f s)"

lemma sbind_Ok [result_simps]:
  "sbind m f s = (Ok y, t) \<longleftrightarrow> (\<exists>x s'. m s = (Ok x, s') \<and> f x s' = (Ok y, t))"
  by (auto simp: sbind_def split: prod.splits result.splits)

lemma sprim_Ok [result_simps]:
  "sreturn x s = (Ok y, t) \<longleftrightarrow> y = x \<and> t = s"
  "slift r s = (Ok y, t) \<longleftrightarrow> r = Ok y \<and> t = s"
  "sget g s = (Ok y, t) \<longleftrightarrow> y = g s \<and> t = s"
  "smod h s = (Ok u, t) \<longleftrightarrow> t = h s"
  by (auto simp: sreturn_def slift_def sget_def smod_def)

lemma sbind_eval:
  "m s = (Ok x, s') \<Longrightarrow> sbind m f s = f x s'"
  by (simp add: sbind_def)

lemma sbind_prim [simp]:
  "sbind (sreturn x) f s = f x s" "sbind (slift (Ok x)) f s = f x s" "sbind (slift (Err e)) f s = (Err e, s)"
  "sbind (slift Panic) f s = (Panic, s)" "sbind (sget g) f s = f (g s) s" "sbind (smod h) k s = k () (h s)"
  by (simp_all add: sbind_def sreturn_def slift_def sget_def smod_def)

end
