(* ===== verification/Slot_Vec.thy ===== *)
theory Slot_Vec
  imports Prelude
begin

text \<open>
  \<^verbatim>\<open>SlotVec\<close> (\<^verbatim>\<open>services/libs/aster-util/src/slot_vec.rs\<close>): a vector of optional items
  in which an item keeps its index while others come and go. The locale \<open>slot_table\<close> is the
  contract its clients use (the lowest free slot is filled first, an operation on one index
  leaves the others alone); \<open>sv\<close> interprets it on the model of the code. An outcome
  \<open>None\<close> of an operation is a panic.
\<close>

section \<open>Definitions\<close>

record 'a slot_vec =
  slots :: "'a option list"
  num_occupied :: nat

text \<open>\<^verbatim>\<open>Iterator::position\<close>.\<close>

fun list_position :: "('a \<Rightarrow> bool) \<Rightarrow> 'a list \<Rightarrow> nat option" where
  "list_position P [] = None"
| "list_position P (x # xs) = (if P x then Some 0 else map_option Suc (list_position P xs))"

definition sv_new :: "'a slot_vec" where
  "sv_new = \<lparr>slots = [], num_occupied = 0\<rparr>"

definition sv_with_capacity :: "nat \<Rightarrow> 'a slot_vec" where
  "sv_with_capacity capacity = \<lparr>slots = [], num_occupied = 0\<rparr>"

definition sv_is_empty :: "'a slot_vec \<Rightarrow> bool" where
  "sv_is_empty s \<longleftrightarrow> num_occupied s = 0"

definition sv_len :: "'a slot_vec \<Rightarrow> nat" where
  "sv_len s = num_occupied s"

definition sv_slots_len :: "'a slot_vec \<Rightarrow> nat" where
  "sv_slots_len s = length (slots s)"

definition sv_get :: "'a slot_vec \<Rightarrow> nat \<Rightarrow> 'a option" where
  "sv_get s idx = (if idx \<ge> length (slots s) then None else slots s ! idx)"

definition sv_put :: "'a slot_vec \<Rightarrow> 'a \<Rightarrow> (nat \<times> 'a slot_vec) option" where
  "sv_put s entry =
     (if num_occupied s = length (slots s) then
        let slots' = slots s @ [Some entry] in
        Some (length slots' - 1, s\<lparr>slots := slots', num_occupied := num_occupied s + 1\<rparr>)
      else case list_position (\<lambda>x. x = None) (slots s) of
        None \<Rightarrow> None
      | Some idx \<Rightarrow>
          Some (idx, s\<lparr>slots := (slots s)[idx := Some entry], num_occupied := num_occupied s + 1\<rparr>))"

text \<open>\<^verbatim>\<open>Vec::resize_with\<close> with \<^verbatim>\<open>Default::default\<close>, i.e. \<open>None\<close>, for the new slots.\<close>

definition resize_slots :: "nat \<Rightarrow> 'a option list \<Rightarrow> 'a option list" where
  "resize_slots n xs = take n xs @ replicate (n - length xs) None"

definition sv_put_at :: "'a slot_vec \<Rightarrow> nat \<Rightarrow> 'a \<Rightarrow> ('a option \<times> 'a slot_vec) option" where
  "sv_put_at s idx item =
     (let grown = (if idx \<ge> length (slots s)
                   then if idx + 1 < USIZE_LIMIT then Some (resize_slots (idx + 1) (slots s)) else None
                   else Some (slots s)) in
      case grown of
        None \<Rightarrow> None
      | Some sl \<Rightarrow>
          let sub_item = sl ! idx in
          Some (sub_item, s\<lparr>slots := sl[idx := Some item],
                            num_occupied := (if sub_item = None then num_occupied s + 1
                                             else num_occupied s)\<rparr>))"

definition sv_remove :: "'a slot_vec \<Rightarrow> nat \<Rightarrow> ('a option \<times> 'a slot_vec) option" where
  "sv_remove s idx =
     (if idx \<ge> length (slots s) then Some (None, s)
      else let del_item = slots s ! idx; s' = s\<lparr>slots := (slots s)[idx := None]\<rparr> in
        if del_item \<noteq> None
        then if num_occupied s > 0
             then Some (del_item, s'\<lparr>num_occupied := num_occupied s - 1\<rparr>) else None
        else Some (del_item, s'))"

definition sv_idxes_and_items :: "'a slot_vec \<Rightarrow> (nat \<times> 'a) list" where
  "sv_idxes_and_items s =
     map (\<lambda>(idx, x). (idx, the x)) (filter (\<lambda>(_, x). x \<noteq> None) (enumerate 0 (slots s)))"

definition sv_iter :: "'a slot_vec \<Rightarrow> 'a list" where
  "sv_iter s = List.map_filter id (slots s)"

definition sv_clone :: "'a slot_vec \<Rightarrow> 'a slot_vec" where
  "sv_clone s = \<lparr>slots = slots s, num_occupied = num_occupied s\<rparr>"

text \<open>The counter agrees with the slots.\<close>

definition sv_inv :: "'a slot_vec \<Rightarrow> bool" where
  "sv_inv s \<longleftrightarrow> num_occupied s = length (filter (\<lambda>x. x \<noteq> None) (slots s))"

section \<open>Positions and counters\<close>

lemma list_position_None: "list_position P xs = None \<longleftrightarrow> (\<forall>x \<in> set xs. \<not> P x)"
  by (induction xs) auto

lemma list_position_Some:
  "list_position P xs = Some i \<longleftrightarrow> i < length xs \<and> P (xs ! i) \<and> (\<forall>j<i. \<not> P (xs ! j))"
proof (induction xs arbitrary: i)
  case (Cons x xs)
  show ?case
  proof (cases i)
    case 0
    then show ?thesis by auto
  next
    case (Suc k)
    have "(\<forall>j<Suc k. \<not> P ((x # xs) ! j)) \<longleftrightarrow> \<not> P x \<and> (\<forall>j<k. \<not> P (xs ! j))"
      by (auto simp: less_Suc_eq_0_disj)
    with Suc Cons.IH show ?thesis by auto
  qed
qed simp

lemma length_filter_update:
  "i < length xs \<Longrightarrow> length (filter P (xs[i := y])) + (if P (xs ! i) then 1 else 0)
     = length (filter P xs) + (if P y then 1 else 0)"
proof (induction xs arbitrary: i)
  case (Cons x xs)
  then show ?case by (cases i) auto
qed simp

lemma sv_inv_le: "sv_inv s \<Longrightarrow> num_occupied s \<le> length (slots s)"
  by (simp add: sv_inv_def)

lemma sv_inv_full: "sv_inv s \<Longrightarrow> num_occupied s = length (slots s) \<Longrightarrow> x \<in> set (slots s) \<Longrightarrow> x \<noteq> None"
  by (metis (mono_tags, lifting) filter_id_conv length_filter_less less_irrefl sv_inv_def)

lemma sv_inv_nonfull:
  "sv_inv s \<Longrightarrow> num_occupied s \<noteq> length (slots s) \<Longrightarrow> list_position (\<lambda>x. x = None) (slots s) \<noteq> None"
  by (metis (mono_tags, lifting) filter_True list_position_None sv_inv_def)

lemma length_resize_slots [simp]: "length (resize_slots n xs) = n"
  by (simp add: resize_slots_def)

lemma nth_resize_slots:
  "length xs \<le> n \<Longrightarrow> i < n \<Longrightarrow> resize_slots n xs ! i = (if i < length xs then xs ! i else None)"
  by (simp add: resize_slots_def nth_append)

lemma filter_resize_slots:
  "length xs \<le> n \<Longrightarrow> filter (\<lambda>x. x \<noteq> None) (resize_slots n xs) = filter (\<lambda>x. x \<noteq> None) xs"
  by (simp add: resize_slots_def)

section \<open>The contract of a slot table\<close>

locale slot_table =
  fixes inv :: "'s \<Rightarrow> bool"
    and get :: "'s \<Rightarrow> nat \<Rightarrow> 'a option"
    and slots_len :: "'s \<Rightarrow> nat"
    and put :: "'s \<Rightarrow> 'a \<Rightarrow> (nat \<times> 's) option"
    and put_at :: "'s \<Rightarrow> nat \<Rightarrow> 'a \<Rightarrow> ('a option \<times> 's) option"
    and remove :: "'s \<Rightarrow> nat \<Rightarrow> ('a option \<times> 's) option"
  assumes get_bound: "slots_len s \<le> i \<Longrightarrow> get s i = None"
    and put_spec: "inv s \<Longrightarrow> \<exists>i s'. put s x = Some (i, s') \<and> inv s' \<and> get s i = None \<and>
          (\<forall>j<i. get s j \<noteq> None) \<and> i \<le> slots_len s \<and> get s' = (get s)(i \<mapsto> x)"
    and put_at_spec: "inv s \<Longrightarrow> i + 1 < USIZE_LIMIT \<Longrightarrow>
          \<exists>s'. put_at s i x = Some (get s i, s') \<and> inv s' \<and> get s' = (get s)(i \<mapsto> x)"
    and remove_spec: "inv s \<Longrightarrow>
          \<exists>s'. remove s i = Some (get s i, s') \<and> inv s' \<and> get s' = (get s)(i := None)"
begin

lemma put_lowest:
  assumes "inv s" and "put s x = Some (i, s')"
  shows "i = (LEAST j. get s j = None)"
proof -
  from put_spec [OF assms(1), of x] assms(2)
  have "get s i = None" and "\<forall>j<i. get s j \<noteq> None" by auto
  then show ?thesis by (metis (mono_tags, lifting) LeastI_ex Least_le linorder_not_le nle_le)
qed

lemma put_other:
  "inv s \<Longrightarrow> put s x = Some (i, s') \<Longrightarrow> j \<noteq> i \<Longrightarrow> get s' j = get s j"
  using put_spec [of s x] by auto

lemma put_remove:
  assumes "inv s" and "put s x = Some (i, s')" and "remove s' i = Some (r, s'')"
  shows "r = Some x" and "get s'' = get s"
proof -
  from put_spec [OF assms(1), of x] assms(2)
  have 1: "inv s'" "get s' = (get s)(i \<mapsto> x)" "get s i = None" by auto
  from remove_spec [OF 1(1), of i] assms(3)
  have "r = get s' i" "get s'' = (get s')(i := None)" by auto
  with 1 show "r = Some x" and "get s'' = get s" by (simp_all add: fun_upd_idem)
qed

text \<open>An index that has just been released is the next one handed out if it is the lowest.\<close>

lemma remove_put_reuse:
  assumes "inv s" and "remove s i = Some (r, s')" and "\<forall>j<i. get s j \<noteq> None"
    and "put s' x = Some (k, s'')"
  shows "k = i"
proof -
  from remove_spec [OF assms(1), of i] assms(2)
  have 1: "inv s'" "get s' = (get s)(i := None)" by auto
  from put_spec [OF 1(1), of x] assms(4)
  have "get s' k = None" "\<forall>j<k. get s' j \<noteq> None" by auto
  with 1(2) assms(3) show ?thesis by (metis fun_upd_same fun_upd_other linorder_neqE_nat)
qed

end

section \<open>The code satisfies the contract\<close>

lemma sv_put_spec:
  assumes "sv_inv s"
  shows "\<exists>i s'. sv_put s x = Some (i, s') \<and> sv_inv s' \<and> sv_get s i = None \<and>
          (\<forall>j<i. sv_get s j \<noteq> None) \<and> i \<le> sv_slots_len s \<and> sv_get s' = (sv_get s)(i \<mapsto> x)"
proof (cases "num_occupied s = length (slots s)")
  case True
  have "\<forall>j<length (slots s). slots s ! j \<noteq> None"
    using sv_inv_full [OF assms True] nth_mem by blast
  then show ?thesis
    using assms True
    by (auto simp: sv_put_def Let_def sv_inv_def sv_get_def sv_slots_len_def nth_append fun_eq_iff)
next
  case False
  obtain i where i: "list_position (\<lambda>x. x = None) (slots s) = Some i"
    using sv_inv_nonfull [OF assms False] by auto
  then have *: "i < length (slots s)" "slots s ! i = None" "\<forall>j<i. slots s ! j \<noteq> None"
    by (auto simp: list_position_Some)
  then show ?thesis
    using assms False i length_filter_update [OF *(1), of "\<lambda>x. x \<noteq> None" "Some x"]
    by (auto simp: sv_put_def sv_inv_def sv_get_def sv_slots_len_def nth_list_update fun_eq_iff)
qed

lemma sv_put_at_spec:
  assumes "sv_inv s" and "i + 1 < USIZE_LIMIT"
  shows "\<exists>s'. sv_put_at s i x = Some (sv_get s i, s') \<and> sv_inv s' \<and> sv_get s' = (sv_get s)(i \<mapsto> x)"
proof -
  define sl where "sl = (if i \<ge> length (slots s) then resize_slots (i + 1) (slots s) else slots s)"
  have len: "i < length sl" by (simp add: sl_def)
  have nth: "sl ! j = sv_get s j" if "j < length sl" for j
    using that by (auto simp: sl_def sv_get_def nth_resize_slots)
  have cnt: "length (filter (\<lambda>x. x \<noteq> None) sl) = num_occupied s"
    using assms(1) filter_resize_slots [of "slots s" "i + 1"]
    by (simp add: sl_def sv_inv_def del: not_None_eq)
  have out: "sv_get s j = None" if "\<not> j < length sl" for j
    using that by (auto simp: sl_def sv_get_def split: if_splits)
  have "sv_put_at s i x = Some (sl ! i, s\<lparr>slots := sl[i := Some x],
      num_occupied := (if sl ! i = None then num_occupied s + 1 else num_occupied s)\<rparr>)"
    using assms(2) by (simp add: sv_put_at_def sl_def Let_def)
  then show ?thesis
    using length_filter_update [OF len, of "\<lambda>x. x \<noteq> None" "Some x"] len nth out cnt
    by (auto simp: sv_inv_def sv_get_def [of "s\<lparr>slots := _, num_occupied := _\<rparr>"]
        nth_list_update fun_eq_iff)
qed

lemma sv_remove_spec:
  assumes "sv_inv s"
  shows "\<exists>s'. sv_remove s i = Some (sv_get s i, s') \<and> sv_inv s' \<and> sv_get s' = (sv_get s)(i := None)"
proof (cases "i < length (slots s)")
  case True
  have "slots s ! i \<noteq> None \<Longrightarrow> 0 < num_occupied s"
    using assms nth_mem [OF True] by (force simp: sv_inv_def filter_empty_conv)
  then show ?thesis
    using True assms length_filter_update [OF True, of "\<lambda>x. x \<noteq> None" None]
    by (auto simp: sv_remove_def Let_def sv_inv_def sv_get_def nth_list_update fun_eq_iff)
next
  case False
  then show ?thesis
    using assms by (auto simp: sv_remove_def sv_get_def fun_eq_iff)
qed

interpretation sv: slot_table sv_inv sv_get sv_slots_len sv_put sv_put_at sv_remove
proof unfold_locales
  show "sv_slots_len s \<le> i \<Longrightarrow> sv_get s i = None" for s :: "'a slot_vec" and i
    by (simp add: sv_get_def sv_slots_len_def)
qed (fact sv_put_spec sv_put_at_spec sv_remove_spec)+

lemma sv_inv_new [simp]: "sv_inv sv_new"
  by (simp add: sv_inv_def sv_new_def)

lemma sv_get_new [simp]: "sv_get sv_new i = None"
  by (simp add: sv_get_def sv_new_def)

lemma sv_clone_id [simp]: "sv_clone s = s"
  by (simp add: sv_clone_def)

lemma sv_idxes_and_items_mem: "(i, x) \<in> set (sv_idxes_and_items s) \<longleftrightarrow> sv_get s i = Some x"
  by (force simp: sv_idxes_and_items_def sv_get_def in_set_enumerate_eq)

lemma sv_idxes_and_items_sorted: "sorted_wrt (<) (map fst (sv_idxes_and_items s))"
proof -
  have "map fst (sv_idxes_and_items s) = map fst (filter (\<lambda>(_, x). x \<noteq> None) (enumerate 0 (slots s)))"
    by (simp add: sv_idxes_and_items_def split_def)
  moreover have "sorted_wrt (\<lambda>a b. fst a < fst b) (enumerate 0 (slots s))"
    using sorted_wrt_map [of "(<)" fst "enumerate 0 (slots s)"] by (simp add: map_fst_enumerate)
  ultimately show ?thesis
    by (simp add: sorted_wrt_map sorted_wrt_filter)
qed

lemma sv_iter_eq: "sv_iter s = map snd (sv_idxes_and_items s)"
proof -
  have "List.map_filter id xs = map (\<lambda>p. the (snd p)) (filter (\<lambda>(_, x). x \<noteq> None) (enumerate n xs))"
    for xs :: "'a option list" and n
    by (induction xs arbitrary: n) (auto simp: List.map_filter_simps)
  then show ?thesis
    by (simp add: sv_iter_def sv_idxes_and_items_def split_def comp_def)
qed

lemma sv_len_card: "sv_inv s \<Longrightarrow> sv_len s = length (sv_iter s)"
proof -
  have "length (List.map_filter id xs) = length (filter (\<lambda>x. x \<noteq> None) xs)" for xs :: "'a option list"
    by (induction xs) (auto simp: List.map_filter_simps)
  then show "sv_inv s \<Longrightarrow> sv_len s = length (sv_iter s)"
    by (simp add: sv_len_def sv_inv_def sv_iter_def)
qed

end
