(* ===== verification/BTree_Map.thy ===== *)
theory BTree_Map
  imports Prelude
begin

text \<open>
  The standard library's \<^verbatim>\<open>BTreeMap\<close>, as the code uses it: a finite map that is iterated
  in ascending key order. It is an association list whose keys ascend strictly
  (\<open>btm_wf\<close>); \<open>map_of\<close> is its abstraction function. Every operation keeps the order and
  commutes with \<open>map_of\<close>.
\<close>

type_synonym ('k, 'v) btree_map = "('k \<times> 'v) list"

named_theorems btm_simps \<open>abstraction and well-formedness of the map operations\<close>

definition btm_keys :: "('k, 'v) btree_map \<Rightarrow> 'k list" where
  "btm_keys m = map fst m"

definition btm_values :: "('k, 'v) btree_map \<Rightarrow> 'v list" where
  "btm_values m = map snd m"

definition btm_wf :: "('k::linorder, 'v) btree_map \<Rightarrow> bool" where
  "btm_wf m \<longleftrightarrow> sorted_wrt (<) (map fst m)"

fun btm_insert :: "'k::linorder \<Rightarrow> 'v \<Rightarrow> ('k, 'v) btree_map \<Rightarrow> ('k, 'v) btree_map" where
  "btm_insert k v [] = [(k, v)]"
| "btm_insert k v ((k', v') # m) =
     (if k < k' then (k, v) # (k', v') # m
      else if k = k' then (k, v) # m
      else (k', v') # btm_insert k v m)"

fun btm_remove :: "'k \<Rightarrow> ('k, 'v) btree_map \<Rightarrow> ('k, 'v) btree_map" where
  "btm_remove k [] = []"
| "btm_remove k ((k', v') # m) = (if k = k' then btm_remove k m else (k', v') # btm_remove k m)"

definition btm_retain :: "('k \<Rightarrow> 'v \<Rightarrow> bool) \<Rightarrow> ('k, 'v) btree_map \<Rightarrow> ('k, 'v) btree_map" where
  "btm_retain P m = filter (\<lambda>(k, v). P k v) m"

fun btm_insert_all :: "('k::linorder \<times> 'v) list \<Rightarrow> ('k, 'v) btree_map \<Rightarrow> ('k, 'v) btree_map" where
  "btm_insert_all [] m = m"
| "btm_insert_all ((k, v) # kvs) m = btm_insert_all kvs (btm_insert k v m)"

fun btm_remove_all :: "'k list \<Rightarrow> ('k, 'v) btree_map \<Rightarrow> ('k, 'v) btree_map" where
  "btm_remove_all [] m = m"
| "btm_remove_all (k # ks) m = btm_remove_all ks (btm_remove k m)"

section \<open>Order\<close>

lemma btm_wf_Nil [simp]: "btm_wf []"
  by (simp add: btm_wf_def)

lemma btm_wf_Cons: "btm_wf ((k, v) # m) \<longleftrightarrow> (\<forall>k' \<in> fst ` set m. k < k') \<and> btm_wf m"
  by (auto simp: btm_wf_def)

lemma btm_wf_distinct: "btm_wf m \<Longrightarrow> distinct (map fst m)"
  by (auto simp: btm_wf_def strict_sorted_iff)

lemma keys_btm_insert [btm_simps]: "fst ` set (btm_insert k v m) = insert k (fst ` set m)"
  by (induction k v m rule: btm_insert.induct) auto

lemma set_btm_remove [btm_simps]: "set (btm_remove k m) = {(k', v) \<in> set m. k' \<noteq> k}"
  by (induction k m rule: btm_remove.induct) auto

lemma btm_wf_insert [btm_simps, intro]: "btm_wf m \<Longrightarrow> btm_wf (btm_insert k v m)"
  by (induction k v m rule: btm_insert.induct) (auto simp: btm_wf_Cons keys_btm_insert)

lemma btm_wf_remove [btm_simps, intro]: "btm_wf m \<Longrightarrow> btm_wf (btm_remove k m)"
  by (induction k m rule: btm_remove.induct) (auto simp: btm_wf_Cons set_btm_remove)

lemma btm_wf_retain [btm_simps, intro]: "btm_wf m \<Longrightarrow> btm_wf (btm_retain P m)"
  by (induction m) (auto simp: btm_wf_Cons btm_retain_def)

lemma btm_wf_insert_all [btm_simps, intro]: "btm_wf m \<Longrightarrow> btm_wf (btm_insert_all kvs m)"
  by (induction kvs m rule: btm_insert_all.induct) auto

lemma btm_wf_remove_all [btm_simps, intro]: "btm_wf m \<Longrightarrow> btm_wf (btm_remove_all ks m)"
  by (induction ks m rule: btm_remove_all.induct) auto

section \<open>Lookup\<close>

lemma map_of_btm_insert [btm_simps]: "btm_wf m \<Longrightarrow> map_of (btm_insert k v m) = (map_of m)(k \<mapsto> v)"
  by (induction k v m rule: btm_insert.induct) (auto simp: btm_wf_Cons)

lemma map_of_btm_remove [btm_simps]: "map_of (btm_remove k m) = (map_of m)(k := None)"
  by (induction k m rule: btm_remove.induct) auto

lemma map_of_btm_remove_all [btm_simps]:
  "map_of (btm_remove_all ks m) k = (if k \<in> set ks then None else map_of m k)"
  by (induction ks m rule: btm_remove_all.induct) (auto simp: map_of_btm_remove)

lemma map_of_filter_key: "map_of (filter (\<lambda>(k, v). P k) m) k = (if P k then map_of m k else None)"
  by (induction m) auto

lemma map_of_Some_key: "map_of m k = Some v \<Longrightarrow> k \<in> fst ` set m"
  by (metis domI dom_map_of_conv_image_fst)

lemma set_btm_insert:
  "btm_wf m \<Longrightarrow> set (btm_insert k v m) = insert (k, v) {(k', v') \<in> set m. k' \<noteq> k}"
  by (induction k v m rule: btm_insert.induct) (auto simp: btm_wf_Cons)

lemma btm_mem_iff: "btm_wf m \<Longrightarrow> (k, v) \<in> set m \<longleftrightarrow> map_of m k = Some v"
  by (simp add: btm_wf_distinct)

lemma length_btm_insert:
  "btm_wf m \<Longrightarrow> length (btm_insert k v m) = (if k \<in> fst ` set m then length m else Suc (length m))"
  by (induction k v m rule: btm_insert.induct) (auto simp: btm_wf_Cons)

lemma btm_remove_absent: "k \<notin> fst ` set m \<Longrightarrow> btm_remove k m = m"
  by (induction k m rule: btm_remove.induct) auto

lemma length_btm_remove:
  "btm_wf m \<Longrightarrow> length (btm_remove k m) = (if k \<in> fst ` set m then length m - 1 else length m)"
proof (induction k m rule: btm_remove.induct)
  case (2 k k' v' m)
  have "k \<in> fst ` set m \<Longrightarrow> 0 < length m" by (cases m) auto
  with 2 show ?case by (auto simp: btm_wf_Cons btm_remove_absent)
qed simp

lemma length_btm_remove_le: "length (btm_remove k m) \<le> length m"
  by (induction k m rule: btm_remove.induct) auto

lemma length_btm_remove_less: "map_of m k = Some v \<Longrightarrow> length (btm_remove k m) < length m"
  by (induction k m rule: btm_remove.induct) (auto simp: less_Suc_eq_le length_btm_remove_le)

end
