(* ===== verification/Subject.thy ===== *)
theory Subject
  imports BTree_Map
begin

text \<open>
  The observer pattern of \<^verbatim>\<open>services/libs/aster-std/src/events/subject.rs\<close>. Observers
  are identified by the address the weak reference compares by; \<open>alive\<close> says which weak
  references can still be upgraded, and \<open>flt\<close> is the \<^verbatim>\<open>filter\<close> method of the
  subject's filter type. A notification yields the observers whose \<^verbatim>\<open>on_events\<close> is
  called, in order, and the subject that is left.
\<close>

section \<open>Definitions\<close>

record ('o, 'f) subject =
  observers :: "('o, 'f) btree_map"
  num_observers :: nat

definition atomic_inc :: "nat \<Rightarrow> nat" where
  "atomic_inc n = (n + 1) mod USIZE_LIMIT"

definition atomic_dec :: "nat \<Rightarrow> nat" where
  "atomic_dec n = (n + (USIZE_LIMIT - 1)) mod USIZE_LIMIT"

definition subject_new :: "('o, 'f) subject" where
  "subject_new = \<lparr>observers = [], num_observers = 0\<rparr>"

definition register_observer ::
    "('o::linorder, 'f) subject \<Rightarrow> 'o \<Rightarrow> 'f \<Rightarrow> ('o, 'f) subject" where
  "register_observer s ob fi =
     (let is_new = (map_of (observers s) ob = None);
          s' = s\<lparr>observers := btm_insert ob fi (observers s)\<rparr> in
      if is_new then s'\<lparr>num_observers := atomic_inc (num_observers s)\<rparr> else s')"

definition unregister_observer ::
    "('o::linorder, 'f) subject \<Rightarrow> 'o \<Rightarrow> 'o option \<times> ('o, 'f) subject" where
  "unregister_observer s ob =
     (let found = map_option (\<lambda>_. ob) (map_of (observers s) ob);
          s' = s\<lparr>observers := btm_remove ob (observers s)\<rparr> in
      (found, if found \<noteq> None then s'\<lparr>num_observers := atomic_dec (num_observers s)\<rparr> else s'))"

text \<open>The closure passed to \<^verbatim>\<open>retain\<close>, run over the observers in key order.\<close>

fun notify_retain ::
    "('o \<Rightarrow> bool) \<Rightarrow> ('f \<Rightarrow> 'e \<Rightarrow> bool) \<Rightarrow> 'e \<Rightarrow> nat \<Rightarrow> ('o \<times> 'f) list \<Rightarrow>
      'o list \<times> ('o \<times> 'f) list \<times> nat" where
  "notify_retain alive flt ev n [] = ([], [], n)"
| "notify_retain alive flt ev n ((ob, fi) # rest) =
     (if alive ob
      then let (calls, kept, n') = notify_retain alive flt ev n rest in
        (if \<not> flt fi ev then calls else ob # calls, (ob, fi) # kept, n')
      else notify_retain alive flt ev (atomic_dec n) rest)"

definition notify_observers ::
    "('o \<Rightarrow> bool) \<Rightarrow> ('f \<Rightarrow> 'e \<Rightarrow> bool) \<Rightarrow> ('o, 'f) subject \<Rightarrow> 'e \<Rightarrow> 'o list \<times> ('o, 'f) subject" where
  "notify_observers alive flt s ev =
     (if num_observers s = 0 then ([], s)
      else let (calls, kept, n) = notify_retain alive flt ev (num_observers s) (observers s) in
        (calls, s\<lparr>observers := kept, num_observers := n\<rparr>))"

text \<open>The lock-free counter agrees with the table.\<close>

definition subject_inv :: "('o::linorder, 'f) subject \<Rightarrow> bool" where
  "subject_inv s \<longleftrightarrow> btm_wf (observers s) \<and> num_observers s = length (observers s) \<and>
     length (observers s) < USIZE_LIMIT"

section \<open>Lemmas\<close>

lemma atomic_inc_eq: "n + 1 < USIZE_LIMIT \<Longrightarrow> atomic_inc n = n + 1"
  by (simp add: atomic_inc_def)

lemma atomic_dec_eq: "0 < n \<Longrightarrow> n < USIZE_LIMIT \<Longrightarrow> atomic_dec n = n - 1"
  by (cases n) (simp_all add: atomic_dec_def)

lemma notify_retain_eq:
  assumes "length obs \<le> n" and "n < USIZE_LIMIT"
  shows "notify_retain alive flt ev n obs =
    (map fst (filter (\<lambda>(ob, fi). alive ob \<and> flt fi ev) obs),
     filter (\<lambda>(ob, fi). alive ob) obs,
     n - length (filter (\<lambda>(ob, fi). \<not> alive ob) obs))"
  using assms by (induction alive flt ev n obs rule: notify_retain.induct) (auto simp: atomic_dec_eq)

lemma subject_inv_new [simp]: "subject_inv subject_new"
  by (simp add: subject_inv_def subject_new_def)

lemma subject_inv_register:
  assumes "subject_inv s" and "length (observers s) + 1 < USIZE_LIMIT"
  shows "subject_inv (register_observer s ob fi)"
    and "map_of (observers (register_observer s ob fi)) = (map_of (observers s))(ob \<mapsto> fi)"
  using assms
  by (auto simp: subject_inv_def register_observer_def Let_def length_btm_insert atomic_inc_eq
      map_of_btm_insert map_of_eq_None_iff)

lemma subject_inv_unregister:
  assumes "subject_inv s" and "unregister_observer s ob = (r, s')"
  shows "subject_inv s'" and "r = map_option (\<lambda>_. ob) (map_of (observers s) ob)"
    and "map_of (observers s') = (map_of (observers s))(ob := None)"
proof -
  have *: "map_of (observers s) ob \<noteq> None \<Longrightarrow> 0 < length (observers s)"
    by (cases "observers s") auto
  have mem: "ob \<in> fst ` set (observers s) \<longleftrightarrow> map_of (observers s) ob \<noteq> None"
    by (simp add: map_of_eq_None_iff)
  show "subject_inv s'" "r = map_option (\<lambda>_. ob) (map_of (observers s) ob)"
    "map_of (observers s') = (map_of (observers s))(ob := None)"
    using assms *
    by (auto simp: subject_inv_def unregister_observer_def Let_def length_btm_remove atomic_dec_eq
        map_of_btm_remove mem split: if_splits)
qed

lemma notify_observers_eq:
  assumes "subject_inv s"
  shows "notify_observers alive flt s ev =
    (map fst (filter (\<lambda>(ob, fi). alive ob \<and> flt fi ev) (observers s)),
     s\<lparr>observers := filter (\<lambda>(ob, fi). alive ob) (observers s),
       num_observers := length (filter (\<lambda>(ob, fi). alive ob) (observers s))\<rparr>)"
proof -
  have "length (filter (\<lambda>(ob, fi). \<not> alive ob) (observers s))
      + length (filter (\<lambda>(ob, fi). alive ob) (observers s)) = length (observers s)"
    using sum_length_filter_compl [of "\<lambda>(ob, fi). alive ob" "observers s"]
    by (simp add: split_def add.commute)
  then show ?thesis
    using assms by (auto simp: notify_observers_def subject_inv_def notify_retain_eq)
qed

lemma subject_inv_notify:
  assumes "subject_inv s"
  shows "subject_inv (snd (notify_observers alive flt s ev))"
  using assms btm_wf_retain [of "observers s" "\<lambda>ob _. alive ob"]
  by (auto simp: notify_observers_eq subject_inv_def btm_retain_def
      intro: le_less_trans [OF length_filter_le])

section \<open>Properties\<close>

text \<open>a notification calls exactly the registered observers that are still alive and whose
  filter accepts the event, each of them once, and afterwards the subject holds exactly the
  live registrations, with its lock-free counter equal to their number.
\<close>

theorem notify_observers_correct:
  assumes "subject_inv s" and "notify_observers alive flt s ev = (calls, s')"
  shows "distinct calls \<and>
    (\<forall>ob. ob \<in> set calls \<longleftrightarrow> alive ob \<and> (\<exists>fi. map_of (observers s) ob = Some fi \<and> flt fi ev)) \<and>
    (\<forall>ob. map_of (observers s') ob = (if alive ob then map_of (observers s) ob else None)) \<and>
    subject_inv s'"
proof -
  let ?live = "filter (\<lambda>(ob, fi). alive ob) (observers s)"
  have wf: "btm_wf (observers s)" "distinct (map fst (observers s))"
    using assms(1) btm_wf_distinct by (auto simp: subject_inv_def)
  have calls: "calls = map fst (filter (\<lambda>(ob, fi). alive ob \<and> flt fi ev) (observers s))"
    and s': "observers s' = ?live"
    using assms(2) notify_observers_eq [OF assms(1), of alive flt ev] by auto
  have "distinct calls"
    unfolding calls using wf(2) by (simp add: distinct_map_filter)
  moreover have "ob \<in> set calls \<longleftrightarrow> alive ob \<and> (\<exists>fi. map_of (observers s) ob = Some fi \<and> flt fi ev)"
    for ob
    unfolding calls using wf(2) by (force simp: map_of_eq_Some_iff)
  moreover have "map_of (observers s') ob = (if alive ob then map_of (observers s) ob else None)" for ob
    unfolding s' by (rule map_of_filter_key)
  moreover have "subject_inv s'"
    using subject_inv_notify [OF assms(1), of alive flt ev] assms(2) by simp
  ultimately show ?thesis by blast
qed

theorem notify_observers_correct_witness:
  "notify_observers (\<lambda>ob. ob \<noteq> (2::nat)) (\<lambda>fi ev. fi = ev)
      \<lparr>observers = [(1, 7), (2, 7), (3, 8)], num_observers = 3\<rparr> (7::nat)
    = ([1], \<lparr>observers = [(1, 7), (3, 8)], num_observers = 2\<rparr>) \<and>
   subject_inv \<lparr>observers = [(1::nat, 7::nat), (3, 8)], num_observers = 2\<rparr>"
proof -
  let ?s = "\<lparr>observers = [(1::nat, 7::nat), (2, 7), (3, 8)], num_observers = 3\<rparr>"
  have inv: "subject_inv ?s" by (simp add: subject_inv_def btm_wf_def)
  have eval: "notify_observers (\<lambda>ob. ob \<noteq> 2) (\<lambda>fi ev. fi = ev) ?s 7
      = ([1], \<lparr>observers = [(1, 7), (3, 8)], num_observers = 2\<rparr>)"
    by (simp add: notify_observers_def atomic_dec_def)
  show ?thesis
    using eval notify_observers_correct [OF inv eval] by simp
qed

end
