(* ===== verification/File_Table.thy ===== *)
theory File_Table
  imports Slot_Vec Subject
begin

text \<open>
  The file table of a process (\<^verbatim>\<open>services/libs/aster-std/src/fs/file_table.rs\<close>) and the
  system calls \<^verbatim>\<open>dup\<close>, \<^verbatim>\<open>dup2\<close> and \<^verbatim>\<open>close\<close> built on it
  (\<^verbatim>\<open>syscall/dup.rs\<close>, \<^verbatim>\<open>syscall/close.rs\<close>).

  Files (\<^verbatim>\<open>Arc<dyn FileLike>\<close>) are an arbitrary type \<open>'f\<close>. A file descriptor is an
  \<^verbatim>\<open>i32\<close>, kept as \<open>int\<close>; \<open>fd_as_usize\<close> and \<open>usize_as_fd\<close> are the two \<^verbatim>\<open>as\<close>
  casts. Every operation that notifies observers also returns the calls it makes, as pairs of
  an observer and the event. The proofs use the contract \<open>slot_table\<close> through its
  interpretation \<open>sv\<close>.
\<close>

section \<open>Definitions\<close>

datatype fd_events = Close int | DropFileTable

definition fd_as_usize :: "int \<Rightarrow> nat" where
  "fd_as_usize fd = nat (fd mod 2 ^ 64)"

definition usize_as_fd :: "nat \<Rightarrow> int" where
  "usize_as_fd n = (int n + 2 ^ 31) mod 2 ^ 32 - 2 ^ 31"

record ('f, 'o) ft_entry =
  fte_file :: 'f
  fte_close_on_exec :: bool
  fte_subject :: "('o, unit) subject"

record ('f, 'o) file_table =
  ft_table :: "('f, 'o) ft_entry slot_vec"
  ft_subject :: "('o, unit) subject"

type_synonym 'o fd_calls = "('o \<times> fd_events) list"

definition fte_new :: "'f \<Rightarrow> bool \<Rightarrow> ('f, 'o) ft_entry" where
  "fte_new f cloexec = \<lparr>fte_file = f, fte_close_on_exec = cloexec, fte_subject = subject_new\<rparr>"

definition fte_clone :: "('f, 'o) ft_entry \<Rightarrow> ('f, 'o) ft_entry" where
  "fte_clone e = \<lparr>fte_file = fte_file e, fte_close_on_exec = fte_close_on_exec e,
                  fte_subject = subject_new\<rparr>"

definition fte_notify_fd_events ::
    "('o \<Rightarrow> bool) \<Rightarrow> ('f, 'o) ft_entry \<Rightarrow> fd_events \<Rightarrow> 'o fd_calls \<times> ('f, 'o) ft_entry" where
  "fte_notify_fd_events alive e ev =
     (let (calls, s) = notify_observers alive (\<lambda>_ _. True) (fte_subject e) ev in
      (map (\<lambda>ob. (ob, ev)) calls, e\<lparr>fte_subject := s\<rparr>))"

definition ft_new :: "('f, 'o) file_table" where
  "ft_new = \<lparr>ft_table = sv_new, ft_subject = subject_new\<rparr>"

text \<open>
  \<open>open_console flags mode\<close> is \<^verbatim>\<open>fs_resolver.open\<close> on the path of the console.
\<close>

definition ft_new_with_stdio :: "(nat \<Rightarrow> nat \<Rightarrow> 'f option) \<Rightarrow> ('f, 'o) file_table option" where
  "ft_new_with_stdio open_console =
     Option.bind (open_console 0 256) (\<lambda>stdin.
     Option.bind (open_console 1 128) (\<lambda>stdout.
     Option.bind (open_console 1 128) (\<lambda>stderr.
     Option.bind (sv_put sv_new (fte_new stdin False)) (\<lambda>(_, t1).
     Option.bind (sv_put t1 (fte_new stdout False)) (\<lambda>(_, t2).
     Option.bind (sv_put t2 (fte_new stderr False)) (\<lambda>(_, t3).
     Some \<lparr>ft_table = t3, ft_subject = subject_new\<rparr>))))))"

definition ft_notify_fd_events ::
    "('o \<Rightarrow> bool) \<Rightarrow> ('f, 'o) file_table \<Rightarrow> fd_events \<Rightarrow> 'o fd_calls \<times> ('f, 'o) file_table" where
  "ft_notify_fd_events alive t ev =
     (let (calls, s) = notify_observers alive (\<lambda>_ _. True) (ft_subject t) ev in
      (map (\<lambda>ob. (ob, ev)) calls, t\<lparr>ft_subject := s\<rparr>))"

definition get_min_free_fd :: "('f, 'o) file_table \<Rightarrow> nat \<Rightarrow> nat" where
  "get_min_free_fd t new_fd =
     (if sv_get (ft_table t) new_fd = None then new_fd
      else case find (\<lambda>idx. sv_get (ft_table t) idx = None)
             [new_fd + 1..<sv_slots_len (ft_table t)] of
        Some idx \<Rightarrow> idx
      | None \<Rightarrow> sv_slots_len (ft_table t))"

definition ft_dup :: "('f, 'o) file_table \<Rightarrow> int \<Rightarrow> int \<Rightarrow> (int \<times> ('f, 'o) file_table) res" where
  "ft_dup t fd new_fd =
     rbind (ok_or ENOENT (map_option fte_clone (sv_get (ft_table t) (fd_as_usize fd)))) (\<lambda>entry.
     let min_free_fd = get_min_free_fd t (fd_as_usize new_fd) in
     rbind (unwrap_opt (sv_put_at (ft_table t) min_free_fd entry)) (\<lambda>(_, tbl).
     Ok (usize_as_fd min_free_fd, t\<lparr>ft_table := tbl\<rparr>)))"

definition ft_insert :: "('f, 'o) file_table \<Rightarrow> 'f \<Rightarrow> (int \<times> ('f, 'o) file_table) option" where
  "ft_insert t item =
     map_option (\<lambda>(idx, tbl). (usize_as_fd idx, t\<lparr>ft_table := tbl\<rparr>))
       (sv_put (ft_table t) (fte_new item False))"

text \<open>The part shared by \<^verbatim>\<open>insert_at\<close> and \<^verbatim>\<open>close_file\<close>: announce a closed entry.\<close>

definition ft_announce_close ::
    "('o \<Rightarrow> bool) \<Rightarrow> ('f, 'o) file_table \<Rightarrow> int \<Rightarrow> ('f, 'o) ft_entry option \<Rightarrow>
      'f option \<times> 'o fd_calls \<times> ('f, 'o) file_table" where
  "ft_announce_close alive t fd entry =
     (case entry of
        None \<Rightarrow> (None, [], t)
      | Some e \<Rightarrow>
          let (calls1, t') = ft_notify_fd_events alive t (Close fd);
              (calls2, e') = fte_notify_fd_events alive e (Close fd) in
          (Some (fte_file e'), calls1 @ calls2, t'))"

definition ft_insert_at ::
    "('o \<Rightarrow> bool) \<Rightarrow> ('f, 'o) file_table \<Rightarrow> int \<Rightarrow> 'f \<Rightarrow>
      ('f option \<times> 'o fd_calls \<times> ('f, 'o) file_table) option" where
  "ft_insert_at alive t fd item =
     map_option (\<lambda>(entry, tbl). ft_announce_close alive (t\<lparr>ft_table := tbl\<rparr>) fd entry)
       (sv_put_at (ft_table t) (fd_as_usize fd) (fte_new item False))"

definition ft_close_file ::
    "('o \<Rightarrow> bool) \<Rightarrow> ('f, 'o) file_table \<Rightarrow> int \<Rightarrow>
      ('f option \<times> 'o fd_calls \<times> ('f, 'o) file_table) option" where
  "ft_close_file alive t fd =
     map_option (\<lambda>(entry, tbl). ft_announce_close alive (t\<lparr>ft_table := tbl\<rparr>) fd entry)
       (sv_remove (ft_table t) (fd_as_usize fd))"

fun ft_close_fds ::
    "('o \<Rightarrow> bool) \<Rightarrow> ('f, 'o) file_table \<Rightarrow> int list \<Rightarrow>
      ('f list \<times> 'o fd_calls \<times> ('f, 'o) file_table) option" where
  "ft_close_fds alive t [] = Some ([], [], t)"
| "ft_close_fds alive t (fd # fds) =
     Option.bind (sv_remove (ft_table t) (fd_as_usize fd)) (\<lambda>(entry, tbl).
     Option.bind entry (\<lambda>e.
     let (calls1, t') = ft_notify_fd_events alive (t\<lparr>ft_table := tbl\<rparr>) (Close fd);
         (calls2, e') = fte_notify_fd_events alive e (Close fd) in
     Option.bind (ft_close_fds alive t' fds) (\<lambda>(files, calls, t'').
     Some (fte_file e' # files, calls1 @ calls2 @ calls, t''))))"

definition ft_close_all ::
    "('o \<Rightarrow> bool) \<Rightarrow> ('f, 'o) file_table \<Rightarrow>
      ('f list \<times> 'o fd_calls \<times> ('f, 'o) file_table) option" where
  "ft_close_all alive t =
     (let closed_fds = map (\<lambda>(idx, _). usize_as_fd idx) (sv_idxes_and_items (ft_table t)) in
      ft_close_fds alive t closed_fds)"

definition ft_get_file :: "('f, 'o) file_table \<Rightarrow> int \<Rightarrow> 'f res" where
  "ft_get_file t fd = ok_or EBADF (map_option fte_file (sv_get (ft_table t) (fd_as_usize fd)))"

definition ft_get_socket :: "('f \<Rightarrow> 's option) \<Rightarrow> ('f, 'o) file_table \<Rightarrow> int \<Rightarrow> 's res" where
  "ft_get_socket as_socket t sockfd = rbind (ft_get_file t sockfd) (\<lambda>f. ok_or ENOTSOCK (as_socket f))"

definition ft_get_entry :: "('f, 'o) file_table \<Rightarrow> int \<Rightarrow> ('f, 'o) ft_entry res" where
  "ft_get_entry t fd = ok_or EBADF (sv_get (ft_table t) (fd_as_usize fd))"

definition ft_fds_and_files :: "('f, 'o) file_table \<Rightarrow> (int \<times> 'f) list" where
  "ft_fds_and_files t =
     map (\<lambda>(idx, e). (usize_as_fd idx, fte_file e)) (sv_idxes_and_items (ft_table t))"

definition ft_clone :: "('f, 'o) file_table \<Rightarrow> ('f, 'o) file_table" where
  "ft_clone t =
     \<lparr>ft_table = \<lparr>slots = map (map_option fte_clone) (slots (sv_clone (ft_table t))),
                  num_occupied = num_occupied (sv_clone (ft_table t))\<rparr>,
      ft_subject = subject_new\<rparr>"

definition ft_drop :: "('o \<Rightarrow> bool) \<Rightarrow> ('f, 'o) file_table \<Rightarrow> 'o fd_calls" where
  "ft_drop alive t = fst (ft_notify_fd_events alive t DropFileTable)"

text \<open>The system calls; \<open>clean_for_close\<close> is the method of \<^verbatim>\<open>FileLike\<close>.\<close>

definition sys_dup :: "('f, 'o) file_table \<Rightarrow> int \<Rightarrow> (int \<times> ('f, 'o) file_table) res" where
  "sys_dup t old_fd = rbind (ft_get_file t old_fd) (\<lambda>f. unwrap_opt (ft_insert t f))"

definition sys_dup2 ::
    "('o \<Rightarrow> bool) \<Rightarrow> ('f, 'o) file_table \<Rightarrow> int \<Rightarrow> int \<Rightarrow> (int \<times> ('f, 'o) file_table) res" where
  "sys_dup2 alive t old_fd new_fd =
     rbind (ft_get_file t old_fd) (\<lambda>f.
     if old_fd \<noteq> new_fd
     then rbind (unwrap_opt (ft_insert_at alive t new_fd f)) (\<lambda>(_, _, t'). Ok (new_fd, t'))
     else Ok (new_fd, t))"

definition sys_close ::
    "('f \<Rightarrow> unit res) \<Rightarrow> ('o \<Rightarrow> bool) \<Rightarrow> ('f, 'o) file_table \<Rightarrow> int \<Rightarrow> unit res \<times> ('f, 'o) file_table" where
  "sys_close clean_for_close alive t fd =
     (case ft_get_file t fd of
        Ok _ \<Rightarrow>
          (case ft_close_file alive t fd of
             Some (Some f, _, t') \<Rightarrow> (clean_for_close f, t')
           | Some (None, _, t') \<Rightarrow> (Panic, t')
           | None \<Rightarrow> (Panic, t))
      | Err e \<Rightarrow> (Err e, t)
      | Panic \<Rightarrow> (Panic, t))"

text \<open>The table a process sees: descriptor numbers to entries.\<close>

abbreviation ft_entry_at :: "('f, 'o) file_table \<Rightarrow> nat \<Rightarrow> ('f, 'o) ft_entry option" where
  "ft_entry_at t \<equiv> sv_get (ft_table t)"

abbreviation ft_file_at :: "('f, 'o) file_table \<Rightarrow> nat \<Rightarrow> 'f option" where
  "ft_file_at t n \<equiv> map_option fte_file (ft_entry_at t n)"

definition ft_inv :: "('f, 'o) file_table \<Rightarrow> bool" where
  "ft_inv t \<longleftrightarrow> sv_inv (ft_table t) \<and> sv_slots_len (ft_table t) < 2 ^ 31"

section \<open>Casts\<close>

lemma fd_as_usize_nonneg: "0 \<le> fd \<Longrightarrow> fd < 2 ^ 31 \<Longrightarrow> fd_as_usize fd = nat fd"
  by (simp add: fd_as_usize_def)

lemma usize_as_fd_small: "n < 2 ^ 31 \<Longrightarrow> usize_as_fd n = int n"
  by (simp add: usize_as_fd_def)

lemma fd_cast_roundtrip: "n < 2 ^ 31 \<Longrightarrow> fd_as_usize (usize_as_fd n) = n"
  by (simp add: usize_as_fd_small fd_as_usize_nonneg)

lemma fd_as_usize_neg: "- (2 ^ 31) \<le> fd \<Longrightarrow> fd < 0 \<Longrightarrow> fd_as_usize fd = nat (fd + 2 ^ 64)"
proof -
  assume "- (2 ^ 31) \<le> fd" and "fd < 0"
  then have "(fd + 2 ^ 64) mod 2 ^ 64 = fd + 2 ^ 64" by (intro mod_pos_pos_trivial) auto
  then show ?thesis by (simp add: fd_as_usize_def)
qed

section \<open>The lowest free descriptor\<close>

lemma get_min_free_fd_spec:
  "new_fd \<le> get_min_free_fd t new_fd"
  "ft_entry_at t (get_min_free_fd t new_fd) = None"
  "new_fd \<le> j \<Longrightarrow> j < get_min_free_fd t new_fd \<Longrightarrow> ft_entry_at t j \<noteq> None"
  "get_min_free_fd t new_fd \<le> max new_fd (sv_slots_len (ft_table t))"
proof -
  let ?P = "\<lambda>idx. ft_entry_at t idx = None" and ?n = "sv_slots_len (ft_table t)"
  have lt: "ft_entry_at t new_fd \<noteq> None \<Longrightarrow> new_fd < ?n"
    using sv.get_bound [of "ft_table t" new_fd] by (meson not_le)
  have "new_fd \<le> get_min_free_fd t new_fd \<and> ?P (get_min_free_fd t new_fd) \<and>
      (\<forall>j. new_fd \<le> j \<and> j < get_min_free_fd t new_fd \<longrightarrow> \<not> ?P j) \<and>
      get_min_free_fd t new_fd \<le> max new_fd ?n"
  proof (cases "?P new_fd")
    case True
    then show ?thesis by (auto simp: get_min_free_fd_def)
  next
    case used: False
    show ?thesis
    proof (cases "find ?P [new_fd + 1..<?n]")
      case None
      then have "\<forall>j. new_fd + 1 \<le> j \<and> j < ?n \<longrightarrow> \<not> ?P j"
        by (auto simp: find_None_iff)
      with used lt have "\<forall>j. new_fd \<le> j \<and> j < ?n \<longrightarrow> \<not> ?P j"
        by (metis Suc_eq_plus1 Suc_leI le_neq_implies_less)
      with used None lt show ?thesis
        by (auto simp: get_min_free_fd_def sv.get_bound)
    next
      case (Some idx)
      then obtain i where i: "i < ?n - (new_fd + 1)" "?P (new_fd + 1 + i)" "idx = new_fd + 1 + i"
        "\<forall>j<i. \<not> ?P (new_fd + 1 + j)"
        by (auto simp: find_Some_iff)
      have "\<not> ?P j" if "new_fd \<le> j" "j < idx" for j
      proof (cases "j = new_fd")
        case False
        with that i(3) have "j - (new_fd + 1) < i" "j = new_fd + 1 + (j - (new_fd + 1))" by auto
        with i(4) show ?thesis by metis
      qed (use used in simp)
      with used Some i show ?thesis by (auto simp: get_min_free_fd_def)
    qed
  qed
  then show "new_fd \<le> get_min_free_fd t new_fd"
    "ft_entry_at t (get_min_free_fd t new_fd) = None"
    "new_fd \<le> j \<Longrightarrow> j < get_min_free_fd t new_fd \<Longrightarrow> ft_entry_at t j \<noteq> None"
    "get_min_free_fd t new_fd \<le> max new_fd ?n" by blast+
qed

section \<open>Closing everything\<close>

lemma ft_notify_table [simp]: "ft_table (snd (ft_notify_fd_events alive t ev)) = ft_table t"
  by (simp add: ft_notify_fd_events_def split_def Let_def)

lemma fte_notify_file [simp]: "fte_file (snd (fte_notify_fd_events alive e ev)) = fte_file e"
  by (simp add: fte_notify_fd_events_def split_def Let_def)

lemma ft_close_fds_spec:
  assumes "sv_inv (ft_table t)" and "distinct ns" and "\<forall>n \<in> set ns. n < 2 ^ 31"
    and "\<forall>n \<in> set ns. ft_entry_at t n \<noteq> None"
  shows "\<exists>calls t'. ft_close_fds alive t (map usize_as_fd ns)
      = Some (map (\<lambda>n. fte_file (the (ft_entry_at t n))) ns, calls, t') \<and>
    sv_inv (ft_table t') \<and> (\<forall>n. ft_entry_at t' n = (if n \<in> set ns then None else ft_entry_at t n))"
  using assms
proof (induction ns arbitrary: t)
  case Nil
  then show ?case by simp
next
  case (Cons n ns)
  obtain e where e: "ft_entry_at t n = Some e" using Cons.prems(4) by auto
  obtain tbl where tbl: "sv_remove (ft_table t) n = Some (Some e, tbl)" "sv_inv tbl"
    "sv_get tbl = (ft_entry_at t)(n := None)"
    using sv.remove_spec [OF Cons.prems(1), of n] e by auto
  define t' where "t' = snd (ft_notify_fd_events alive (t\<lparr>ft_table := tbl\<rparr>) (Close (usize_as_fd n)))"
  have t': "ft_table t' = tbl" by (simp add: t'_def)
  have "sv_inv (ft_table t')" "distinct ns" "\<forall>n \<in> set ns. n < 2 ^ 31"
    "\<forall>m \<in> set ns. ft_entry_at t' m \<noteq> None"
    using Cons.prems tbl t' by auto
  from Cons.IH [OF this] obtain calls t'' where IH:
    "ft_close_fds alive t' (map usize_as_fd ns)
       = Some (map (\<lambda>m. fte_file (the (ft_entry_at t' m))) ns, calls, t'')"
    "sv_inv (ft_table t'')" "\<forall>m. ft_entry_at t'' m = (if m \<in> set ns then None else ft_entry_at t' m)"
    by blast
  have same: "map (\<lambda>m. fte_file (the (ft_entry_at t' m))) ns = map (\<lambda>m. fte_file (the (ft_entry_at t m))) ns"
    using Cons.prems(2) tbl(3) t' by auto
  have "n < 2 ^ 31" using Cons.prems(3) by simp
  then have "fd_as_usize (usize_as_fd n) = n" by (rule fd_cast_roundtrip)
  then show ?case
    using IH e tbl t' same by (auto simp: split_def Let_def t'_def [symmetric])
qed

lemma sv_idxes_distinct: "distinct (map fst (sv_idxes_and_items s))"
  using sv_idxes_and_items_sorted strict_sorted_iff by blast

section \<open>Properties\<close>

text \<open>\<^verbatim>\<open>dup\<close> of an open descriptor gives the lowest unused descriptor that is not below
  \<^verbatim>\<open>new_fd\<close>; afterwards that descriptor refers to the same file, no other descriptor has
  changed, and the slot vector's invariant still holds.
\<close>

theorem ft_dup_lowest:
  assumes "ft_inv t" and "ft_entry_at t (fd_as_usize fd) = Some e"
    and "0 \<le> new_fd" and "new_fd < 2 ^ 31"
  shows "\<exists>n t'. ft_dup t fd new_fd = Ok (int n, t') \<and> sv_inv (ft_table t') \<and>
    nat new_fd \<le> n \<and> ft_entry_at t n = None \<and>
    (\<forall>j. nat new_fd \<le> j \<and> j < n \<longrightarrow> ft_entry_at t j \<noteq> None) \<and>
    ft_file_at t' n = Some (fte_file e) \<and> (\<forall>j. j \<noteq> n \<longrightarrow> ft_entry_at t' j = ft_entry_at t j)"
proof -
  let ?n = "get_min_free_fd t (nat new_fd)"
  have n: "?n < 2 ^ 31"
    using get_min_free_fd_spec(4) [where t = t and new_fd = "nat new_fd"] assms(1,3,4) by (auto simp: ft_inv_def)
  then have "?n + 1 < USIZE_LIMIT" by simp
  then obtain tbl where tbl: "sv_put_at (ft_table t) ?n (fte_clone e) = Some (ft_entry_at t ?n, tbl)"
    "sv_inv tbl" "sv_get tbl = (ft_entry_at t)(?n \<mapsto> fte_clone e)"
    using sv.put_at_spec [of "ft_table t" ?n "fte_clone e"] assms(1) by (auto simp: ft_inv_def)
  have "ft_dup t fd new_fd = Ok (int ?n, t\<lparr>ft_table := tbl\<rparr>)"
    using assms tbl(1) n by (simp add: ft_dup_def fd_as_usize_nonneg usize_as_fd_small)
  then show ?thesis
    using get_min_free_fd_spec(1-3) [where t = t and new_fd = "nat new_fd"] tbl(2,3)
    by (intro exI [of _ ?n] exI [of _ "t\<lparr>ft_table := tbl\<rparr>"]) (auto simp: fte_clone_def)
qed

text \<open>\<^verbatim>\<open>insert\<close>, the path of \<^verbatim>\<open>open\<close> and \<^verbatim>\<open>dup\<close>, never fails and returns the
  lowest unused descriptor; the other descriptors are unchanged.
\<close>

theorem ft_insert_lowest:
  assumes "ft_inv t"
  shows "\<exists>n t'. ft_insert t item = Some (int n, t') \<and> sv_inv (ft_table t') \<and>
    n = (LEAST j. ft_entry_at t j = None) \<and>
    (\<forall>j. ft_file_at t' j = (if j = n then Some item else ft_file_at t j))"
proof -
  obtain n tbl where n: "sv_put (ft_table t) (fte_new item False) = Some (n, tbl)" "sv_inv tbl"
    "n \<le> sv_slots_len (ft_table t)" "sv_get tbl = (ft_entry_at t)(n \<mapsto> fte_new item False)"
    using sv.put_spec [of "ft_table t" "fte_new item False"] assms by (auto simp: ft_inv_def)
  have "n = (LEAST j. ft_entry_at t j = None)"
    by (rule sv.put_lowest [OF _ n(1)]) (use assms in \<open>simp add: ft_inv_def\<close>)
  moreover have "ft_insert t item = Some (int n, t\<lparr>ft_table := tbl\<rparr>)"
    using n assms by (simp add: ft_insert_def usize_as_fd_small ft_inv_def)
  ultimately show ?thesis using n(2,4) by (auto simp: fte_new_def)
qed

text \<open>\<^verbatim>\<open>close_all\<close> never panics; it returns the files of all open descriptors in
  ascending order of the descriptors and leaves no descriptor open.
\<close>

theorem ft_close_all_complete:
  assumes "ft_inv t"
  shows "\<exists>calls t'. ft_close_all alive t
      = Some (map (\<lambda>(n, e). fte_file e) (sv_idxes_and_items (ft_table t)), calls, t') \<and>
    sv_inv (ft_table t') \<and> (\<forall>n. ft_entry_at t' n = None)"
proof -
  let ?items = "sv_idxes_and_items (ft_table t)"
  have mem: "ft_entry_at t n = Some e" if "(n, e) \<in> set ?items" for n e
    using that by (simp add: sv_idxes_and_items_mem)
  have small: "\<forall>n \<in> set (map fst ?items). n < 2 ^ 31"
  proof
    fix n assume "n \<in> set (map fst ?items)"
    then obtain e where "ft_entry_at t n = Some e" using mem by auto
    then have "n < sv_slots_len (ft_table t)" using sv.get_bound by (metis not_le option.distinct(1))
    then show "n < 2 ^ 31" using assms by (simp add: ft_inv_def)
  qed
  have open_fds: "\<forall>n \<in> set (map fst ?items). ft_entry_at t n \<noteq> None" using mem by fastforce
  have inv: "sv_inv (ft_table t)" using assms by (simp add: ft_inv_def)
  from ft_close_fds_spec [OF inv sv_idxes_distinct small open_fds, of alive] obtain calls t' where *:
    "ft_close_fds alive t (map usize_as_fd (map fst ?items))
       = Some (map (\<lambda>n. fte_file (the (ft_entry_at t n))) (map fst ?items), calls, t')"
    "sv_inv (ft_table t')"
    "\<forall>n. ft_entry_at t' n = (if n \<in> set (map fst ?items) then None else ft_entry_at t n)"
    by blast
  have files: "map (\<lambda>n. fte_file (the (ft_entry_at t n))) (map fst ?items) = map (\<lambda>(n, e). fte_file e) ?items"
    using mem by auto
  have none: "ft_entry_at t' n = None" for n
    using *(3) by (cases "ft_entry_at t n")
      (auto simp: image_iff sv_idxes_and_items_mem [symmetric])
  have fds: "map (\<lambda>(idx, _). usize_as_fd idx) ?items = map usize_as_fd (map fst ?items)" by auto
  from *(1) show ?thesis
    unfolding ft_close_all_def Let_def fds files using *(2) none by blast
qed


text \<open>duplicating onto the descriptor number \<open>-1\<close>, which user space may pass to
  \<^verbatim>\<open>dup2\<close> and to \<^verbatim>\<open>fcntl(F_DUPFD_CLOEXEC)\<close>, panics: neither path rejects a negative
  number before the cast to \<^verbatim>\<open>usize\<close>, and growing the table to that index overflows.
\<close>

theorem dup_negative_fd_panics:
  assumes "ft_inv t" and "ft_entry_at t (fd_as_usize fd) = Some e" and "fd \<noteq> - 1"
  shows "ft_dup t fd (- 1) = Panic \<and> sys_dup2 alive t fd (- 1) = Panic"
proof -
  have n: "fd_as_usize (- 1) = USIZE_LIMIT - 1"
    by (simp add: fd_as_usize_neg)
  have len: "length (slots (ft_table t)) < 2 ^ 31" using assms(1) by (simp add: ft_inv_def sv_slots_len_def)
  have "ft_entry_at t (USIZE_LIMIT - 1) = None"
    by (rule sv.get_bound) (use len in \<open>simp add: sv_slots_len_def\<close>)
  then have "get_min_free_fd t (USIZE_LIMIT - 1) = USIZE_LIMIT - 1"
    by (simp add: get_min_free_fd_def)
  moreover have "sv_put_at (ft_table t) (USIZE_LIMIT - 1) x = None" for x
    using len by (simp add: sv_put_at_def)
  ultimately show ?thesis
    using assms(2,3) by (simp add: ft_dup_def sys_dup2_def ft_get_file_def ft_insert_at_def n)
qed

section \<open>Witnesses\<close>

definition demo_table :: "(nat, nat) file_table" where
  "demo_table = \<lparr>ft_table = \<lparr>slots = [Some (fte_new 10 False), None, Some (fte_new 12 False)],
                             num_occupied = 2\<rparr>, ft_subject = subject_new\<rparr>"

lemma demo_table_inv: "ft_inv demo_table"
  by (simp add: ft_inv_def demo_table_def sv_inv_def sv_slots_len_def)

lemma demo_table_entry: "ft_entry_at demo_table (fd_as_usize 0) = Some (fte_new 10 False)"
  by (simp add: demo_table_def sv_get_def fd_as_usize_def)

theorem ft_dup_lowest_witness:
  "\<exists>n t'. ft_dup demo_table 0 2 = Ok (int n, t') \<and> 2 \<le> n \<and> ft_file_at t' n = Some 10"
  using ft_dup_lowest [OF demo_table_inv demo_table_entry, of 2] by (auto simp: fte_new_def)

theorem ft_insert_lowest_witness:
  "\<exists>n t'. ft_insert demo_table 99 = Some (int n, t') \<and> ft_file_at t' n = Some 99"
proof -
  obtain n t' where *: "ft_insert demo_table 99 = Some (int n, t')"
    "\<forall>j. ft_file_at t' j = (if j = n then Some 99 else ft_file_at demo_table j)"
    using ft_insert_lowest [OF demo_table_inv, of 99] by blast
  from *(2) have "ft_file_at t' n = Some 99" by presburger
  with *(1) show ?thesis by blast
qed

theorem ft_close_all_complete_witness:
  "\<exists>calls t'. ft_close_all (\<lambda>_. True) demo_table = Some ([10, 12], calls, t')"
  using ft_close_all_complete [OF demo_table_inv, of "\<lambda>_. True"]
  by (auto simp: demo_table_def sv_idxes_and_items_def fte_new_def)


theorem dup_negative_fd_panics_witness:
  "ft_dup demo_table 0 (- 1) = Panic"
  using dup_negative_fd_panics [OF demo_table_inv demo_table_entry] by simp

end
