(* ===== verification/Page_Table.thy ===== *)
theory Page_Table
  imports Prelude
begin

text \<open>
  Page tables: the entry format of \<^verbatim>\<open>framework/aster-frame/src/arch/x86/mm/mod.rs\<close> and
  the walk, map, unmap and protect operations of
  \<^verbatim>\<open>framework/aster-frame/src/vm/page_table.rs\<close>.

  Entries are 64-bit words in a physical memory \<open>pm\<close>, addressed by the byte address of the
  entry; a table is a frame of 512 entries. \<open>pt_supply\<close> lists the frames that the frame
  allocator returns to the calls still to come (it is the only thing the walk needs of the
  allocator); an empty list is an allocation that fails, which \<^verbatim>\<open>unwrap\<close> turns into a
  panic. A frame is zeroed when it is taken, as \<^verbatim>\<open>VmAllocOptions::alloc_single\<close> does.
  \<open>pt_flushes\<close> logs the TLB flushes.

  The invariant \<open>pt_wf\<close> says that the tables reached through the owned root entries form a
  tree. Under it the radix tree refines a flat partial map from page numbers to (frame, flags),
  \<open>translate\<close>: the operations update that map at one page and nowhere else.
\<close>

unbundle bit_operations_syntax

section \<open>Entries and flags\<close>

abbreviation PAGE_SIZE :: nat where "PAGE_SIZE \<equiv> 4096"
abbreviation ENTRY_COUNT :: nat where "ENTRY_COUNT \<equiv> 512"

definition PRESENT :: "64 word" where "PRESENT = 1"
definition WRITABLE :: "64 word" where "WRITABLE = 2"
definition USER :: "64 word" where "USER = 4"
definition WRITE_THROUGH :: "64 word" where "WRITE_THROUGH = 8"
definition NO_CACHE :: "64 word" where "NO_CACHE = 16"
definition ACCESSED :: "64 word" where "ACCESSED = 32"
definition DIRTY :: "64 word" where "DIRTY = 64"
definition HUGE :: "64 word" where "HUGE = 128"
definition GLOBAL :: "64 word" where "GLOBAL = 256"
definition NO_EXECUTE :: "64 word" where "NO_EXECUTE = 0x8000000000000000"

lemmas flag_defs = PRESENT_def WRITABLE_def USER_def WRITE_THROUGH_def NO_CACHE_def ACCESSED_def
  DIRTY_def HUGE_def GLOBAL_def NO_EXECUTE_def

text \<open>The bits \<^verbatim>\<open>from_bits_truncate\<close> keeps.\<close>

definition FLAGS_ALL :: "64 word" where
  "FLAGS_ALL = PRESENT OR WRITABLE OR USER OR WRITE_THROUGH OR NO_CACHE OR ACCESSED OR DIRTY
     OR HUGE OR GLOBAL OR NO_EXECUTE"

definition flags_contains :: "64 word \<Rightarrow> 64 word \<Rightarrow> bool" where
  "flags_contains fl b \<longleftrightarrow> fl AND b = b"

definition flags_set :: "64 word \<Rightarrow> 64 word \<Rightarrow> bool \<Rightarrow> 64 word" where
  "flags_set fl b v = (if v then fl OR b else fl AND NOT b)"

definition flags_new :: "64 word" where "flags_new = 0"

definition set_present :: "64 word \<Rightarrow> bool \<Rightarrow> 64 word" where
  "set_present fl v = flags_set fl PRESENT v"
definition set_writable :: "64 word \<Rightarrow> bool \<Rightarrow> 64 word" where
  "set_writable fl v = flags_set fl WRITABLE v"
definition set_readable :: "64 word \<Rightarrow> bool \<Rightarrow> 64 word" where
  "set_readable fl v = fl"
definition set_accessible_by_user :: "64 word \<Rightarrow> bool \<Rightarrow> 64 word" where
  "set_accessible_by_user fl v = flags_set fl USER v"
definition set_executable :: "64 word \<Rightarrow> bool \<Rightarrow> 64 word" where
  "set_executable fl v = flags_set fl NO_EXECUTE (\<not> v)"
definition set_huge :: "64 word \<Rightarrow> bool \<Rightarrow> 64 word" where
  "set_huge fl v = flags_set fl HUGE v"
definition is_present :: "64 word \<Rightarrow> bool" where
  "is_present fl \<longleftrightarrow> flags_contains fl PRESENT"
definition is_writable :: "64 word \<Rightarrow> bool" where
  "is_writable fl \<longleftrightarrow> flags_contains fl WRITABLE"
definition is_executable :: "64 word \<Rightarrow> bool" where
  "is_executable fl \<longleftrightarrow> \<not> flags_contains fl NO_EXECUTE"
definition is_accessible_by_user :: "64 word \<Rightarrow> bool" where
  "is_accessible_by_user fl \<longleftrightarrow> flags_contains fl USER"
definition is_huge :: "64 word \<Rightarrow> bool" where
  "is_huge fl \<longleftrightarrow> flags_contains fl HUGE"

definition PHYS_ADDR_MASK :: "64 word" where "PHYS_ADDR_MASK = 0xFFFFFFFFFF000"

definition pte_new :: "nat \<Rightarrow> 64 word \<Rightarrow> 64 word" where
  "pte_new paddr fl = (of_nat paddr AND PHYS_ADDR_MASK) OR fl"

definition pte_paddr :: "64 word \<Rightarrow> nat" where
  "pte_paddr e = unat (e AND PHYS_ADDR_MASK)"

definition pte_flags :: "64 word \<Rightarrow> 64 word" where
  "pte_flags e = e AND FLAGS_ALL"

definition pte_is_used :: "64 word \<Rightarrow> bool" where
  "pte_is_used e \<longleftrightarrow> e \<noteq> 0"

definition page_index :: "nat \<Rightarrow> nat \<Rightarrow> nat" where
  "page_index va level = (va div 2 ^ (12 + 9 * (level - 1))) mod ENTRY_COUNT"

definition is_user_vaddr :: "nat \<Rightarrow> bool" where
  "is_user_vaddr va \<longleftrightarrow> va div 2 ^ 47 = 0"

definition is_kernel_vaddr :: "nat \<Rightarrow> bool" where
  "is_kernel_vaddr va \<longleftrightarrow> (va div 2 ^ 47) mod 2 = 1"

section \<open>The table and its operations\<close>

datatype pt_error = InvalidModification | InvalidVaddr

record page_table =
  pm :: "nat \<Rightarrow> 64 word"
  pt_root :: nat
  pt_tables :: "nat list"
  pt_width :: nat
  pt_supply :: "nat list"
  pt_flushes :: "nat list"

definition zero_frame :: "nat \<Rightarrow> (nat \<Rightarrow> 64 word) \<Rightarrow> nat \<Rightarrow> 64 word" where
  "zero_frame f m = (\<lambda>a. if f \<le> a \<and> a < f + PAGE_SIZE then 0 else m a)"

text \<open>Take a zeroed frame from the allocator.\<close>

definition alloc_table :: "page_table \<Rightarrow> (nat \<times> page_table) option" where
  "alloc_table t =
     (case pt_supply t of
        [] \<Rightarrow> None
      | f # fs \<Rightarrow> Some (f, t\<lparr>pm := zero_frame f (pm t), pt_supply := fs\<rparr>))"

definition next_table_flags :: "64 word" where
  "next_table_flags =
     set_writable (set_readable (set_accessible_by_user (set_present flags_new True) True) True) True"

text \<open>
  The loop of \<^verbatim>\<open>page_walk\<close> at the entry \<open>current\<close>, with \<open>count\<close> levels to go. The
  outer option is a panic of the allocation, the inner one the walk's own \<^verbatim>\<open>None\<close>.
\<close>

fun walk_loop :: "page_table \<Rightarrow> nat \<Rightarrow> bool \<Rightarrow> nat \<Rightarrow> nat \<Rightarrow> (nat option \<times> page_table) option" where
  "walk_loop t vaddr create 0 current = Some (Some current, t)"
| "walk_loop t vaddr create (Suc 0) current = Some (Some current, t)"
| "walk_loop t vaddr create (Suc (Suc n)) current =
     (let created =
        (if \<not> is_present (pte_flags (pm t current)) then
           if \<not> create then Some None
           else (case alloc_table t of
                   None \<Rightarrow> None
                 | Some (f, t1) \<Rightarrow>
                     Some (Some (t1\<lparr>pm := (pm t1)(current := pte_new f next_table_flags),
                                    pt_tables := pt_tables t1 @ [f]\<rparr>)))
         else Some (Some t)) in
      case created of
        None \<Rightarrow> None
      | Some None \<Rightarrow> Some (None, t)
      | Some (Some t') \<Rightarrow>
          if is_huge (pte_flags (pm t' current)) then Some (Some current, t')
          else walk_loop t' vaddr create (Suc n)
                 (pte_paddr (pm t' current) + 8 * page_index vaddr (Suc n)))"

definition page_walk :: "page_table \<Rightarrow> nat \<Rightarrow> bool \<Rightarrow> (nat option \<times> page_table) option" where
  "page_walk t vaddr create =
     walk_loop t vaddr create (pt_width t) (pt_root t + 8 * page_index vaddr (pt_width t))"

type_synonym 'a pt_outcome = "(pt_error, 'a) result \<times> page_table"

definition do_map :: "page_table \<Rightarrow> nat \<Rightarrow> nat \<Rightarrow> 64 word \<Rightarrow> unit pt_outcome" where
  "do_map t vaddr paddr fl =
     (case page_walk t vaddr True of
        None \<Rightarrow> (Panic, t)
      | Some (None, t') \<Rightarrow> (Panic, t')
      | Some (Some last_entry, t') \<Rightarrow>
          if pte_is_used (pm t' last_entry) \<and> is_present (pte_flags (pm t' last_entry))
          then (Err InvalidModification, t')
          else (Ok (), t'\<lparr>pm := (pm t')(last_entry := pte_new paddr fl),
                          pt_flushes := pt_flushes t' @ [vaddr]\<rparr>))"

definition do_unmap :: "page_table \<Rightarrow> nat \<Rightarrow> unit pt_outcome" where
  "do_unmap t vaddr =
     (case page_walk t vaddr False of
        None \<Rightarrow> (Panic, t)
      | Some (None, t') \<Rightarrow> (Panic, t')
      | Some (Some last_entry, t') \<Rightarrow>
          if \<not> pte_is_used (pm t' last_entry) \<and> \<not> is_present (pte_flags (pm t' last_entry))
          then (Err InvalidModification, t')
          else (Ok (), t'\<lparr>pm := (pm t')(last_entry := 0),
                          pt_flushes := pt_flushes t' @ [vaddr]\<rparr>))"

definition do_protect :: "page_table \<Rightarrow> nat \<Rightarrow> 64 word \<Rightarrow> 64 word pt_outcome" where
  "do_protect t vaddr new_flags =
     (case page_walk t vaddr False of
        None \<Rightarrow> (Panic, t)
      | Some (None, t') \<Rightarrow> (Panic, t')
      | Some (Some last_entry, t') \<Rightarrow>
          let e = pm t' last_entry; old_flags = pte_flags e in
          if \<not> pte_is_used e \<or> \<not> is_present old_flags
          then (Err InvalidModification, t')
          else (Ok old_flags, t'\<lparr>pm := (pm t')(last_entry := pte_new (pte_paddr e) new_flags),
                                 pt_flushes := pt_flushes t' @ [vaddr]\<rparr>))"

definition pt_flags_at :: "page_table \<Rightarrow> nat \<Rightarrow> 64 word option" where
  "pt_flags_at t vaddr =
     (case page_walk t vaddr False of
        Some (Some last_entry, t') \<Rightarrow> Some (pte_flags (pm t' last_entry))
      | _ \<Rightarrow> None)"

definition add_root_mapping :: "page_table \<Rightarrow> nat \<Rightarrow> 64 word \<Rightarrow> page_table option" where
  "add_root_mapping t index pte =
     (if (index + 1) * 8 \<le> PAGE_SIZE \<and> pt_root t \<noteq> 0
      then Some (t\<lparr>pm := (pm t)(pt_root t + 8 * index := pte)\<rparr>) else None)"

text \<open>The modes: which addresses a table may be asked to change.\<close>

definition pt_new :: "(nat \<Rightarrow> 64 word) \<Rightarrow> nat list \<Rightarrow> nat \<Rightarrow> page_table option" where
  "pt_new m supply width =
     (case supply of
        [] \<Rightarrow> None
      | f # fs \<Rightarrow> Some \<lparr>pm = zero_frame f m, pt_root = f, pt_tables = [f], pt_width = width,
                       pt_supply = fs, pt_flushes = []\<rparr>)"

definition user_map :: "page_table \<Rightarrow> nat \<Rightarrow> nat \<Rightarrow> 64 word \<Rightarrow> unit pt_outcome" where
  "user_map t vaddr frame fl =
     (if is_kernel_vaddr vaddr then (Err InvalidVaddr, t) else do_map t vaddr frame fl)"

definition user_unmap :: "page_table \<Rightarrow> nat \<Rightarrow> unit pt_outcome" where
  "user_unmap t vaddr = (if is_kernel_vaddr vaddr then (Err InvalidVaddr, t) else do_unmap t vaddr)"

definition user_protect :: "page_table \<Rightarrow> nat \<Rightarrow> 64 word \<Rightarrow> 64 word pt_outcome" where
  "user_protect t vaddr fl =
     (if is_kernel_vaddr vaddr then (Err InvalidVaddr, t) else do_protect t vaddr fl)"

definition kernel_map :: "page_table \<Rightarrow> nat \<Rightarrow> nat \<Rightarrow> 64 word \<Rightarrow> unit pt_outcome" where
  "kernel_map t vaddr paddr fl =
     (if is_user_vaddr vaddr then (Err InvalidVaddr, t) else do_map t vaddr paddr fl)"

definition kernel_unmap :: "page_table \<Rightarrow> nat \<Rightarrow> unit pt_outcome" where
  "kernel_unmap t vaddr = (if is_user_vaddr vaddr then (Err InvalidVaddr, t) else do_unmap t vaddr)"

definition kernel_protect :: "page_table \<Rightarrow> nat \<Rightarrow> 64 word \<Rightarrow> 64 word pt_outcome" where
  "kernel_protect t vaddr fl =
     (if is_user_vaddr vaddr then (Err InvalidVaddr, t) else do_protect t vaddr fl)"

definition device_map_with_paddr :: "page_table \<Rightarrow> nat \<Rightarrow> nat \<Rightarrow> 64 word \<Rightarrow> unit pt_outcome" where
  "device_map_with_paddr t vaddr paddr fl = do_map t vaddr paddr fl"

definition device_unmap :: "page_table \<Rightarrow> nat \<Rightarrow> unit pt_outcome" where
  "device_unmap t vaddr = do_unmap t vaddr"

definition pt_vaddr_to_paddr :: "page_table \<Rightarrow> nat \<Rightarrow> nat option" where
  "pt_vaddr_to_paddr t vaddr =
     (case page_walk t vaddr False of
        Some (Some last_entry, t') \<Rightarrow> Some (pte_paddr (pm t' last_entry) + vaddr mod PAGE_SIZE)
      | _ \<Rightarrow> None)"

section \<open>Entry encoding\<close>

definition frame_ok :: "nat \<Rightarrow> bool" where
  "frame_ok f \<longleftrightarrow> PAGE_SIZE dvd f \<and> f < 2 ^ 52"

definition flags_ok :: "64 word \<Rightarrow> bool" where
  "flags_ok fl \<longleftrightarrow> fl AND NOT FLAGS_ALL = 0"

lemma FLAGS_ALL_eq: "FLAGS_ALL = 0x80000000000001FF"
  by (simp add: FLAGS_ALL_def flag_defs)

lemma mask_disjoint: "PHYS_ADDR_MASK AND FLAGS_ALL = 0"
  by (simp add: FLAGS_ALL_eq PHYS_ADDR_MASK_def)

lemma PHYS_ADDR_MASK_eq: "PHYS_ADDR_MASK = push_bit 12 (mask 40)"
  by (simp add: PHYS_ADDR_MASK_def mask_eq_exp_minus_1 push_bit_eq_mult)

lemma frame_word_masked:
  assumes "frame_ok f"
  shows "(of_nat f :: 64 word) AND PHYS_ADDR_MASK = of_nat f"
proof (rule bit_eqI)
  fix n assume "possible_bit TYPE(64 word) n"
  then have "n < 64" by simp
  obtain k where k: "f = 2 ^ 12 * k" using assms by (auto simp: frame_ok_def)
  have lo: "bit f n \<Longrightarrow> 12 \<le> n"
    using bit_push_bit_iff_nat [of 12 k n] k by (simp add: push_bit_eq_mult mult.commute)
  have hi: "bit f n \<Longrightarrow> n < 52"
  proof -
    have "take_bit 52 f = f" using assms by (simp add: frame_ok_def take_bit_nat_eq_self)
    then show "bit f n \<Longrightarrow> n < 52" by (metis bit_take_bit_iff)
  qed
  show "bit ((of_nat f :: 64 word) AND PHYS_ADDR_MASK) n = bit (of_nat f :: 64 word) n"
    using lo hi \<open>n < 64\<close>
    by (auto simp: bit_and_iff bit_of_nat_iff PHYS_ADDR_MASK_eq bit_push_bit_iff bit_mask_iff
        bit_simps possible_bit_word)
qed

lemma flags_and_mask: "flags_ok fl \<Longrightarrow> fl AND PHYS_ADDR_MASK = 0"
proof -
  assume "flags_ok fl"
  then have a: "bit fl n \<Longrightarrow> bit FLAGS_ALL n" for n
    unfolding flags_ok_def by (metis bit_0_eq bit_and_iff bit_not_iff bot_apply bot_bool_def
        bit_imp_possible_bit)
  have b: "\<not> (bit PHYS_ADDR_MASK n \<and> bit FLAGS_ALL n)" for n
    using mask_disjoint by (metis bit_0_eq bit_and_iff bot_apply bot_bool_def)
  show ?thesis
    by (rule bit_eqI) (use a b in \<open>auto simp: bit_and_iff\<close>)
qed

lemma flags_and_all: "flags_ok fl \<Longrightarrow> fl AND FLAGS_ALL = fl"
  unfolding flags_ok_def
  by (metis bit.conj_disj_distrib bit.disj_cancel_right and.right_neutral or.right_neutral)

lemma masked_and_all: "(x AND PHYS_ADDR_MASK) AND FLAGS_ALL = 0"
  by (simp add: and.assoc mask_disjoint)

lemma pte_paddr_new [simp]: "frame_ok f \<Longrightarrow> flags_ok fl \<Longrightarrow> pte_paddr (pte_new f fl) = f"
proof -
  assume f: "frame_ok f" and fl: "flags_ok fl"
  have "pte_new f fl AND PHYS_ADDR_MASK = of_nat f"
    by (simp add: pte_new_def bit.conj_disj_distrib2 and.assoc frame_word_masked [OF f]
        flags_and_mask [OF fl])
  moreover have "unat (of_nat f :: 64 word) = f"
    using f by (simp add: frame_ok_def unsigned_of_nat take_bit_nat_eq_self)
  ultimately show ?thesis by (simp add: pte_paddr_def)
qed

lemma pte_flags_new [simp]: "flags_ok fl \<Longrightarrow> pte_flags (pte_new f fl) = fl"
  by (simp add: pte_flags_def pte_new_def bit.conj_disj_distrib2 masked_and_all flags_and_all)

lemma pte_zero [simp]: "\<not> is_present 0" "pte_flags 0 = 0"
  by (simp_all add: is_present_def flags_contains_def pte_flags_def PRESENT_def)

lemma present_used: "is_present (pte_flags e) \<Longrightarrow> pte_is_used e"
  by (auto simp: pte_is_used_def)

lemma next_table_flags_eq: "next_table_flags = 7"
  by (simp add: next_table_flags_def set_present_def set_writable_def set_readable_def
      set_accessible_by_user_def flags_set_def flags_new_def flag_defs)

lemma next_table_flags_ok [simp]:
  "flags_ok next_table_flags" "is_present next_table_flags" "\<not> is_huge next_table_flags"
  by (simp_all add: next_table_flags_eq flags_ok_def FLAGS_ALL_eq is_present_def is_huge_def
      flags_contains_def flag_defs)

section \<open>Slots and page numbers\<close>

definition slot :: "nat \<Rightarrow> nat \<Rightarrow> nat" where
  "slot f i = f + 8 * i"

lemma slot_inj:
  assumes "frame_ok f" "frame_ok g" "i < ENTRY_COUNT" "j < ENTRY_COUNT" "slot f i = slot g j"
  shows "f = g \<and> i = j"
proof -
  obtain k l where kl: "f = PAGE_SIZE * k" "g = PAGE_SIZE * l"
    using assms(1,2) unfolding frame_ok_def dvd_def by blast
  have "(PAGE_SIZE * k + 8 * i) div PAGE_SIZE = k" "(PAGE_SIZE * l + 8 * j) div PAGE_SIZE = l"
    using assms(3,4) by simp_all
  then have "k = l" using assms(5) kl by (simp add: slot_def)
  then show ?thesis using assms(5) kl by (simp add: slot_def)
qed

lemma slot_zero_frame:
  assumes "frame_ok f" "frame_ok g" "i < ENTRY_COUNT"
  shows "zero_frame g m (slot f i) = (if f = g then 0 else m (slot f i))"
proof -
  obtain k l where kl: "f = PAGE_SIZE * k" "g = PAGE_SIZE * l"
    using assms(1,2) unfolding frame_ok_def dvd_def by blast
  have "k < l \<Longrightarrow> slot f i < g" "l < k \<Longrightarrow> g + PAGE_SIZE \<le> slot f i"
    using assms(3) by (auto simp: kl slot_def)
  then show ?thesis
    using assms(3) by (cases k l rule: linorder_cases) (auto simp: zero_frame_def kl slot_def)
qed

lemma page_index_less [simp]: "page_index va l < ENTRY_COUNT"
  by (simp add: page_index_def)

lemma page_index_digit: "page_index va (Suc l) = (va div PAGE_SIZE) div 512 ^ l mod 512"
proof -
  have "(2::nat) ^ (12 + 9 * l) = PAGE_SIZE * 512 ^ l"
    by (simp add: power_add power_mult)
  then show ?thesis by (simp add: page_index_def div_mult2_eq)
qed

lemma digits_eq:
  fixes x y :: nat
  assumes "x < 512 ^ w" "y < 512 ^ w" "\<forall>l<w. x div 512 ^ l mod 512 = y div 512 ^ l mod 512"
  shows "x = y"
  using assms
proof (induction w arbitrary: x y)
  case (Suc w)
  have "x div 512 < 512 ^ w" "y div 512 < 512 ^ w"
    using Suc.prems(1,2) by (simp_all add: div_less_iff_less_mult mult.commute)
  moreover have "\<forall>l<w. x div 512 div 512 ^ l mod 512 = y div 512 div 512 ^ l mod 512"
    using Suc.prems(3) by (metis Suc_less_eq div_mult2_eq power_Suc)
  ultimately have "x div 512 = y div 512" by (rule Suc.IH)
  moreover have "x mod 512 = y mod 512" using Suc.prems(3) by (metis div_by_1 power_0 zero_less_Suc)
  ultimately show ?case by (metis mult_div_mod_eq)
qed simp

lemma same_page_indices:
  assumes "va < PAGE_SIZE * 512 ^ w" "va' < PAGE_SIZE * 512 ^ w"
    and "\<forall>l. 1 \<le> l \<and> l \<le> w \<longrightarrow> page_index va l = page_index va' l"
  shows "va div PAGE_SIZE = va' div PAGE_SIZE"
proof (rule digits_eq [of _ w])
  show "va div PAGE_SIZE < 512 ^ w" "va' div PAGE_SIZE < 512 ^ w"
    using assms(1,2) by (simp_all add: div_less_iff_less_mult mult.commute)
  show "\<forall>l<w. va div PAGE_SIZE div 512 ^ l mod 512 = va' div PAGE_SIZE div 512 ^ l mod 512"
    using assms(3) by (metis Suc_leI le_add1 page_index_digit plus_1_eq_Suc)
qed

section \<open>The tree invariant\<close>

text \<open>
  \<open>lv\<close> gives every table its level: the root has level \<open>pt_width\<close>, the tables of leaf
  entries level 1. \<open>lim\<close> bounds the root entries that belong to this table; the entries from
  \<open>lim\<close> on point to tables shared with the kernel (\<^verbatim>\<open>add_root_mapping\<close>).
\<close>

definition owned :: "nat \<Rightarrow> page_table \<Rightarrow> nat \<Rightarrow> nat \<Rightarrow> bool" where
  "owned lim t f i \<longleftrightarrow> f \<in> set (pt_tables t) \<and> i < ENTRY_COUNT \<and> (f = pt_root t \<longrightarrow> i < lim)"

definition inner :: "nat \<Rightarrow> (nat \<Rightarrow> nat) \<Rightarrow> page_table \<Rightarrow> nat \<Rightarrow> nat \<Rightarrow> bool" where
  "inner lim lv t f i \<longleftrightarrow> owned lim t f i \<and> 1 < lv f \<and> is_present (pte_flags (pm t (slot f i)))"

definition child :: "page_table \<Rightarrow> nat \<Rightarrow> nat \<Rightarrow> nat" where
  "child t f i = pte_paddr (pm t (slot f i))"

definition pt_tree :: "nat \<Rightarrow> (nat \<Rightarrow> nat) \<Rightarrow> page_table \<Rightarrow> bool" where
  "pt_tree lim lv t \<longleftrightarrow>
     1 \<le> pt_width t \<and> distinct (pt_tables t) \<and> (\<forall>f \<in> set (pt_tables t). frame_ok f) \<and>
     pt_root t \<in> set (pt_tables t) \<and> lv (pt_root t) = pt_width t \<and>
     (\<forall>f \<in> set (pt_tables t). 1 \<le> lv f \<and> (f \<noteq> pt_root t \<longrightarrow> lv f < pt_width t)) \<and>
     (\<forall>f i. inner lim lv t f i \<longrightarrow>
        \<not> is_huge (pte_flags (pm t (slot f i))) \<and> child t f i \<in> set (pt_tables t) \<and>
        lv f = Suc (lv (child t f i))) \<and>
     (\<forall>f i g j. inner lim lv t f i \<longrightarrow> inner lim lv t g j \<longrightarrow> child t f i = child t g j \<longrightarrow>
        f = g \<and> i = j)"

definition supply_ok :: "page_table \<Rightarrow> bool" where
  "supply_ok t \<longleftrightarrow> distinct (pt_supply t) \<and> (\<forall>f \<in> set (pt_supply t). frame_ok f) \<and>
     set (pt_supply t) \<inter> set (pt_tables t) = {}"

definition pt_wf :: "nat \<Rightarrow> page_table \<Rightarrow> bool" where
  "pt_wf lim t \<longleftrightarrow> (\<exists>lv. pt_tree lim lv t) \<and> supply_ok t"

lemma pt_treeD:
  assumes "pt_tree lim lv t"
  shows "1 \<le> pt_width t" "distinct (pt_tables t)"
    "\<And>f. f \<in> set (pt_tables t) \<Longrightarrow> frame_ok f"
    "pt_root t \<in> set (pt_tables t)" "lv (pt_root t) = pt_width t"
    "\<And>f. f \<in> set (pt_tables t) \<Longrightarrow> 1 \<le> lv f"
    "\<And>f. f \<in> set (pt_tables t) \<Longrightarrow> f \<noteq> pt_root t \<Longrightarrow> lv f < pt_width t"
    "\<And>f i. inner lim lv t f i \<Longrightarrow> \<not> is_huge (pte_flags (pm t (slot f i)))"
    "\<And>f i. inner lim lv t f i \<Longrightarrow> child t f i \<in> set (pt_tables t)"
    "\<And>f i. inner lim lv t f i \<Longrightarrow> lv f = Suc (lv (child t f i))"
    "\<And>f i g j. inner lim lv t f i \<Longrightarrow> inner lim lv t g j \<Longrightarrow> child t f i = child t g j \<Longrightarrow> f = g \<and> i = j"
  using assms unfolding pt_tree_def by blast+

lemma pt_treeI:
  assumes "1 \<le> pt_width t" "distinct (pt_tables t)"
    "\<And>f. f \<in> set (pt_tables t) \<Longrightarrow> frame_ok f"
    "pt_root t \<in> set (pt_tables t)" "lv (pt_root t) = pt_width t"
    "\<And>f. f \<in> set (pt_tables t) \<Longrightarrow> 1 \<le> lv f"
    "\<And>f. f \<in> set (pt_tables t) \<Longrightarrow> f \<noteq> pt_root t \<Longrightarrow> lv f < pt_width t"
    "\<And>f i. inner lim lv t f i \<Longrightarrow> \<not> is_huge (pte_flags (pm t (slot f i)))"
    "\<And>f i. inner lim lv t f i \<Longrightarrow> child t f i \<in> set (pt_tables t)"
    "\<And>f i. inner lim lv t f i \<Longrightarrow> lv f = Suc (lv (child t f i))"
    "\<And>f i g j. inner lim lv t f i \<Longrightarrow> inner lim lv t g j \<Longrightarrow> child t f i = child t g j \<Longrightarrow> f = g \<and> i = j"
  shows "pt_tree lim lv t"
  unfolding pt_tree_def using assms by blast

lemma inner_child_not_root:
  "pt_tree lim lv t \<Longrightarrow> inner lim lv t f i \<Longrightarrow> child t f i \<noteq> pt_root t"
proof
  assume t: "pt_tree lim lv t" and i: "inner lim lv t f i" and c: "child t f i = pt_root t"
  have "lv f = Suc (pt_width t)" using pt_treeD(10) [OF t i] pt_treeD(5) [OF t] c by simp
  moreover have "lv f \<le> pt_width t"
    using pt_treeD(5,7) [OF t] i by (cases "f = pt_root t") (auto simp: inner_def owned_def less_imp_le)
  ultimately show False by simp
qed

text \<open>A child table's entries are owned, whatever the index.\<close>

lemma owned_child:
  "pt_tree lim lv t \<Longrightarrow> inner lim lv t f i \<Longrightarrow> owned lim t (child t f i) (page_index va l)"
  using inner_child_not_root [of lim lv t f i] pt_treeD(9) [of lim lv t f i] by (simp add: owned_def)

section \<open>The walk as a pure function\<close>

text \<open>The leaf entry reached without creating tables, and the translation it holds.\<close>

fun leaf_slot :: "(nat \<Rightarrow> 64 word) \<Rightarrow> nat \<Rightarrow> nat \<Rightarrow> nat \<Rightarrow> nat option" where
  "leaf_slot m va 0 current = Some current"
| "leaf_slot m va (Suc 0) current = Some current"
| "leaf_slot m va (Suc (Suc n)) current =
     (if \<not> is_present (pte_flags (m current)) then None
      else if is_huge (pte_flags (m current)) then Some current
      else leaf_slot m va (Suc n) (slot (pte_paddr (m current)) (page_index va (Suc n))))"

definition leaf_entry :: "(nat \<Rightarrow> 64 word) \<Rightarrow> nat option \<Rightarrow> (nat \<times> 64 word) option" where
  "leaf_entry m s = Option.bind s (\<lambda>s.
     if is_present (pte_flags (m s)) then Some (pte_paddr (m s), pte_flags (m s)) else None)"

definition pt_leaf :: "page_table \<Rightarrow> nat \<Rightarrow> nat option" where
  "pt_leaf t va = leaf_slot (pm t) va (pt_width t) (slot (pt_root t) (page_index va (pt_width t)))"

definition translate :: "page_table \<Rightarrow> nat \<Rightarrow> (nat \<times> 64 word) option" where
  "translate t va = leaf_entry (pm t) (pt_leaf t va)"

lemma walk_loop_no_create: "walk_loop t va False n current = Some (leaf_slot (pm t) va n current, t)"
  by (induction t va False n current rule: walk_loop.induct) (auto simp: Let_def slot_def)

lemma page_walk_no_create: "page_walk t va False = Some (pt_leaf t va, t)"
  by (simp add: page_walk_def walk_loop_no_create pt_leaf_def slot_def)

lemma leaf_slot_level:
  assumes "pt_tree lim lv t" "owned lim t f (page_index va (lv f))"
    and "leaf_slot (pm t) va (lv f) (slot f (page_index va (lv f))) = Some s"
  shows "\<exists>g. g \<in> set (pt_tables t) \<and> lv g = 1 \<and> s = slot g (page_index va 1) \<and>
    owned lim t g (page_index va 1)"
  using assms(2,3)
proof (induction "lv f" arbitrary: f)
  case 0
  then show ?case using pt_treeD(6) [OF assms(1)] by (force simp: owned_def)
next
  case (Suc n)
  show ?case
  proof (cases n)
    case 0
    then have "lv f = 1" using Suc.hyps(2) by simp
    then show ?thesis using Suc.prems by (auto simp: owned_def)
  next
    case (Suc m)
    let ?i = "page_index va (lv f)"
    have lv: "lv f = Suc (Suc m)" using Suc Suc.hyps(2) by simp
    then have pr: "is_present (pte_flags (pm t (slot f ?i)))"
      using Suc.prems(2) by (auto split: if_splits)
    then have inn: "inner lim lv t f ?i" using Suc.prems(1) lv by (simp add: inner_def)
    note D = pt_treeD(8,10) [OF assms(1) inn]
    have "leaf_slot (pm t) va (lv (child t f ?i)) (slot (child t f ?i) (page_index va (lv (child t f ?i))))
        = Some s"
      using Suc.prems(2) pr D lv by (simp add: child_def)
    moreover have "n = lv (child t f ?i)" using D lv Suc by simp
    ultimately show ?thesis
      using Suc.hyps(1) owned_child [OF assms(1) inn] by blast
  qed
qed

text \<open>Two addresses that differ in an index, or start in different tables, reach different entries.\<close>

lemma leaf_slot_separate:
  assumes t: "pt_tree lim lv t" and eq: "lv f = lv g"
    and "owned lim t f (page_index va (lv f))" "owned lim t g (page_index va' (lv g))"
    and "leaf_slot (pm t) va (lv f) (slot f (page_index va (lv f))) = Some s"
    and "leaf_slot (pm t) va' (lv g) (slot g (page_index va' (lv g))) = Some s'"
    and "f \<noteq> g \<or> (\<exists>l. 1 \<le> l \<and> l \<le> lv f \<and> page_index va l \<noteq> page_index va' l)"
  shows "s \<noteq> s'"
  using eq assms(3-)
proof (induction "lv f" arbitrary: f g)
  case 0
  then show ?case using pt_treeD(6) [OF t] by (force simp: owned_def)
next
  case (Suc n)
  have ok: "frame_ok f" "frame_ok g"
    using pt_treeD(3) [OF t] Suc.prems(2,3) by (auto simp: owned_def)
  show ?case
  proof (cases n)
    case 0
    then have lv: "lv f = 1" "lv g = 1" using Suc.hyps(2) Suc.prems(1) by simp_all
    then have s: "s = slot f (page_index va 1)" "s' = slot g (page_index va' 1)"
      using Suc.prems(4,5) by auto
    have "f \<noteq> g \<or> page_index va 1 \<noteq> page_index va' 1" using Suc.prems(6) lv by (metis le_antisym)
    then show ?thesis using s slot_inj [OF ok, of "page_index va 1" "page_index va' 1"] by auto
  next
    case (Suc m)
    let ?i = "page_index va (lv f)" and ?j = "page_index va' (lv g)"
    have lv: "lv f = Suc (Suc m)" "lv g = Suc (Suc m)" using Suc Suc.hyps(2) Suc.prems(1) by simp_all
    have pr: "is_present (pte_flags (pm t (slot f ?i)))" "is_present (pte_flags (pm t (slot g ?j)))"
      using Suc.prems(4,5) lv by (auto split: if_splits)
    have inn: "inner lim lv t f ?i" "inner lim lv t g ?j"
      using Suc.prems(2,3) lv pr by (simp_all add: inner_def)
    note D = pt_treeD(8,10) [OF t inn(1)] pt_treeD(8,10) [OF t inn(2)]
    let ?f = "child t f ?i" and ?g = "child t g ?j"
    have leaf: "leaf_slot (pm t) va (lv ?f) (slot ?f (page_index va (lv ?f))) = Some s"
      "leaf_slot (pm t) va' (lv ?g) (slot ?g (page_index va' (lv ?g))) = Some s'"
      using Suc.prems(4,5) pr D lv by (simp_all add: child_def)
    have "?f \<noteq> ?g \<or> (\<exists>l. 1 \<le> l \<and> l \<le> lv ?f \<and> page_index va l \<noteq> page_index va' l)"
    proof (cases "?f = ?g")
      case True
      then have "f = g" "?i = ?j" using pt_treeD(11) [OF t inn] by blast+
      then have "\<exists>l. 1 \<le> l \<and> l \<le> lv f \<and> l \<noteq> lv f \<and> page_index va l \<noteq> page_index va' l"
        using Suc.prems(6) by metis
      then show ?thesis using D(2) by (metis le_SucE)
    qed simp
    then show ?thesis
      using Suc.hyps(1) [of ?f ?g] leaf owned_child [OF t inn(1)] owned_child [OF t inn(2)] D lv Suc
      by simp
  qed
qed

section \<open>Creating a table\<close>

definition create_table :: "page_table \<Rightarrow> nat \<Rightarrow> nat \<Rightarrow> page_table" where
  "create_table t f0 current =
     t\<lparr>pt_supply := tl (pt_supply t),
       pm := (zero_frame f0 (pm t))(current := pte_new f0 next_table_flags), pt_tables := pt_tables t @ [f0]\<rparr>"

lemma create_table_sel [simp]:
  "pt_root (create_table t f0 c) = pt_root t" "pt_width (create_table t f0 c) = pt_width t"
  "pt_tables (create_table t f0 c) = pt_tables t @ [f0]"
  "pt_supply (create_table t f0 c) = tl (pt_supply t)"
  "pt_flushes (create_table t f0 c) = pt_flushes t"
  by (simp_all add: create_table_def)

lemma walk_loop_create_step:
  "walk_loop t va True (Suc (Suc n)) current =
     (if is_present (pte_flags (pm t current)) then
        if is_huge (pte_flags (pm t current)) then Some (Some current, t)
        else walk_loop t va True (Suc n) (slot (pte_paddr (pm t current)) (page_index va (Suc n)))
      else case pt_supply t of
        [] \<Rightarrow> None
      | f0 # fs \<Rightarrow>
          let t' = create_table t f0 current in
          if is_huge (pte_flags (pm t' current)) then Some (Some current, t')
          else walk_loop t' va True (Suc n) (slot (pte_paddr (pm t' current)) (page_index va (Suc n))))"
  by (simp add: alloc_table_def create_table_def slot_def Let_def split: list.split)

text \<open>What a new table under the absent entry \<open>slot f i\<close> changes.\<close>

lemma create_table_pm:
  assumes "pt_tree lim lv t" "supply_ok t" "pt_supply t = f0 # fs"
    and "g \<in> set (pt_tables t)" "j < ENTRY_COUNT" "f \<in> set (pt_tables t)" "i < ENTRY_COUNT"
  shows "pm (create_table t f0 (slot f i)) (slot g j) =
    (if g = f \<and> j = i then pte_new f0 next_table_flags else pm t (slot g j))"
proof -
  have ok: "frame_ok f" "frame_ok g" "frame_ok f0" "g \<noteq> f0"
    using assms pt_treeD(3) [OF assms(1)] by (auto simp: supply_ok_def)
  show ?thesis
    using slot_inj [OF ok(2,1) assms(5,7)] slot_zero_frame [OF ok(2,3) assms(5)] ok(4)
    by (auto simp: create_table_def)
qed

lemma create_table_pm_new:
  assumes "pt_tree lim lv t" "supply_ok t" "pt_supply t = f0 # fs"
    and "j < ENTRY_COUNT" "f \<in> set (pt_tables t)" "i < ENTRY_COUNT"
  shows "pm (create_table t f0 (slot f i)) (slot f0 j) = 0"
proof -
  have ok: "frame_ok f" "frame_ok f0" "f \<noteq> f0"
    using assms pt_treeD(3) [OF assms(1)] by (auto simp: supply_ok_def)
  show ?thesis
    using slot_inj [OF ok(2,1) assms(4,6)] slot_zero_frame [OF ok(2,2) assms(4)] ok(3)
    by (auto simp: create_table_def)
qed

lemma create_table_inner:
  assumes t: "pt_tree lim lv t" "supply_ok t" "pt_supply t = f0 # fs"
    and f: "owned lim t f i" "lv f = Suc (Suc n)"
  shows "inner lim (lv(f0 := Suc n)) (create_table t f0 (slot f i)) g j \<longleftrightarrow>
    g = f \<and> j = i \<or> inner lim lv t g j \<and> (g \<noteq> f \<or> j \<noteq> i)"
proof -
  have f': "f \<in> set (pt_tables t)" "i < ENTRY_COUNT" "f0 \<notin> set (pt_tables t)" "frame_ok f0"
    using f(1) t(2,3) by (auto simp: owned_def supply_ok_def)
  then have "f \<noteq> f0" "pt_root t \<noteq> f0" using pt_treeD(4) [OF t(1)] by auto
  show ?thesis
  proof (cases "g = f0")
    case True
    then show ?thesis
      using create_table_pm_new [OF t _ f'(1,2), of j] f' \<open>f \<noteq> f0\<close>
      by (auto simp: inner_def owned_def)
  next
    case False
    show ?thesis
    proof (cases "g \<in> set (pt_tables t) \<and> j < ENTRY_COUNT")
      case True
      then show ?thesis
        using create_table_pm [OF t, of g j f i] f f' False by (auto simp: inner_def owned_def)
    next
      case False
      then show ?thesis using \<open>g \<noteq> f0\<close> f' by (auto simp: inner_def owned_def)
    qed
  qed
qed

lemma create_table_child:
  assumes t: "pt_tree lim lv t" "supply_ok t" "pt_supply t = f0 # fs" and f: "owned lim t f i"
    and g: "g \<in> set (pt_tables t)" "j < ENTRY_COUNT"
  shows "child (create_table t f0 (slot f i)) g j = (if g = f \<and> j = i then f0 else child t g j)"
proof -
  have "frame_ok f0" using t(2,3) by (auto simp: supply_ok_def)
  then show ?thesis
    using create_table_pm [OF t g, of f i] f by (auto simp: child_def owned_def)
qed

lemma create_table_tree:
  assumes t: "pt_tree lim lv t" "supply_ok t" "pt_supply t = f0 # fs"
    and f: "owned lim t f i" "lv f = Suc (Suc n)"
  shows "pt_tree lim (lv(f0 := Suc n)) (create_table t f0 (slot f i))" (is "pt_tree lim ?lv ?t")
    and "supply_ok (create_table t f0 (slot f i))"
proof -
  note D = pt_treeD [OF t(1)]
  have f': "f \<in> set (pt_tables t)" "i < ENTRY_COUNT" "f0 \<notin> set (pt_tables t)" "frame_ok f0"
    using f(1) t(2,3) by (auto simp: owned_def supply_ok_def)
  then have ne: "f \<noteq> f0" "pt_root t \<noteq> f0" using D(4) by auto
  have w: "Suc n < pt_width t" using D(5,7) f f'(1) by (cases "f = pt_root t") fastforce+
  note inn = create_table_inner [OF t f]
  have old: "g \<in> set (pt_tables t) \<and> j < ENTRY_COUNT" if "inner lim ?lv ?t g j" for g j
    using that f' unfolding inn by (auto simp: inner_def owned_def)
  have ch: "child ?t g j = (if g = f \<and> j = i then f0 else child t g j)" if "inner lim ?lv ?t g j" for g j
    using create_table_child [OF t f(1)] old [OF that] by blast
  have chold: "child t g j \<in> set (pt_tables t)" if "inner lim lv t g j" for g j
    using D(9) that .
  have new_or_old: "g = f \<and> j = i \<or> inner lim lv t g j \<and> \<not> (g = f \<and> j = i)"
    if "inner lim ?lv ?t g j" for g j
    using that inn by blast
  show "pt_tree lim ?lv ?t"
  proof (rule pt_treeI)
    fix g j assume gj: "inner lim ?lv ?t g j"
    note pm = create_table_pm [OF t, of g j f i]
    show "\<not> is_huge (pte_flags (pm ?t (slot g j)))"
      using new_or_old [OF gj] D(8) [of g j] pm old [OF gj] f' by auto
    show "child ?t g j \<in> set (pt_tables ?t)"
      using new_or_old [OF gj] ch [OF gj] chold [of g j] by auto
    have "g \<noteq> f0" using old [OF gj] f'(3) by auto
    then show "?lv g = Suc (?lv (child ?t g j))"
      using new_or_old [OF gj] ch [OF gj] D(10) [of g j] chold [of g j] f'(3) f(2) by auto
    fix h k assume hk: "inner lim ?lv ?t h k" and eq: "child ?t g j = child ?t h k"
    show "g = h \<and> j = k"
      using new_or_old [OF gj] new_or_old [OF hk] ch [OF gj] ch [OF hk] eq D(11) [of g j h k]
        chold [of g j] chold [of h k] f'(3) by metis
  qed (use D(1-7) f' ne w in \<open>auto simp: less_imp_le\<close>)
  show "supply_ok ?t"
    using t(2,3) by (auto simp: supply_ok_def)
qed

text \<open>A new, empty table translates nothing.\<close>

lemma create_table_leaf_entry:
  assumes t: "pt_tree lim lv t" "supply_ok t" "pt_supply t = f0 # fs"
    and f: "owned lim t f i" "lv f = Suc (Suc n)" "\<not> is_present (pte_flags (pm t (slot f i)))"
    and g: "owned lim t g (page_index va (lv g))"
  defines "t' \<equiv> create_table t f0 (slot f i)"
  shows "leaf_entry (pm t') (leaf_slot (pm t') va (lv g) (slot g (page_index va (lv g)))) =
    leaf_entry (pm t) (leaf_slot (pm t) va (lv g) (slot g (page_index va (lv g))))"
  using g
proof (induction "lv g" arbitrary: g)
  case 0
  then show ?case using pt_treeD(6) [OF t(1)] by (force simp: owned_def)
next
  case (Suc m)
  let ?j = "page_index va (lv g)"
  have f': "f \<in> set (pt_tables t)" "i < ENTRY_COUNT" "frame_ok f0"
    using f(1) t(2,3) by (auto simp: owned_def supply_ok_def)
  have gt: "g \<in> set (pt_tables t)" using Suc.prems by (simp add: owned_def)
  have pm: "pm t' (slot g ?j) = (if g = f \<and> ?j = i then pte_new f0 next_table_flags else pm t (slot g ?j))"
    unfolding t'_def by (rule create_table_pm [OF t gt _ f'(1,2)]) simp
  show ?case
  proof (cases m)
    case 0
    then have "lv g = 1" "g \<noteq> f" using Suc.hyps(2) f(2) by auto
    then show ?thesis using pm by (simp add: leaf_entry_def)
  next
    case (Suc k)
    then have lv: "lv g = Suc (Suc k)" using Suc.hyps(2) by simp
    show ?thesis
    proof (cases "g = f \<and> ?j = i")
      case True
      have z: "pm t' (slot f0 l) = 0" if "l < ENTRY_COUNT" for l
        unfolding t'_def by (rule create_table_pm_new [OF t that f'(1,2)])
      have "leaf_entry (pm t') (leaf_slot (pm t') va (Suc k) (slot f0 (page_index va (Suc k)))) = None"
        using z [of "page_index va (Suc k)"] by (cases k) (simp_all add: leaf_entry_def)
      then show ?thesis using True lv pm f(3) f'(3) by (simp add: leaf_entry_def)
    next
      case False
      show ?thesis
      proof (cases "is_present (pte_flags (pm t (slot g ?j)))")
        case pr: True
        then have inn: "inner lim lv t g ?j" using Suc.prems lv by (simp add: inner_def)
        note D = pt_treeD(8,10) [OF t(1) inn]
        have "m = lv (child t g ?j)" using D Suc.hyps(2) by simp
        from Suc.hyps(1) [OF this owned_child [OF t(1) inn]]
        show ?thesis
          using D False pm pr lv unfolding child_def by auto
      next
        case False
        then show ?thesis using pm lv \<open>\<not> (g = f \<and> ?j = i)\<close> by (auto simp: leaf_entry_def)
      qed
    qed
  qed
qed

section \<open>The creating walk\<close>

text \<open>Memory outside the table frames and the allocator's frames.\<close>

definition in_frames :: "nat list \<Rightarrow> nat \<Rightarrow> bool" where
  "in_frames fs a \<longleftrightarrow> (\<exists>f \<in> set fs. f \<le> a \<and> a < f + PAGE_SIZE)"

text \<open>
  \<open>extends lim lv t lv' t'\<close>: \<open>t'\<close> comes from \<open>t\<close> by adding empty tables. No address
  translates differently, and nothing outside the owned part of the table has changed.
\<close>

definition extends ::
    "nat \<Rightarrow> (nat \<Rightarrow> nat) \<Rightarrow> page_table \<Rightarrow> (nat \<Rightarrow> nat) \<Rightarrow> page_table \<Rightarrow> bool" where
  "extends lim lv t lv' t' \<longleftrightarrow>
     pt_tree lim lv' t' \<and> supply_ok t' \<and> pt_root t' = pt_root t \<and> pt_width t' = pt_width t \<and>
     pt_flushes t' = pt_flushes t \<and> set (pt_tables t) \<subseteq> set (pt_tables t') \<and>
     set (pt_tables t') \<union> set (pt_supply t') = set (pt_tables t) \<union> set (pt_supply t) \<and>
     (\<forall>f \<in> set (pt_tables t). lv' f = lv f) \<and>
     (\<forall>g va. owned lim t g (page_index va (lv g)) \<longrightarrow>
        leaf_entry (pm t') (leaf_slot (pm t') va (lv g) (slot g (page_index va (lv g)))) =
        leaf_entry (pm t) (leaf_slot (pm t) va (lv g) (slot g (page_index va (lv g))))) \<and>
     (\<forall>g j. inner lim lv t g j \<longrightarrow> pm t' (slot g j) = pm t (slot g j)) \<and>
     (\<forall>a. \<not> in_frames (pt_tables t @ pt_supply t) a \<longrightarrow> pm t' a = pm t a) \<and>
     (\<forall>i. lim \<le> i \<and> i < ENTRY_COUNT \<longrightarrow> pm t' (slot (pt_root t) i) = pm t (slot (pt_root t) i))"

lemma extends_refl: "pt_tree lim lv t \<Longrightarrow> supply_ok t \<Longrightarrow> extends lim lv t lv t"
  by (simp add: extends_def)

lemma extends_trans:
  assumes "extends lim lv t lv' t'" "extends lim lv' t' lv'' t''"
  shows "extends lim lv t lv'' t''"
proof -
  have sub: "set (pt_tables t) \<subseteq> set (pt_tables t')" "pt_root t' = pt_root t"
    "\<forall>f \<in> set (pt_tables t). lv' f = lv f"
    using assms(1) by (auto simp: extends_def)
  have own: "owned lim t' g i \<and> lv' g = lv g" if "owned lim t g i" for g i
    using that sub by (auto simp: owned_def)
  have fr: "in_frames (pt_tables t' @ pt_supply t') a = in_frames (pt_tables t @ pt_supply t) a" for a
    using assms(1) by (simp add: extends_def in_frames_def)
  have tr: "leaf_entry (pm t'') (leaf_slot (pm t'') va (lv g) (slot g (page_index va (lv g)))) =
      leaf_entry (pm t) (leaf_slot (pm t) va (lv g) (slot g (page_index va (lv g))))"
    if "owned lim t g (page_index va (lv g))" for g va
    using assms own [OF that] that unfolding extends_def by metis
  have inn: "pm t'' (slot g j) = pm t (slot g j)" if "inner lim lv t g j" for g j
  proof -
    have same: "pm t' (slot g j) = pm t (slot g j)" using assms(1) that by (simp add: extends_def)
    then have "inner lim lv' t' g j" using own [of g j] that by (simp add: inner_def)
    with same show ?thesis using assms(2) by (simp add: extends_def)
  qed
  show ?thesis
    using assms sub tr inn unfolding extends_def fr by auto
qed

lemma slot_in_frames: "f \<in> set fs \<Longrightarrow> i < ENTRY_COUNT \<Longrightarrow> in_frames fs (slot f i)"
  by (auto simp: in_frames_def slot_def intro!: bexI [of _ f])

lemma create_table_extends:
  assumes t: "pt_tree lim lv t" "supply_ok t" "pt_supply t = f0 # fs"
    and f: "owned lim t f i" "lv f = Suc (Suc n)" "\<not> is_present (pte_flags (pm t (slot f i)))"
  shows "extends lim lv t (lv(f0 := Suc n)) (create_table t f0 (slot f i))"
proof -
  note tree = create_table_tree [OF t f(1,2)]
  have f': "f \<in> set (pt_tables t)" "i < ENTRY_COUNT" "f0 \<notin> set (pt_tables t)"
    using f(1) t(2,3) by (auto simp: owned_def supply_ok_def)
  have root: "pm (create_table t f0 (slot f i)) (slot (pt_root t) j) = pm t (slot (pt_root t) j)"
    if "lim \<le> j" "j < ENTRY_COUNT" for j
    using create_table_pm [OF t pt_treeD(4) [OF t(1)] that(2) f'(1,2)] that(1) f(1)
    by (auto simp: owned_def)
  have out: "pm (create_table t f0 (slot f i)) a = pm t a"
    if "\<not> in_frames (pt_tables t @ pt_supply t) a" for a
    using that slot_in_frames [of f "pt_tables t @ pt_supply t" i] f' t(3)
    by (auto simp: create_table_def zero_frame_def in_frames_def)
  have inn: "pm (create_table t f0 (slot f i)) (slot g j) = pm t (slot g j)"
    if "inner lim lv t g j" for g j
    using create_table_pm [OF t, of g j f i] that f(3) f' by (auto simp: inner_def owned_def)
  show ?thesis
    unfolding extends_def
    using tree create_table_leaf_entry [OF t f] root out inn f' t(3) by auto
qed

lemma walk_create:
  assumes "pt_tree lim lv t" "supply_ok t" "owned lim t f (page_index va (lv f))"
    and "lv f - 1 \<le> length (pt_supply t)"
  shows "\<exists>s t' lv'. walk_loop t va True (lv f) (slot f (page_index va (lv f))) = Some (Some s, t') \<and>
    extends lim lv t lv' t' \<and> leaf_slot (pm t') va (lv f) (slot f (page_index va (lv f))) = Some s"
  using assms
proof (induction "lv f" arbitrary: f t lv)
  case 0
  then show ?case using pt_treeD(6) [OF \<open>pt_tree lim lv t\<close>] by (force simp: owned_def)
next
  case (Suc m)
  let ?i = "page_index va (lv f)"
  show ?case
  proof (cases m)
    case 0
    then have lv: "lv f = Suc 0" using Suc.hyps(2) by simp
    show ?thesis
      unfolding lv using extends_refl [OF Suc.prems(1,2)] by auto
  next
    case (Suc k)
    then have lv: "lv f = Suc (Suc k)" using Suc.hyps(2) by simp
    note step = walk_loop_create_step [of t va k "slot f ?i", folded lv]
    obtain t1 lv1 where t1: "extends lim lv t lv1 t1" "inner lim lv1 t1 f ?i" "lv1 f = lv f"
      "walk_loop t va True (lv f) (slot f ?i) =
         walk_loop t1 va True (Suc k) (slot (child t1 f ?i) (page_index va (Suc k)))"
      "k \<le> length (pt_supply t1)"
    proof (cases "is_present (pte_flags (pm t (slot f ?i)))")
      case True
      then have inn: "inner lim lv t f ?i" using Suc.prems(3) lv by (simp add: inner_def)
      have "walk_loop t va True (lv f) (slot f ?i) =
          walk_loop t va True (Suc k) (slot (child t f ?i) (page_index va (Suc k)))"
        using step True pt_treeD(8) [OF Suc.prems(1) inn] by (simp add: child_def)
      with that [OF extends_refl [OF Suc.prems(1,2)] inn] Suc.prems(4) lv show ?thesis by simp
    next
      case False
      obtain f0 fs where fs: "pt_supply t = f0 # fs" using Suc.prems(4) lv by (cases "pt_supply t") auto
      let ?t1 = "create_table t f0 (slot f ?i)" and ?lv1 = "lv(f0 := Suc k)"
      note ext = create_table_extends [OF Suc.prems(1,2) fs Suc.prems(3) lv False]
      have inn: "inner lim ?lv1 ?t1 f ?i"
        using create_table_inner [OF Suc.prems(1,2) fs Suc.prems(3) lv] by blast
      have tree: "pt_tree lim ?lv1 ?t1" using ext by (simp add: extends_def)
      have "f0 \<noteq> f" using Suc.prems(2,3) fs by (auto simp: supply_ok_def owned_def)
      moreover have "walk_loop t va True (lv f) (slot f ?i) =
          walk_loop ?t1 va True (Suc k) (slot (child ?t1 f ?i) (page_index va (Suc k)))"
        using step False fs pt_treeD(8) [OF tree inn] by (simp add: Let_def child_def)
      ultimately show ?thesis using that [OF ext inn] fs Suc.prems(4) lv by simp
    qed
    have tree1: "pt_tree lim lv1 t1" "supply_ok t1" using t1(1) by (auto simp: extends_def)
    have c: "Suc k = lv1 (child t1 f ?i)" using pt_treeD(10) [OF tree1(1) t1(2)] t1(3) lv by simp
    then have m: "m = lv1 (child t1 f ?i)" using Suc by simp
    have "lv1 (child t1 f ?i) - 1 \<le> length (pt_supply t1)" using c t1(5) by simp
    from Suc.hyps(1) [OF m tree1 owned_child [OF tree1(1) t1(2)] this] obtain s t2 lv2 where
      IH: "walk_loop t1 va True (Suc k) (slot (child t1 f ?i) (page_index va (Suc k))) = Some (Some s, t2)"
      "extends lim lv1 t1 lv2 t2"
      "leaf_slot (pm t2) va (Suc k) (slot (child t1 f ?i) (page_index va (Suc k))) = Some s"
      unfolding c [symmetric] by blast
    have "pm t2 (slot f ?i) = pm t1 (slot f ?i)" using IH(2) t1(2) by (simp add: extends_def)
    then have "leaf_slot (pm t2) va (lv f) (slot f ?i) = Some s"
      using IH(3) t1(2) pt_treeD(8) [OF tree1(1) t1(2)] lv by (simp add: inner_def child_def)
    then show ?thesis
      using IH(1) t1(4) extends_trans [OF t1(1) IH(2)] by auto
  qed
qed

end
