(* ===== verification/Page_Table_Correct.thy ===== *)
theory Page_Table_Correct
  imports Page_Table
begin

text \<open>
  The correctness of the four-level page table of \<^verbatim>\<open>vm/page_table.rs\<close>: a table is a
  partial map from pages to a frame and its flags (\<open>translate\<close>), and mapping, unmapping and
  protecting update that map at one page, leave the kernel half of the root alone and touch no
  memory but the tables' own frames and those of the allocator.
\<close>

section \<open>Writing a leaf entry\<close>

definition set_leaf :: "page_table \<Rightarrow> nat \<Rightarrow> 64 word \<Rightarrow> page_table" where
  "set_leaf t s e = t\<lparr>pm := (pm t)(s := e)\<rparr>"

lemma set_leaf_sel [simp]:
  "pt_root (set_leaf t s e) = pt_root t" "pt_width (set_leaf t s e) = pt_width t"
  "pt_tables (set_leaf t s e) = pt_tables t" "pt_supply (set_leaf t s e) = pt_supply t"
  "pt_flushes (set_leaf t s e) = pt_flushes t" "pm (set_leaf t s e) = (pm t)(s := e)"
  by (simp_all add: set_leaf_def)

lemma set_leaf_entry:
  assumes "pt_tree lim lv t" "g \<in> set (pt_tables t)" "lv g = 1" "j < ENTRY_COUNT"
    and "f \<in> set (pt_tables t)" "1 < lv f" "i < ENTRY_COUNT"
  shows "pm (set_leaf t (slot g j) e) (slot f i) = pm t (slot f i)"
  using slot_inj [of f g i j] pt_treeD(3) [OF assms(1)] assms(2-) by auto

lemma set_leaf_inner:
  assumes "pt_tree lim lv t" "g \<in> set (pt_tables t)" "lv g = 1" "j < ENTRY_COUNT"
  shows "inner lim lv (set_leaf t (slot g j) e) f i = inner lim lv t f i"
    and "inner lim lv t f i \<Longrightarrow> child (set_leaf t (slot g j) e) f i = child t f i"
  using set_leaf_entry [OF assms] by (auto simp: inner_def owned_def child_def simp del: set_leaf_sel(6))

lemma set_leaf_tree:
  assumes "pt_tree lim lv t" "g \<in> set (pt_tables t)" "lv g = 1" "j < ENTRY_COUNT"
  shows "pt_tree lim lv (set_leaf t (slot g j) e)"
proof (rule pt_treeI)
  note D = pt_treeD [OF assms(1)] and I = set_leaf_inner [OF assms]
  fix f i assume fi: "inner lim lv (set_leaf t (slot g j) e) f i"
  then have fi': "inner lim lv t f i" using I by simp
  then have "pm (set_leaf t (slot g j) e) (slot f i) = pm t (slot f i)"
    using set_leaf_entry [OF assms] by (simp add: inner_def owned_def del: set_leaf_sel(6))
  then show "\<not> is_huge (pte_flags (pm (set_leaf t (slot g j) e) (slot f i)))"
    using D(8) [OF fi'] by metis
  show "child (set_leaf t (slot g j) e) f i \<in> set (pt_tables (set_leaf t (slot g j) e))"
    "lv f = Suc (lv (child (set_leaf t (slot g j) e) f i))"
    using D(9,10) [OF fi'] I(2) [OF fi'] by simp_all
  fix h k assume "inner lim lv (set_leaf t (slot g j) e) h k"
    "child (set_leaf t (slot g j) e) f i = child (set_leaf t (slot g j) e) h k"
  then show "f = h \<and> i = k" using D(11) [OF fi', of h k] I fi' by metis
qed (use pt_treeD(1-7) [OF assms(1)] in auto)

lemma set_leaf_leaf_slot:
  assumes "pt_tree lim lv t" "g \<in> set (pt_tables t)" "lv g = 1" "j < ENTRY_COUNT"
    and "owned lim t f (page_index va (lv f))"
  shows "leaf_slot (pm (set_leaf t (slot g j) e)) va (lv f) (slot f (page_index va (lv f))) =
    leaf_slot (pm t) va (lv f) (slot f (page_index va (lv f)))"
  using assms(5)
proof (induction "lv f" arbitrary: f)
  case 0
  then show ?case by (metis leaf_slot.simps(1))
next
  case (Suc m)
  show ?case
  proof (cases m)
    case 0
    then have "lv f = Suc 0" using Suc.hyps(2) by simp
    then show ?thesis by simp
  next
    case (Suc k)
    then have lv: "lv f = Suc (Suc k)" using Suc.hyps(2) by simp
    let ?i = "page_index va (lv f)"
    have same: "pm (set_leaf t (slot g j) e) (slot f ?i) = pm t (slot f ?i)"
      using set_leaf_entry [OF assms(1-4)] Suc.prems lv by (simp add: owned_def del: set_leaf_sel(6))
    show ?thesis
    proof (cases "is_present (pte_flags (pm t (slot f ?i)))")
      case True
      then have inn: "inner lim lv t f ?i" using Suc.prems lv by (simp add: inner_def)
      note D = pt_treeD(8,10) [OF assms(1) inn]
      have "m = lv (child t f ?i)" using D Suc.hyps(2) by simp
      from Suc.hyps(1) [OF this owned_child [OF assms(1) inn]] show ?thesis
        using D same True lv unfolding child_def by (simp del: set_leaf_sel(6))
    next
      case False
      then show ?thesis using same lv by (simp del: set_leaf_sel(6))
    qed
  qed
qed

lemma leaf_slot_cong:
  assumes "\<And>l. 1 \<le> l \<Longrightarrow> page_index va' l = page_index va l"
  shows "leaf_slot m va' n c = leaf_slot m va n c"
proof (induction n arbitrary: c)
  case (Suc n)
  then show ?case using assms by (cases n) simp_all
qed simp

section \<open>The flat map\<close>

text \<open>Addresses under the owned root entries, within the width of the table.\<close>

definition covered :: "nat \<Rightarrow> page_table \<Rightarrow> nat \<Rightarrow> bool" where
  "covered lim t va \<longleftrightarrow> va < PAGE_SIZE * 512 ^ pt_width t \<and> page_index va (pt_width t) < lim"

lemma covered_owned:
  "pt_tree lim lv t \<Longrightarrow> covered lim t va \<Longrightarrow> owned lim t (pt_root t) (page_index va (lv (pt_root t)))"
  using pt_treeD(4,5) [of lim lv t] by (simp add: covered_def owned_def)

lemma pt_leaf_alt:
  "pt_tree lim lv t \<Longrightarrow> pt_leaf t va =
     leaf_slot (pm t) va (lv (pt_root t)) (slot (pt_root t) (page_index va (lv (pt_root t))))"
  by (simp add: pt_leaf_def pt_treeD(5))

text \<open>Writing the leaf entry of \<open>va\<close> changes the translation of that page and of no other.\<close>

lemma set_leaf_translate:
  assumes t: "pt_tree lim lv t" and va: "covered lim t va" "pt_leaf t va = Some s"
    and va': "covered lim t va'"
  shows "translate (set_leaf t s e) va' =
    (if va' div PAGE_SIZE = va div PAGE_SIZE
     then (if is_present (pte_flags e) then Some (pte_paddr e, pte_flags e) else None)
     else translate t va')"
    and "pt_tree lim lv (set_leaf t s e)"
proof -
  let ?r = "pt_root t"
  note own = covered_owned [OF t va(1)] and own' = covered_owned [OF t va']
  have leaf: "leaf_slot (pm t) va (lv ?r) (slot ?r (page_index va (lv ?r))) = Some s"
    using va(2) pt_leaf_alt [OF t] by simp
  obtain g where g: "g \<in> set (pt_tables t)" "lv g = 1" "s = slot g (page_index va 1)"
    using leaf_slot_level [OF t own leaf] by blast
  note same = set_leaf_leaf_slot [OF t g(1,2) page_index_less, of _ _ va 1 e, folded g(3)]
  show tree: "pt_tree lim lv (set_leaf t s e)"
    unfolding g(3) by (rule set_leaf_tree [OF t g(1,2)]) simp
  have leaf': "pt_leaf (set_leaf t s e) va' = pt_leaf t va'"
    unfolding pt_leaf_alt [OF t] pt_leaf_alt [OF tree] set_leaf_sel(1) using same [OF own'] .
  show "translate (set_leaf t s e) va' =
    (if va' div PAGE_SIZE = va div PAGE_SIZE
     then (if is_present (pte_flags e) then Some (pte_paddr e, pte_flags e) else None)
     else translate t va')"
  proof (cases "va' div PAGE_SIZE = va div PAGE_SIZE")
    case True
    have idx: "page_index va' l = page_index va l" if "1 \<le> l" for l
      using page_index_digit [of va "l - 1"] page_index_digit [of va' "l - 1"] True that by simp
    have "leaf_slot m va' n c = leaf_slot m va n c" for m n c
      using idx by (rule leaf_slot_cong)
    then have "pt_leaf t va' = Some s"
      using va(2) idx [OF pt_treeD(1) [OF t]] by (simp add: pt_leaf_def)
    then show ?thesis using True leaf' by (simp add: translate_def leaf_entry_def)
  next
    case False
    then obtain l where "1 \<le> l" "l \<le> pt_width t" "page_index va l \<noteq> page_index va' l"
      using same_page_indices [of va "pt_width t" va'] va(1) va' by (metis covered_def)
    then have sep: "s' \<noteq> s" if "pt_leaf t va' = Some s'" for s'
      using leaf_slot_separate [OF t refl own own' leaf] that pt_leaf_alt [OF t] pt_treeD(5) [OF t]
      by metis
    show ?thesis
      using False leaf' sep by (cases "pt_leaf t va'") (auto simp: translate_def leaf_entry_def)
  qed
qed


text \<open>What a page table operation may touch: the frames of its own tables and of the allocator,
  and of the root only the owned entries.\<close>

definition confined :: "nat \<Rightarrow> page_table \<Rightarrow> page_table \<Rightarrow> bool" where
  "confined lim t t' \<longleftrightarrow>
     pt_wf lim t' \<and> pt_root t' = pt_root t \<and> pt_width t' = pt_width t \<and>
     set (pt_tables t') \<union> set (pt_supply t') = set (pt_tables t) \<union> set (pt_supply t) \<and>
     (\<forall>a. \<not> in_frames (pt_tables t @ pt_supply t) a \<longrightarrow> pm t' a = pm t a) \<and>
     (\<forall>i. lim \<le> i \<and> i < ENTRY_COUNT \<longrightarrow> pm t' (slot (pt_root t) i) = pm t (slot (pt_root t) i))"

lemma extends_confined: "extends lim lv t lv' t' \<Longrightarrow> confined lim t t'"
  unfolding extends_def confined_def pt_wf_def by blast

lemma extends_translate:
  assumes "pt_tree lim lv t" "extends lim lv t lv' t'" "covered lim t va"
  shows "translate t' va = translate t va"
proof -
  have "pt_tree lim lv' t'" "pt_root t' = pt_root t" "pt_width t' = pt_width t"
    using assms(2) by (auto simp: extends_def)
  then show ?thesis
    using assms(2) covered_owned [OF assms(1,3)] pt_treeD(5) [OF assms(1)]
    unfolding extends_def translate_def pt_leaf_def by metis
qed

lemma leaf_slot_owned:
  assumes "pt_tree lim lv t" "covered lim t va" "pt_leaf t va = Some s"
  obtains g where "g \<in> set (pt_tables t)" "s = slot g (page_index va 1)"
    "owned lim t g (page_index va 1)"
  using leaf_slot_level [OF assms(1) covered_owned [OF assms(1,2)]] assms(3) pt_leaf_alt [OF assms(1)]
  by metis

lemma pt_tree_flushes [simp]: "pt_tree lim lv (t\<lparr>pt_flushes := fs\<rparr>) = pt_tree lim lv t"
  by (simp add: pt_tree_def inner_def owned_def child_def)

lemma set_leaf_confined:
  assumes t: "pt_tree lim lv t" "supply_ok t" and va: "covered lim t va" "pt_leaf t va = Some s"
  shows "confined lim t (set_leaf t s e\<lparr>pt_flushes := fs\<rparr>)"
proof -
  obtain g where g: "g \<in> set (pt_tables t)" "s = slot g (page_index va 1)"
    "owned lim t g (page_index va 1)" using leaf_slot_owned [OF t(1) va] by blast
  have "in_frames (pt_tables t @ pt_supply t) s" using g slot_in_frames by simp
  moreover have "slot (pt_root t) i \<noteq> s" if "lim \<le> i" "i < ENTRY_COUNT" for i
    using slot_inj [of "pt_root t" g i "page_index va 1"] that g pt_treeD(3,4) [OF t(1)]
    by (auto simp: owned_def)
  moreover have "pt_wf lim (set_leaf t s e\<lparr>pt_flushes := fs\<rparr>)"
    using set_leaf_translate(2) [OF t(1) va va(1), of e] t(2)
    by (auto simp: pt_wf_def supply_ok_def)
  ultimately show ?thesis by (auto simp: confined_def)
qed

lemma translate_flushes [simp]: "translate (t\<lparr>pt_flushes := fs\<rparr>) va = translate t va"
  by (simp add: translate_def pt_leaf_def)

lemma confined_trans:
  assumes "confined lim t t'" "confined lim t' t''"
  shows "confined lim t t''"
proof -
  have "in_frames (pt_tables t' @ pt_supply t') a = in_frames (pt_tables t @ pt_supply t) a" for a
    using assms(1) by (simp add: confined_def in_frames_def)
  then show ?thesis using assms(1,2) by (simp add: confined_def)
qed

lemma alloc_table_supply: "alloc_table t = Some (f, t1) \<Longrightarrow> length (pt_supply t) = Suc (length (pt_supply t1))"
  by (auto simp: alloc_table_def split: list.splits)

lemma walk_loop_supply:
  "walk_loop t va create n c = Some (s, t') \<Longrightarrow> length (pt_supply t) \<le> length (pt_supply t') + (n - 1)"
proof (induction n arbitrary: t c)
  case (Suc n)
  show ?case
  proof (cases n)
    case (Suc k)
    have walk: "walk_loop t va create (Suc (Suc k)) c = Some (s, t')" using Suc.prems Suc by simp
    have IH: "walk_loop t2 va create (Suc k) c2 = Some (s, t') \<Longrightarrow>
        length (pt_supply t2) \<le> length (pt_supply t') + k" for t2 c2
      using Suc.IH [of t2 c2] Suc by simp
    show ?thesis
      using walk Suc IH
      by (fastforce simp: Let_def dest: alloc_table_supply split: if_splits option.splits prod.splits)
  qed (use Suc.prems in auto)
qed simp

lemma do_map_spec:
  assumes t: "pt_wf lim t" and va: "covered lim t va"
    and room: "pt_width t - 1 \<le> length (pt_supply t)"
  shows "\<exists>t'. confined lim t t' \<and> length (pt_supply t) \<le> length (pt_supply t') + (pt_width t - 1) \<and>
    (case translate t va of
       Some _ \<Rightarrow> do_map t va pa fl = (Err InvalidModification, t') \<and>
         (\<forall>va'. covered lim t va' \<longrightarrow> translate t' va' = translate t va')
     | None \<Rightarrow> do_map t va pa fl = (Ok (), t') \<and> pt_flushes t' = pt_flushes t @ [va] \<and>
         (\<forall>va'. covered lim t va' \<longrightarrow> translate t' va' =
            (if va' div PAGE_SIZE = va div PAGE_SIZE
             then (if is_present (pte_flags (pte_new pa fl))
                   then Some (pte_paddr (pte_new pa fl), pte_flags (pte_new pa fl)) else None)
             else translate t va')))"
proof -
  obtain lv where tr: "pt_tree lim lv t" and sup: "supply_ok t" using t by (auto simp: pt_wf_def)
  note w = pt_treeD(5) [OF tr]
  obtain s t1 lv1 where walk: "walk_loop t va True (pt_width t) (slot (pt_root t) (page_index va (pt_width t)))
      = Some (Some s, t1)"
    and ext: "extends lim lv t lv1 t1"
    and lf: "leaf_slot (pm t1) va (pt_width t) (slot (pt_root t) (page_index va (pt_width t))) = Some s"
    using walk_create [OF tr sup covered_owned [OF tr va]] room unfolding w by blast
  have t1: "pt_tree lim lv1 t1" "supply_ok t1" "pt_root t1 = pt_root t" "pt_width t1 = pt_width t"
    "pt_flushes t1 = pt_flushes t"
    using ext by (simp_all add: extends_def)
  have sup1: "length (pt_supply t) \<le> length (pt_supply t1) + (pt_width t - 1)"
    using walk_loop_supply [OF walk] .
  have leaf: "pt_leaf t1 va = Some s" using lf t1 by (simp add: pt_leaf_def)
  have cov: "covered lim t1 = covered lim t" using t1 by (simp add: covered_def fun_eq_iff)
  note trans = extends_translate [OF tr ext]
  have present: "is_present (pte_flags (pm t1 s)) \<longleftrightarrow> translate t va \<noteq> None"
    unfolding trans [OF va, symmetric] using leaf by (simp add: translate_def leaf_entry_def)
  have pw: "page_walk t va True = Some (Some s, t1)" using walk by (simp add: page_walk_def slot_def)
  show ?thesis
  proof (cases "translate t va")
    case (Some x)
    then have "do_map t va pa fl = (Err InvalidModification, t1)"
      using present present_used by (simp add: do_map_def pw)
    then show ?thesis using Some trans sup1 extends_confined [OF ext] by (intro exI [of _ t1]) simp
  next
    case None
    let ?t = "set_leaf t1 s (pte_new pa fl)\<lparr>pt_flushes := pt_flushes t @ [va]\<rparr>"
    have "do_map t va pa fl = (Ok (), ?t)"
      using present None t1(5) by (simp add: do_map_def pw set_leaf_def)
    moreover have "confined lim t ?t"
      using confined_trans [OF extends_confined [OF ext] set_leaf_confined [OF t1(1,2)]]
        va leaf cov by simp
    ultimately show ?thesis
      using None set_leaf_translate(1) [OF t1(1) _ leaf] va trans cov sup1 by (intro exI [of _ ?t]) simp
  qed
qed

lemma do_unmap_spec:
  assumes t: "pt_wf lim t" and va: "covered lim t va" and mapped: "translate t va \<noteq> None"
  shows "\<exists>t'. do_unmap t va = (Ok (), t') \<and> confined lim t t' \<and>
    pt_flushes t' = pt_flushes t @ [va] \<and>
    (\<forall>va'. covered lim t va' \<longrightarrow> translate t' va' =
       (if va' div PAGE_SIZE = va div PAGE_SIZE then None else translate t va'))"
proof -
  obtain lv where tr: "pt_tree lim lv t" and sup: "supply_ok t" using t by (auto simp: pt_wf_def)
  obtain s where leaf: "pt_leaf t va = Some s" "is_present (pte_flags (pm t s))"
    using mapped by (auto simp: translate_def leaf_entry_def bind_eq_Some_conv split: if_splits)
  let ?t = "set_leaf t s 0\<lparr>pt_flushes := pt_flushes t @ [va]\<rparr>"
  have "do_unmap t va = (Ok (), ?t)"
    using leaf by (simp add: do_unmap_def page_walk_no_create set_leaf_def)
  moreover have "confined lim t ?t" by (rule set_leaf_confined [OF tr sup va leaf(1)])
  ultimately show ?thesis
    using set_leaf_translate(1) [OF tr va leaf(1)] by (intro exI [of _ ?t]) simp
qed

lemma do_protect_spec:
  assumes t: "pt_wf lim t" and va: "covered lim t va" and mapped: "translate t va = Some (f, old)"
  shows "\<exists>t'. do_protect t va fl = (Ok old, t') \<and> confined lim t t' \<and>
    pt_flushes t' = pt_flushes t @ [va] \<and>
    (\<forall>va'. covered lim t va' \<longrightarrow> translate t' va' =
       (if va' div PAGE_SIZE = va div PAGE_SIZE
        then (if is_present (pte_flags (pte_new f fl))
              then Some (pte_paddr (pte_new f fl), pte_flags (pte_new f fl)) else None)
        else translate t va'))"
proof -
  obtain lv where tr: "pt_tree lim lv t" and sup: "supply_ok t" using t by (auto simp: pt_wf_def)
  obtain s where leaf: "pt_leaf t va = Some s" "is_present (pte_flags (pm t s))"
    "f = pte_paddr (pm t s)" "old = pte_flags (pm t s)"
    using mapped by (auto simp: translate_def leaf_entry_def bind_eq_Some_conv split: if_splits)
  let ?t = "set_leaf t s (pte_new f fl)\<lparr>pt_flushes := pt_flushes t @ [va]\<rparr>"
  have "do_protect t va fl = (Ok old, ?t)"
    using leaf present_used by (simp add: do_protect_def page_walk_no_create set_leaf_def Let_def)
  moreover have "confined lim t ?t" by (rule set_leaf_confined [OF tr sup va leaf(1)])
  ultimately show ?thesis
    using set_leaf_translate(1) [OF tr va leaf(1)] by (intro exI [of _ ?t]) simp
qed

section \<open>User page tables\<close>

text \<open>A user table has four levels and owns the lower half of its root (below
  \<open>2 ^ 47\<close>); the entries from 256 on are the kernel's.\<close>

abbreviation USER_ENTRIES :: nat where
  "USER_ENTRIES \<equiv> 256"

definition user_table :: "page_table \<Rightarrow> bool" where
  "user_table t \<longleftrightarrow> pt_wf USER_ENTRIES t \<and> pt_width t = 4"

lemma user_covered: "user_table t \<Longrightarrow> va < 2 ^ 47 \<Longrightarrow> covered USER_ENTRIES t va"
  by (simp add: user_table_def covered_def page_index_def div_less_iff_less_mult)

lemma user_not_kernel: "va < 2 ^ 47 \<Longrightarrow> \<not> is_kernel_vaddr va"
  by (simp add: is_kernel_vaddr_def)

lemma confined_user_table: "user_table t \<Longrightarrow> confined USER_ENTRIES t t' \<Longrightarrow> user_table t'"
  by (simp add: user_table_def confined_def)

lemma pt_new_user_table:
  assumes "distinct (f # fs)" "\<forall>g \<in> set (f # fs). frame_ok g" "pt_new m (f # fs) 4 = Some t"
  shows "user_table t" "\<And>va. va < 2 ^ 47 \<Longrightarrow> translate t va = None"
proof -
  have t: "t = \<lparr>pm = zero_frame f m, pt_root = f, pt_tables = [f], pt_width = 4,
    pt_supply = fs, pt_flushes = []\<rparr>" using assms(3) by (simp add: pt_new_def)
  have z: "zero_frame f m (slot f i) = 0" if "i < ENTRY_COUNT" for i
    using slot_zero_frame [of f f i m] assms(2) that by simp
  have "pt_tree USER_ENTRIES (\<lambda>_. 4) t"
    by (rule pt_treeI) (use assms(2) z in \<open>auto simp: t inner_def owned_def\<close>)
  then show "user_table t"
    using assms(1,2) by (auto simp: user_table_def pt_wf_def supply_ok_def t)
  have "leaf_slot (zero_frame f m) va (Suc (Suc 2)) (slot f (page_index va 4)) = None" for va
    unfolding leaf_slot.simps using z by simp
  then show "translate t va = None" for va by (simp add: translate_def pt_leaf_def leaf_entry_def t)
qed

text \<open>C1: Mapping a user page in a well-formed user page table, with at least three frames left
  for intermediate tables. If the page is unmapped, \<^verbatim>\<open>PageTable::<UserMode>::map\<close>
  succeeds, flushes the address, and afterwards exactly that page translates to the given frame
  and flags: every other user page keeps its translation. If the page is mapped, it returns
  \<^verbatim>\<open>InvalidModification\<close> and no translation changes. In both cases the table stays
  well formed, the kernel's root entries and all memory outside the table's own frames and the
  allocator's are unchanged.\<close>

theorem user_map_correct:
  assumes "user_table t" "va < 2 ^ 47" "frame_ok frame" "flags_ok fl" "is_present fl"
    and "3 \<le> length (pt_supply t)"
  shows "\<exists>t'. user_table t' \<and> confined USER_ENTRIES t t' \<and>
    (case translate t va of
       Some _ \<Rightarrow> user_map t va frame fl = (Err InvalidModification, t') \<and>
         (\<forall>va' < 2 ^ 47. translate t' va' = translate t va')
     | None \<Rightarrow> user_map t va frame fl = (Ok (), t') \<and> pt_flushes t' = pt_flushes t @ [va] \<and>
         (\<forall>va' < 2 ^ 47. translate t' va' =
            (if va' div PAGE_SIZE = va div PAGE_SIZE then Some (frame, fl) else translate t va')))"
proof -
  have wf: "pt_wf USER_ENTRIES t" and w: "pt_width t - 1 \<le> length (pt_supply t)"
    using assms(1,6) by (simp_all add: user_table_def)
  obtain t' where c: "confined USER_ENTRIES t t'"
    and m: "case translate t va of
       Some _ \<Rightarrow> do_map t va frame fl = (Err InvalidModification, t') \<and>
         (\<forall>va'. covered USER_ENTRIES t va' \<longrightarrow> translate t' va' = translate t va')
     | None \<Rightarrow> do_map t va frame fl = (Ok (), t') \<and> pt_flushes t' = pt_flushes t @ [va] \<and>
         (\<forall>va'. covered USER_ENTRIES t va' \<longrightarrow> translate t' va' =
            (if va' div PAGE_SIZE = va div PAGE_SIZE then Some (frame, fl) else translate t va'))"
    using do_map_spec [OF wf user_covered [OF assms(1,2)] w, of frame fl]
    by (simp only: pte_flags_new [OF assms(4)] pte_paddr_new [OF assms(3,4)] assms(5) if_True) blast
  show ?thesis
    using c m confined_user_table [OF assms(1) c] user_covered [OF assms(1)] user_not_kernel [OF assms(2)]
    by (intro exI [of _ t'] conjI) (simp_all add: user_map_def split: option.splits)
qed

text \<open>C3: Unmapping a mapped user page succeeds, flushes the address, and removes the translation
  of that page and of no other; the table stays well formed and nothing outside its frames, nor
  the kernel half of the root, changes.\<close>

theorem user_unmap_correct:
  assumes "user_table t" "va < 2 ^ 47" "translate t va \<noteq> None"
  shows "\<exists>t'. user_unmap t va = (Ok (), t') \<and> user_table t' \<and> confined USER_ENTRIES t t' \<and>
    pt_flushes t' = pt_flushes t @ [va] \<and>
    (\<forall>va' < 2 ^ 47. translate t' va' =
       (if va' div PAGE_SIZE = va div PAGE_SIZE then None else translate t va'))"
  using do_unmap_spec [OF _ user_covered [OF assms(1,2)] assms(3)] assms(1)
    confined_user_table [OF assms(1)] user_covered [OF assms(1)] user_not_kernel [OF assms(2)]
  by (auto simp: user_unmap_def user_table_def)

text \<open>Protecting a mapped user page returns its old flags, flushes the address, and gives that
  page, and no other, the new flags with its frame kept; nothing outside the table's frames, nor
  the kernel half of the root, changes.\<close>

theorem user_protect_correct:
  assumes "user_table t" "va < 2 ^ 47" "translate t va = Some (frame, old)"
    and "frame_ok frame" "flags_ok fl" "is_present fl"
  shows "\<exists>t'. user_protect t va fl = (Ok old, t') \<and> user_table t' \<and> confined USER_ENTRIES t t' \<and>
    pt_flushes t' = pt_flushes t @ [va] \<and>
    (\<forall>va' < 2 ^ 47. translate t' va' =
       (if va' div PAGE_SIZE = va div PAGE_SIZE then Some (frame, fl) else translate t va'))"
  using do_protect_spec [OF _ user_covered [OF assms(1,2)] assms(3), of fl] assms(1,4-6)
    confined_user_table [OF assms(1)] user_covered [OF assms(1)] user_not_kernel [OF assms(2)]
  by (auto simp: user_protect_def user_table_def)

section \<open>Witnesses\<close>

definition demo_frames :: "nat list" where
  "demo_frames = map (\<lambda>i. i * PAGE_SIZE) [16..<24]"

definition demo_pt :: page_table where
  "demo_pt = the (pt_new (\<lambda>_. 0) demo_frames 4)"

definition demo_mapped :: page_table where
  "demo_mapped = snd (user_map demo_pt 0x400000 0x80000 7)"

lemma demo_pt_ok: "user_table demo_pt" "translate demo_pt 0x400000 = None"
    "length (pt_supply demo_pt) = 7" "va < 2 ^ 47 \<Longrightarrow> translate demo_pt va = None"
    "set (pt_tables demo_pt) \<union> set (pt_supply demo_pt) = (\<lambda>i. i * PAGE_SIZE) ` {16..<24}"
proof -
  have f: "demo_frames = 65536 # [69632, 73728, 77824, 81920, 86016, 90112, 94208]"
    by (simp add: demo_frames_def upt_rec)
  have p: "pt_new (\<lambda>_. 0) (65536 # [69632, 73728, 77824, 81920, 86016, 90112, 94208]) 4 = Some demo_pt"
    by (simp add: demo_pt_def f pt_new_def)
  show "user_table demo_pt" "translate demo_pt 0x400000 = None"
    by (rule pt_new_user_table [OF _ _ p]; simp add: frame_ok_def)+
  show "va < 2 ^ 47 \<Longrightarrow> translate demo_pt va = None"
    by (rule pt_new_user_table(2) [OF _ _ p]) (simp_all add: frame_ok_def)
  show "length (pt_supply demo_pt) = 7" by (simp add: demo_pt_def f pt_new_def)
  have "set (pt_tables demo_pt) \<union> set (pt_supply demo_pt) = set demo_frames"
    by (auto simp: demo_pt_def f pt_new_def)
  then show "set (pt_tables demo_pt) \<union> set (pt_supply demo_pt) = (\<lambda>i. i * PAGE_SIZE) ` {16..<24}"
    unfolding demo_frames_def set_map set_upt .
qed

lemma demo_flags: "flags_ok 7" "is_present 7" "flags_ok 5" "is_present 5" "frame_ok 0x80000"
  by (simp_all add: flags_ok_def FLAGS_ALL_eq is_present_def flags_contains_def flag_defs frame_ok_def)

lemma demo_mapped_ok: "user_table demo_mapped" "translate demo_mapped 0x400000 = Some (0x80000, 7)"
proof -
  note cov = user_covered [OF demo_pt_ok(1), of "0x400000"]
  have "pt_wf USER_ENTRIES demo_pt" "pt_width demo_pt - 1 \<le> length (pt_supply demo_pt)"
    using demo_pt_ok by (simp_all add: user_table_def)
  from do_map_spec [OF this(1) cov this(2), of "0x80000" 7]
  obtain t' where t': "confined USER_ENTRIES demo_pt t'" "do_map demo_pt 0x400000 0x80000 7 = (Ok (), t')"
    "translate t' 0x400000 = Some (0x80000, 7)"
    using demo_pt_ok(2) cov demo_flags by auto
  moreover have "demo_mapped = t'"
    using t'(2) user_not_kernel [of "0x400000"] by (simp add: demo_mapped_def user_map_def)
  ultimately show "user_table demo_mapped" "translate demo_mapped 0x400000 = Some (0x80000, 7)"
    using confined_user_table [OF demo_pt_ok(1)] by simp_all
qed

theorem user_map_correct_witness:
  "\<exists>t'. user_map demo_pt 0x400000 0x80000 7 = (Ok (), t') \<and> user_table t' \<and>
     translate t' 0x400123 = Some (0x80000, 7) \<and> translate t' 0x401000 = translate demo_pt 0x401000"
  using user_map_correct [of demo_pt "0x400000" "0x80000" 7] demo_pt_ok demo_flags by auto

theorem user_unmap_correct_witness:
  "\<exists>t'. user_unmap demo_mapped 0x400000 = (Ok (), t') \<and> user_table t' \<and> translate t' 0x400000 = None"
  using user_unmap_correct [of demo_mapped "0x400000"] demo_mapped_ok by auto

theorem user_protect_correct_witness:
  "\<exists>t'. user_protect demo_mapped 0x400000 5 = (Ok 7, t') \<and> user_table t' \<and>
     translate t' 0x400000 = Some (0x80000, 5)"
  using user_protect_correct [of demo_mapped "0x400000" "0x80000" 7 5] demo_mapped_ok demo_flags by auto

end
