(* ===== verification/Align.thy ===== *)
theory Align
  imports Prelude
begin

text \<open>
  The alignment trait of \<^verbatim>\<open>framework/libs/align_ext/src/lib.rs\<close>. The trait is
  implemented by one macro for every unsigned integer type, so the model is generic in the
  width: \<open>'w word\<close>. The main facts give the bit-twiddling routines their arithmetic
  meaning: \<open>is_power_of_two\<close> recognises exactly the powers of two, \<open>align_down\<close> is the
  greatest multiple below and \<open>align_up\<close> the least multiple above, which panics on overflow
  only.
\<close>

unbundle bit_operations_syntax

section \<open>Definitions\<close>

definition is_power_of_two :: "'w::len word \<Rightarrow> bool" where
  "is_power_of_two x \<longleftrightarrow> x \<noteq> 0 \<and> x AND (x - 1) = 0"

definition word_checked_add :: "'w::len word \<Rightarrow> 'w word \<Rightarrow> 'w word option" where
  "word_checked_add a b = (if unat a + unat b < 2 ^ LENGTH('w) then Some (a + b) else None)"

text \<open>\<open>None\<close> is a panic: a failed assertion or the \<^verbatim>\<open>unwrap\<close> of an overflowed sum.\<close>

definition align_up :: "'w::len word \<Rightarrow> 'w word \<Rightarrow> 'w word option" where
  "align_up x align =
     (if \<not> (is_power_of_two align \<and> align \<ge> 2) then None
      else case word_checked_add x (align - 1) of
        None \<Rightarrow> None
      | Some s \<Rightarrow> Some (s AND NOT (align - 1)))"

definition align_down :: "'w::len word \<Rightarrow> 'w word \<Rightarrow> 'w word option" where
  "align_down x align =
     (if \<not> (is_power_of_two align \<and> align \<ge> 2) then None
      else Some (x AND NOT (align - 1)))"

text \<open>The methods of \<^verbatim>\<open>usize\<close> on an address kept as a natural number below \<open>2 ^ 64\<close>.\<close>

definition usize_align_up :: "nat \<Rightarrow> nat \<Rightarrow> nat option" where
  "usize_align_up x align = map_option unat (align_up (of_nat x :: 64 word) (of_nat align))"

definition usize_align_down :: "nat \<Rightarrow> nat \<Rightarrow> nat option" where
  "usize_align_down x align = map_option unat (align_down (of_nat x :: 64 word) (of_nat align))"

section \<open>Powers of two\<close>

lemma and_minus_one_nat:
  fixes n :: nat
  assumes "0 < n"
  shows "n AND (n - 1) = 0 \<longleftrightarrow> (\<exists>k. n = 2 ^ k)"
  using assms
proof (induction n rule: less_induct)
  case (less n)
  consider (one) "n = 1" | (odd) m where "n = 2 * m + 1" "0 < m" | (even) m where "n = 2 * m" "0 < m"
    using less.prems by (metis One_nat_def Suc_eq_plus1 bot_nat_0.not_eq_extremum mult_0_right
        oddE evenE nat_0_less_mult_iff add_cancel_right_left)
  then show ?case
  proof cases
    case one
    then show ?thesis by (auto intro: exI [of _ 0])
  next
    case odd
    have "n AND (n - 1) = 2 * (m AND m)"
      using odd by (subst and_nat_unfold) auto
    moreover have "\<not> (\<exists>k. n = 2 ^ k)"
    proof
      assume "\<exists>k. n = 2 ^ k"
      then obtain k where k: "n = 2 ^ k" ..
      with odd show False by (cases k) (auto, presburger)
    qed
    ultimately show ?thesis using odd by simp
  next
    case even
    have half: "(n - 1) div 2 = m - 1" using even by simp
    have "n AND (n - 1) = 2 * (m AND (m - 1))"
      using even half by (subst and_nat_unfold) auto
    then have "n AND (n - 1) = 0 \<longleftrightarrow> (\<exists>k. m = 2 ^ k)"
      using less.IH [of m] even by simp
    also have "\<dots> \<longleftrightarrow> (\<exists>k. n = 2 ^ k)"
    proof
      assume "\<exists>k. m = 2 ^ k"
      then obtain k where "m = 2 ^ k" ..
      then have "n = 2 ^ Suc k" using even by simp
      then show "\<exists>k. n = 2 ^ k" ..
    next
      assume "\<exists>k. n = 2 ^ k"
      then obtain k where k: "n = 2 ^ k" ..
      then have "k \<noteq> 0" using even by (cases k) auto
      then obtain j where "k = Suc j" by (cases k) auto
      then have "m = 2 ^ j" using k even by simp
      then show "\<exists>k. m = 2 ^ k" ..
    qed
    finally show ?thesis .
  qed
qed

lemma unat_minus_one_pos: "x \<noteq> 0 \<Longrightarrow> unat (x - 1) = unat x - 1"
  by (simp add: unat_minus_one)

lemma is_power_of_two_unat:
  fixes x :: "'w::len word"
  shows "is_power_of_two x \<longleftrightarrow> (\<exists>k. unat x = 2 ^ k)"
proof (cases "x = 0")
  case False
  have "unat (x AND (x - 1)) = unat x AND (unat x - 1)"
    using False by (simp add: unsigned_and_eq unat_minus_one_pos)
  then have "x AND (x - 1) = 0 \<longleftrightarrow> unat x AND (unat x - 1) = 0"
    by (metis unsigned_0 unsigned_word_eqI)
  moreover have "0 < unat x" using False by (simp add: unat_gt_0)
  ultimately show ?thesis
    using False and_minus_one_nat [of "unat x"] by (simp add: is_power_of_two_def)
qed (simp add: is_power_of_two_def)

lemma power_of_two_mask:
  fixes a :: "'w::len word"
  assumes "unat a = 2 ^ k"
  shows "a - 1 = mask k" and "k < LENGTH('w)"
proof -
  have "(2::nat) ^ k < 2 ^ LENGTH('w)"
  proof -
    have "unat a < 2 ^ LENGTH('w)" by (rule unsigned_less)
    then show ?thesis unfolding assms .
  qed
  then show k: "k < LENGTH('w)" by simp
  have "a = 2 ^ k"
    using assms by (metis of_nat_numeral of_nat_power of_nat_unat ucast_id)
  then show "a - 1 = mask k" by (simp add: mask_eq_decr_exp)
qed

section \<open>What the routines compute\<close>

lemma unat_and_not_mask:
  fixes x :: "'w::len word"
  shows "unat (x AND NOT (mask k)) = unat x - unat x mod 2 ^ k"
proof -
  have "x AND NOT (mask k) = x AND NOT (take_bit k x)"
    by (rule bit_eqI) (auto simp: bit_simps)
  also have "\<dots> = x - take_bit k x"
    by (rule disjunctive_diff [symmetric]) (simp add: bit_simps)
  finally have eq: "x AND NOT (mask k) = x - take_bit k x" .
  have tb: "unat (take_bit k x) = unat x mod 2 ^ k"
    unfolding take_bit_nat_def [symmetric] by (rule unsigned_take_bit_eq)
  then have "take_bit k x \<le> x"
    by (simp add: word_le_nat_alt)
  then show ?thesis
    by (simp add: eq tb unat_sub)
qed

lemma two_le_word_iff:
  fixes a :: "'w::len word"
  assumes "1 < LENGTH('w)"
  shows "2 \<le> a \<longleftrightarrow> 2 \<le> unat a"
proof -
  have "(2::nat) < 2 ^ LENGTH('w)"
    using assms by (metis One_nat_def Suc_1 lessI power_one_right power_strict_increasing)
  then have "unat (2 :: 'w word) = 2"
    by (metis of_nat_numeral take_bit_nat_eq_self unsigned_of_nat)
  then show ?thesis by (simp add: word_le_nat_alt)
qed

lemma alignment_iff:
  fixes a :: "'w::len word"
  assumes "1 < LENGTH('w)"
  shows "is_power_of_two a \<and> 2 \<le> a \<longleftrightarrow> (\<exists>k>0. unat a = 2 ^ k)"
proof -
  have "2 \<le> (2::nat) ^ k \<longleftrightarrow> 0 < k" for k
    by (cases k) simp_all
  then show ?thesis
    unfolding is_power_of_two_unat two_le_word_iff [OF assms] by metis
qed

lemma round_up_least:
  fixes x a m :: nat
  assumes "0 < a"
  defines "y \<equiv> (x + (a - 1)) - (x + (a - 1)) mod a"
  shows "a dvd y" and "x \<le> y" and "y < x + a" and "a dvd m \<Longrightarrow> x \<le> m \<Longrightarrow> y \<le> m"
proof -
  have y: "y = a * ((x + (a - 1)) div a)"
    unfolding y_def by (rule minus_mod_eq_mult_div)
  then show "a dvd y" by simp
  have "(x + (a - 1)) mod a < a" using assms(1) by simp
  then show le: "x \<le> y" and "y < x + a"
    unfolding y_def using assms(1) by linarith+
  assume "a dvd m" and "x \<le> m"
  then obtain q where q: "m = a * q" by blast
  have "x + (a - 1) < a * (q + 1)" using \<open>x \<le> m\<close> q assms(1) by simp
  then have "(x + (a - 1)) div a < q + 1"
    by (simp add: div_less_iff_less_mult assms(1) mult.commute)
  then have "(x + (a - 1)) div a \<le> q" by simp
  then show "y \<le> m" unfolding y q by (rule mult_le_mono2)
qed

text \<open>The value of a successful rounding, on the natural numbers.\<close>

definition round_up :: "nat \<Rightarrow> nat \<Rightarrow> nat" where
  "round_up x a = (x + (a - 1)) - (x + (a - 1)) mod a"

lemma align_up_Some:
  fixes x a :: "'w::len word"
  assumes "1 < LENGTH('w)" and "0 < k" and "unat a = 2 ^ k"
    and "unat x + (unat a - 1) < 2 ^ LENGTH('w)"
  shows "\<exists>y. align_up x a = Some y \<and> unat y = round_up (unat x) (unat a)"
proof -
  have a: "is_power_of_two a" "2 \<le> a" using assms(2,3) alignment_iff [OF assms(1), of a] by auto
  then have "a \<noteq> 0" by (auto simp: is_power_of_two_def)
  then have am: "unat (a - 1) = unat a - 1" by (rule unat_minus_one_pos)
  have s: "unat (x + (a - 1)) = unat x + (unat a - 1)"
    using am assms(4) by (metis unat_add_lem)
  have "align_up x a = Some ((x + (a - 1)) AND NOT (a - 1))"
    using a am assms(4) by (simp add: align_up_def word_checked_add_def)
  moreover have "unat ((x + (a - 1)) AND NOT (a - 1)) = round_up (unat x) (unat a)"
    unfolding power_of_two_mask(1) [OF assms(3)] unat_and_not_mask
    unfolding power_of_two_mask(1) [OF assms(3), symmetric] s round_up_def assms(3) ..
  ultimately show ?thesis by blast
qed

lemma align_up_None_iff:
  fixes x a :: "'w::len word"
  assumes "1 < LENGTH('w)"
  shows "align_up x a = None \<longleftrightarrow>
    \<not> ((\<exists>k>0. unat a = 2 ^ k) \<and> unat x + (unat a - 1) < 2 ^ LENGTH('w))"
proof -
  have am: "is_power_of_two a \<Longrightarrow> unat (a - 1) = unat a - 1"
    by (rule unat_minus_one_pos) (simp add: is_power_of_two_def)
  have "align_up x a = None \<longleftrightarrow>
      \<not> ((is_power_of_two a \<and> 2 \<le> a) \<and> unat x + unat (a - 1) < 2 ^ LENGTH('w))"
    by (auto simp: align_up_def word_checked_add_def)
  also have "\<dots> \<longleftrightarrow> \<not> ((is_power_of_two a \<and> 2 \<le> a) \<and> unat x + (unat a - 1) < 2 ^ LENGTH('w))"
    using am by auto
  finally show ?thesis unfolding alignment_iff [OF assms] .
qed

lemma align_up_SomeD:
  fixes x a :: "'w::len word"
  assumes "1 < LENGTH('w)" and "align_up x a = Some y"
  shows "(\<exists>k>0. unat a = 2 ^ k) \<and> unat y = round_up (unat x) (unat a)"
proof -
  have "align_up x a \<noteq> None" using assms(2) by simp
  then obtain k where "0 < k" "unat a = 2 ^ k" "unat x + (unat a - 1) < 2 ^ LENGTH('w)"
    unfolding align_up_None_iff [OF assms(1)] by blast
  with align_up_Some [OF assms(1) this] assms(2) show ?thesis by auto
qed

lemma align_down_Some_iff:
  fixes x a :: "'w::len word"
  assumes "1 < LENGTH('w)"
  shows "align_down x a = Some y \<longleftrightarrow>
    (\<exists>k>0. unat a = 2 ^ k) \<and> unat y = unat x - unat x mod unat a"
proof (cases "\<exists>k>0. unat a = 2 ^ k")
  case True
  then obtain k where k: "unat a = 2 ^ k" by blast
  have "align_down x a = Some (x AND NOT (a - 1))"
    using True alignment_iff [OF assms, of a] by (simp add: align_down_def)
  moreover have "unat (x AND NOT (a - 1)) = unat x - unat x mod unat a"
    unfolding power_of_two_mask(1) [OF k] unat_and_not_mask k ..
  ultimately show ?thesis
    using True by (auto simp: word_unat_eq_iff)
next
  case False
  then show ?thesis
    using alignment_iff [OF assms, of a] by (auto simp: align_down_def)
qed

lemma unat_of_nat_usize: "n < USIZE_LIMIT \<Longrightarrow> unat (of_nat n :: 64 word) = n"
  by (simp add: unsigned_of_nat take_bit_nat_eq_self)

lemma usize_align_down_Some:
  assumes "0 < k" and "align = 2 ^ k" and "align < USIZE_LIMIT" and "x < USIZE_LIMIT"
  shows "usize_align_down x align = Some (x - x mod align)"
proof -
  have u: "unat (of_nat x :: 64 word) = x" "unat (of_nat align :: 64 word) = align"
    using assms(3,4) by (simp_all add: unat_of_nat_usize)
  have v: "unat (of_nat (x - x mod align) :: 64 word) = x - x mod align"
    by (rule unat_of_nat_usize) (use assms(4) in linarith)
  have "align_down (of_nat x :: 64 word) (of_nat align) = Some (of_nat (x - x mod align))"
    using align_down_Some_iff [of "of_nat x :: 64 word" "of_nat align"] u v assms(1,2) by auto
  then show ?thesis unfolding usize_align_down_def using v by simp
qed

lemma usize_align_up_Some:
  assumes "0 < k" and "align = 2 ^ k" and "align < USIZE_LIMIT" and "x + (align - 1) < USIZE_LIMIT"
  shows "usize_align_up x align = Some (round_up x align)"
proof -
  have u: "unat (of_nat x :: 64 word) = x" "unat (of_nat align :: 64 word) = align"
    using assms(3,4) by (simp_all add: unat_of_nat_usize)
  have "\<exists>y. align_up (of_nat x :: 64 word) (of_nat align) = Some y
      \<and> unat y = round_up (unat (of_nat x :: 64 word)) (unat (of_nat align :: 64 word))"
    by (rule align_up_Some [where k = k]) (use u assms in simp_all)
  then show ?thesis unfolding u by (auto simp: usize_align_up_def)
qed

lemma round_up_bounds:
  assumes "0 < a"
  shows "a dvd round_up x a" and "x \<le> round_up x a" and "round_up x a < x + a"
  unfolding round_up_def by (rule round_up_least [OF assms])+

lemma round_up_le: "0 < a \<Longrightarrow> a dvd m \<Longrightarrow> x \<le> m \<Longrightarrow> round_up x a \<le> m"
  unfolding round_up_def by (rule round_up_least(4))

lemma usize_align_up_SomeD:
  assumes "x < USIZE_LIMIT" and "align < USIZE_LIMIT" and "usize_align_up x align = Some y"
  shows "y = round_up x align" and "0 < align" and "y < USIZE_LIMIT"
proof -
  obtain w where w: "align_up (of_nat x :: 64 word) (of_nat align) = Some w" "y = unat w"
    using assms(3) by (auto simp: usize_align_up_def)
  have "(\<exists>k>0. unat (of_nat align :: 64 word) = 2 ^ k) \<and>
      unat w = round_up (unat (of_nat x :: 64 word)) (unat (of_nat align :: 64 word))"
    by (rule align_up_SomeD [OF _ w(1)]) simp
  then show "y = round_up x align" "0 < align"
    using w(2) assms(1,2) by (auto simp: unat_of_nat_usize)
  show "y < USIZE_LIMIT" using w(2) unsigned_less [of w] by simp
qed

section \<open>Properties\<close>

text \<open>\<^verbatim>\<open>align_up\<close>, on an integer type of at least two bits, panics exactly when the
  alignment is not a power of two of at least two or the rounding leaves the type's range;
  otherwise it returns the least multiple of the alignment that is not below its argument.
\<close>

theorem align_up_correct:
  fixes x a :: "'w::len word"
  assumes "1 < LENGTH('w)"
  shows "case align_up x a of
      None \<Rightarrow> \<not> ((\<exists>k>0. unat a = 2 ^ k) \<and> unat x + (unat a - 1) < 2 ^ LENGTH('w))
    | Some y \<Rightarrow> unat a dvd unat y \<and> unat x \<le> unat y \<and>
        (\<forall>m. unat a dvd m \<and> unat x \<le> m \<longrightarrow> unat y \<le> m)"
proof (cases "align_up x a")
  case None
  then have "\<not> ((\<exists>k>0. unat a = 2 ^ k) \<and> unat x + (unat a - 1) < 2 ^ LENGTH('w))"
    unfolding align_up_None_iff [OF assms] .
  then show ?thesis unfolding None option.case .
next
  case (Some y)
  from align_up_SomeD [OF assms Some]
  have y: "unat y = round_up (unat x) (unat a)" and "0 < unat a" by auto
  from \<open>0 < unat a\<close> show ?thesis
    by (auto simp: Some y intro: round_up_bounds round_up_le)
qed

theorem align_up_correct_witness:
  "align_up (12 :: 64 word) 8 = Some 16 \<and> 8 dvd unat (16 :: 64 word) \<and>
    unat (12 :: 64 word) \<le> unat (16 :: 64 word)"
proof -
  have *: "align_up (12 :: 64 word) 8 = Some 16"
    by (simp add: align_up_def is_power_of_two_def word_checked_add_def)
  show ?thesis
    using align_up_correct [where x = "12 :: 64 word" and a = 8] by (simp add: *)
qed

end
