(* ===== verification/Memory_Region.thy ===== *)
theory Memory_Region
  imports Align
begin

text \<open>
  The memory regions of the boot phase (\<^verbatim>\<open>framework/aster-frame/src/boot/memory_region.rs\<close>)
  and the set-up of the frame allocator from them
  (\<^verbatim>\<open>framework/aster-frame/src/vm/frame_allocator.rs\<close>, \<^verbatim>\<open>init\<close>).

  A region is its base, length and type; an address computation that leaves
  \<^verbatim>\<open>usize\<close> panics, which is \<open>None\<close>. The frame allocator itself is the crate
  \<^verbatim>\<open>buddy_system_allocator\<close>: its \<^verbatim>\<open>add_frame\<close> is a parameter.
\<close>

section \<open>Regions\<close>

datatype region_type =
  BadMemory | NonVolatileSleep | Reserved | Kernel | Module | Framebuffer | Reclaimable | Usable

record memory_region =
  mr_base :: nat
  mr_len :: nat
  mr_typ :: region_type

definition mr_new :: "nat \<Rightarrow> nat \<Rightarrow> region_type \<Rightarrow> memory_region" where
  "mr_new base len typ = \<lparr>mr_base = base, mr_len = len, mr_typ = typ\<rparr>"

definition mr_kernel :: "nat \<Rightarrow> nat \<Rightarrow> memory_region option" where
  "mr_kernel kernel_start kernel_end =
     (if kernel_start \<le> kernel_end
      then Some \<lparr>mr_base = kernel_start, mr_len = kernel_end - kernel_start, mr_typ = Kernel\<rparr>
      else None)"

definition mr_is_empty :: "memory_region \<Rightarrow> bool" where
  "mr_is_empty r \<longleftrightarrow> mr_len r = 0"

definition mr_truncate :: "memory_region \<Rightarrow> memory_region \<Rightarrow> memory_region list option" where
  "mr_truncate self t =
     (if mr_base self < mr_base t then
        Option.bind (checked_add (mr_base self) (mr_len self)) (\<lambda>self_end.
          if self_end > mr_base t then
            Option.bind (checked_add (mr_base t) (mr_len t)) (\<lambda>t_end.
              if self_end > t_end then
                Some [\<lparr>mr_base = mr_base self, mr_len = mr_base t - mr_base self, mr_typ = mr_typ self\<rparr>,
                      \<lparr>mr_base = t_end, mr_len = self_end - t_end, mr_typ = mr_typ self\<rparr>]
              else
                Some [\<lparr>mr_base = mr_base self, mr_len = mr_base t - mr_base self, mr_typ = mr_typ self\<rparr>])
          else Some [self])
      else
        Option.bind (checked_add (mr_base t) (mr_len t)) (\<lambda>t_end.
          if mr_base self < t_end then
            Option.bind (checked_add (mr_base self) (mr_len self)) (\<lambda>self_end.
              if self_end > t_end then
                Some [\<lparr>mr_base = t_end, mr_len = self_end - t_end, mr_typ = mr_typ self\<rparr>]
              else Some [])
          else Some [self]))"

text \<open>The inner loop appends the pieces of every usable region, the outer loop runs through the
  unusable ones.\<close>

fun truncate_all :: "memory_region list \<Rightarrow> memory_region \<Rightarrow> memory_region list option" where
  "truncate_all [] t = Some []"
| "truncate_all (r # rs) t =
     Option.bind (mr_truncate r t) (\<lambda>ps. Option.bind (truncate_all rs t) (\<lambda>qs. Some (ps @ qs)))"

fun truncate_by :: "memory_region list \<Rightarrow> memory_region list \<Rightarrow> memory_region list option" where
  "truncate_by usable [] = Some usable"
| "truncate_by usable (t # ts) = Option.bind (truncate_all usable t) (\<lambda>u. truncate_by u ts)"

definition is_usable_type :: "region_type \<Rightarrow> bool" where
  "is_usable_type t \<longleftrightarrow> t = Usable \<or> t = Reclaimable"

definition non_overlapping_regions_from :: "memory_region list \<Rightarrow> memory_region list option" where
  "non_overlapping_regions_from regions =
     (let regions_usable = filter (\<lambda>r. is_usable_type (mr_typ r)) regions;
          regions_unusable = filter (\<lambda>r. \<not> is_usable_type (mr_typ r)) regions
      in Option.bind (truncate_by regions_usable regions_unusable)
           (\<lambda>usable. Some (regions_unusable @ usable)))"

section \<open>The frame allocator's initial content\<close>




section \<open>Coverage\<close>

definition covers :: "memory_region \<Rightarrow> nat \<Rightarrow> bool" where
  "covers r a \<longleftrightarrow> mr_base r \<le> a \<and> a < mr_base r + mr_len r"

definition covered_by :: "memory_region list \<Rightarrow> nat \<Rightarrow> bool" where
  "covered_by rs a \<longleftrightarrow> (\<exists>r \<in> set rs. covers r a)"

text \<open>Regions within the 52 bits of an x86-64 physical address.\<close>

definition region_ok :: "memory_region \<Rightarrow> bool" where
  "region_ok r \<longleftrightarrow> mr_base r + mr_len r \<le> 2 ^ 52"

lemma covered_by_simps [simp]:
  "\<not> covered_by [] a" "covered_by (r # rs) a \<longleftrightarrow> covers r a \<or> covered_by rs a"
  "covered_by (rs @ qs) a \<longleftrightarrow> covered_by rs a \<or> covered_by qs a"
  by (auto simp: covered_by_def)

lemma mr_truncate_correct:
  assumes "region_ok r" "region_ok t"
  obtains ps where "mr_truncate r t = Some ps" "\<And>a. covered_by ps a \<longleftrightarrow> covers r a \<and> \<not> covers t a"
    "\<And>p. p \<in> set ps \<Longrightarrow> region_ok p \<and> mr_typ p = mr_typ r"
  using assms by (atomize_elim)
    (auto simp: mr_truncate_def checked_add_def covers_def region_ok_def)

lemma truncate_all_correct:
  assumes "\<forall>r \<in> set rs. region_ok r" "region_ok t"
  shows "\<exists>ps. truncate_all rs t = Some ps \<and> (\<forall>a. covered_by ps a \<longleftrightarrow> covered_by rs a \<and> \<not> covers t a) \<and>
    (\<forall>p \<in> set ps. region_ok p \<and> mr_typ p \<in> mr_typ ` set rs)"
  using assms(1)
proof (induction rs)
  case (Cons r rs)
  then obtain qs where qs: "truncate_all rs t = Some qs"
    "\<forall>a. covered_by qs a \<longleftrightarrow> covered_by rs a \<and> \<not> covers t a"
    "\<forall>p \<in> set qs. region_ok p \<and> mr_typ p \<in> mr_typ ` set rs" by auto
  obtain ps where ps: "mr_truncate r t = Some ps" "\<And>a. covered_by ps a \<longleftrightarrow> covers r a \<and> \<not> covers t a"
    "\<And>p. p \<in> set ps \<Longrightarrow> region_ok p \<and> mr_typ p = mr_typ r"
    using mr_truncate_correct Cons.prems assms(2) by (metis list.set_intros(1))
  show ?case using qs ps by (intro exI [of _ "ps @ qs"]) auto
qed simp

lemma truncate_by_correct:
  assumes "\<forall>r \<in> set rs. region_ok r" "\<forall>t \<in> set ts. region_ok t"
  shows "\<exists>ps. truncate_by rs ts = Some ps \<and>
    (\<forall>a. covered_by ps a \<longleftrightarrow> covered_by rs a \<and> \<not> covered_by ts a) \<and>
    (\<forall>p \<in> set ps. region_ok p \<and> mr_typ p \<in> mr_typ ` set rs)"
  using assms
proof (induction ts arbitrary: rs)
  case (Cons t ts)
  obtain ps where ps: "truncate_all rs t = Some ps"
    "\<forall>a. covered_by ps a \<longleftrightarrow> covered_by rs a \<and> \<not> covers t a"
    "\<forall>p \<in> set ps. region_ok p \<and> mr_typ p \<in> mr_typ ` set rs"
    using truncate_all_correct Cons.prems by (metis list.set_intros(1))
  obtain qs where qs: "truncate_by ps ts = Some qs"
    "\<forall>a. covered_by qs a \<longleftrightarrow> covered_by ps a \<and> \<not> covered_by ts a"
    "\<forall>p \<in> set qs. region_ok p \<and> mr_typ p \<in> mr_typ ` set ps"
    using Cons.IH [of ps] ps(3) Cons.prems by auto
  show ?case using ps qs by (intro exI [of _ qs]) fastforce
qed simp





section \<open>Properties\<close>

text \<open>C25: Reconciling the boot loader's memory map. For regions within the physical address
  space \<^verbatim>\<open>non_overlapping_regions_from\<close> does not panic; every unusable region is kept as
  it was, and the usable and reclaimable regions of the result cover exactly the bytes that some
  usable or reclaimable region of the input covers and no unusable one does.\<close>

theorem non_overlapping_regions_from_correct:
  assumes "\<forall>r \<in> set regions. region_ok r"
  shows "\<exists>out. non_overlapping_regions_from regions = Some out \<and>
    filter (\<lambda>r. \<not> is_usable_type (mr_typ r)) out = filter (\<lambda>r. \<not> is_usable_type (mr_typ r)) regions \<and>
    (\<forall>a. covered_by (filter (\<lambda>r. is_usable_type (mr_typ r)) out) a \<longleftrightarrow>
       covered_by (filter (\<lambda>r. is_usable_type (mr_typ r)) regions) a \<and>
       \<not> covered_by (filter (\<lambda>r. \<not> is_usable_type (mr_typ r)) regions) a)"
proof -
  let ?u = "filter (\<lambda>r. is_usable_type (mr_typ r)) regions"
  let ?n = "filter (\<lambda>r. \<not> is_usable_type (mr_typ r)) regions"
  obtain ps where ps: "truncate_by ?u ?n = Some ps"
    "\<forall>a. covered_by ps a \<longleftrightarrow> covered_by ?u a \<and> \<not> covered_by ?n a"
    "\<forall>p \<in> set ps. region_ok p \<and> mr_typ p \<in> mr_typ ` set ?u"
    using truncate_by_correct [of ?u ?n] assms by auto
  have us: "\<forall>p \<in> set ps. is_usable_type (mr_typ p)" using ps(3) by auto
  have "filter (\<lambda>r. \<not> is_usable_type (mr_typ r)) (?n @ ps) = ?n"
    "filter (\<lambda>r. is_usable_type (mr_typ r)) (?n @ ps) = ps"
    using us by simp_all
  then show ?thesis
    using ps(1,2) by (intro exI [of _ "?n @ ps"]) (simp add: non_overlapping_regions_from_def)
qed


text \<open>A memory map with the kernel image in the middle of a usable region.\<close>

definition demo_map :: "memory_region list" where
  "demo_map = [mr_new 0 0x9fc00 Usable, mr_new 0x100000 0x700000 Usable,
     mr_new 0x200000 0x300000 Kernel, mr_new 0x9fc00 0x400 Reserved]"

lemma demo_map_ok: "\<forall>r \<in> set demo_map. region_ok r"
  by (simp add: demo_map_def mr_new_def region_ok_def)

theorem non_overlapping_regions_from_correct_witness:
  "\<exists>out. non_overlapping_regions_from demo_map = Some out \<and>
     covered_by (filter (\<lambda>r. is_usable_type (mr_typ r)) out) 0x1fffff \<and>
     \<not> covered_by (filter (\<lambda>r. is_usable_type (mr_typ r)) out) 0x200000"
proof -
  have "covered_by (filter (\<lambda>r. is_usable_type (mr_typ r)) demo_map) 0x1fffff"
    "\<not> covered_by (filter (\<lambda>r. \<not> is_usable_type (mr_typ r)) demo_map) 0x1fffff"
    "covered_by (filter (\<lambda>r. \<not> is_usable_type (mr_typ r)) demo_map) 0x200000"
    by (simp_all add: demo_map_def mr_new_def is_usable_type_def covers_def)
  then show ?thesis using non_overlapping_regions_from_correct [OF demo_map_ok] by blast
qed


end
