(* ===== verification/Vm_Frame.thy ===== *)
theory Vm_Frame
  imports Memory_Region Page_Table
begin

text \<open>
  Page frames and raw memory access (\<^verbatim>\<open>framework/aster-frame/src/vm/frame.rs\<close>,
  \<^verbatim>\<open>vm/options.rs\<close>, \<^verbatim>\<open>vm/frame_allocator.rs\<close>).

  The kernel's linear mapping of physical memory and the kernel buffers live in one byte memory
  indexed by kernel virtual address (\<open>byte_mem\<close>), so that the aliasing of frames and buffers is
  visible: a \<^verbatim>\<open>&[u8]\<close> is its address and length, a \<^verbatim>\<open>VmReader\<close> or
  \<^verbatim>\<open>VmWriter\<close> its two pointers, and \<^verbatim>\<open>core::ptr::copy\<close> is \<open>ptr_copy\<close>. A
  \<^verbatim>\<open>VmFrame\<close> is the content of its \<^verbatim>\<open>Arc\<close>, the frame index with the flag
  \<^verbatim>\<open>NEED_DEALLOC\<close> in bit 63; a clone is the same value. The buddy allocator is a
  parameter.
\<close>

section \<open>Memory, readers and writers\<close>

datatype frame_error = InvalidArgs | NoMemory | PageFault | AccessDenied | IoError | NotEnoughResources

type_synonym 'a fres = "(frame_error, 'a) result"
type_synonym byte_mem = "nat \<Rightarrow> 8 word"
type_synonym slice = "nat \<times> nat"

definition PHYS_OFFSET :: nat where "PHYS_OFFSET = 0xFFFF800000000000"

definition paddr_to_vaddr :: "nat \<Rightarrow> nat" where
  "paddr_to_vaddr pa = pa + PHYS_OFFSET"

definition ptr_copy :: "nat \<Rightarrow> nat \<Rightarrow> nat \<Rightarrow> byte_mem \<Rightarrow> byte_mem" where
  "ptr_copy src dst n m = (\<lambda>a. if dst \<le> a \<and> a < dst + n then m (src + (a - dst)) else m a)"

definition ptr_write_bytes :: "nat \<Rightarrow> 8 word \<Rightarrow> nat \<Rightarrow> byte_mem \<Rightarrow> byte_mem" where
  "ptr_write_bytes dst v n m = (\<lambda>a. if dst \<le> a \<and> a < dst + n then v else m a)"

record vm_reader =
  r_cursor :: nat
  r_end :: nat

record vm_writer =
  w_cursor :: nat
  w_end :: nat

definition vr_from_raw_parts :: "nat \<Rightarrow> nat \<Rightarrow> vm_reader" where
  "vr_from_raw_parts p len = \<lparr>r_cursor = p, r_end = p + len\<rparr>"

definition vr_remain :: "vm_reader \<Rightarrow> nat" where
  "vr_remain r = r_end r - r_cursor r"

definition vr_has_remain :: "vm_reader \<Rightarrow> bool" where
  "vr_has_remain r \<longleftrightarrow> vr_remain r > 0"

definition vr_limit :: "vm_reader \<Rightarrow> nat \<Rightarrow> vm_reader" where
  "vr_limit r max_remain =
     (if max_remain < vr_remain r then r\<lparr>r_end := r_cursor r + max_remain\<rparr> else r)"

definition vr_skip :: "vm_reader \<Rightarrow> nat \<Rightarrow> vm_reader option" where
  "vr_skip r nbytes =
     (if nbytes \<le> vr_remain r then Some (r\<lparr>r_cursor := r_cursor r + nbytes\<rparr>) else None)"

definition vw_from_raw_parts_mut :: "nat \<Rightarrow> nat \<Rightarrow> vm_writer" where
  "vw_from_raw_parts_mut p len = \<lparr>w_cursor = p, w_end = p + len\<rparr>"

definition vw_avail :: "vm_writer \<Rightarrow> nat" where
  "vw_avail w = w_end w - w_cursor w"

definition vw_has_avail :: "vm_writer \<Rightarrow> bool" where
  "vw_has_avail w \<longleftrightarrow> vw_avail w > 0"

definition vw_limit :: "vm_writer \<Rightarrow> nat \<Rightarrow> vm_writer" where
  "vw_limit w max_avail =
     (if max_avail < vw_avail w then w\<lparr>w_end := w_cursor w + max_avail\<rparr> else w)"

definition vw_skip :: "vm_writer \<Rightarrow> nat \<Rightarrow> vm_writer option" where
  "vw_skip w nbytes =
     (if nbytes \<le> vw_avail w then Some (w\<lparr>w_cursor := w_cursor w + nbytes\<rparr>) else None)"

definition vr_read ::
    "vm_reader \<Rightarrow> vm_writer \<Rightarrow> byte_mem \<Rightarrow> nat \<times> vm_reader \<times> vm_writer \<times> byte_mem" where
  "vr_read r w m =
     (let copy_len = min (vr_remain r) (vw_avail w) in
      if copy_len = 0 then (0, r, w, m)
      else (copy_len, r\<lparr>r_cursor := r_cursor r + copy_len\<rparr>, w\<lparr>w_cursor := w_cursor w + copy_len\<rparr>,
            ptr_copy (r_cursor r) (w_cursor w) copy_len m))"

definition vw_write ::
    "vm_writer \<Rightarrow> vm_reader \<Rightarrow> byte_mem \<Rightarrow> nat \<times> vm_writer \<times> vm_reader \<times> byte_mem" where
  "vw_write w r m =
     (let copy_len = min (vw_avail w) (vr_remain r) in
      if copy_len = 0 then (0, w, r, m)
      else (copy_len, w\<lparr>w_cursor := w_cursor w + copy_len\<rparr>, r\<lparr>r_cursor := r_cursor r + copy_len\<rparr>,
            ptr_copy (r_cursor r) (w_cursor w) copy_len m))"

definition vr_of_slice :: "slice \<Rightarrow> vm_reader" where
  "vr_of_slice s = vr_from_raw_parts (fst s) (snd s)"

definition vw_of_slice :: "slice \<Rightarrow> vm_writer" where
  "vw_of_slice s = vw_from_raw_parts_mut (fst s) (snd s)"

section \<open>A single frame\<close>

type_synonym vm_frame = "64 word"

definition NEED_DEALLOC :: "64 word" where "NEED_DEALLOC = 0x8000000000000000"

definition vf_new :: "nat \<Rightarrow> 64 word \<Rightarrow> vm_frame option" where
  "vf_new paddr fl =
     (if paddr mod PAGE_SIZE = 0 then Some (of_nat (paddr div PAGE_SIZE) OR fl) else None)"

definition vf_frame_index :: "vm_frame \<Rightarrow> nat" where
  "vf_frame_index f = unat (f AND NOT NEED_DEALLOC)"

definition vf_start_paddr :: "vm_frame \<Rightarrow> nat" where
  "vf_start_paddr f = vf_frame_index f * PAGE_SIZE"

definition vf_end_paddr :: "vm_frame \<Rightarrow> nat" where
  "vf_end_paddr f = (vf_frame_index f + 1) * PAGE_SIZE"

definition vf_need_dealloc :: "vm_frame \<Rightarrow> bool" where
  "vf_need_dealloc f \<longleftrightarrow> f AND NEED_DEALLOC \<noteq> 0"

definition vf_as_ptr :: "vm_frame \<Rightarrow> nat" where
  "vf_as_ptr f = paddr_to_vaddr (vf_start_paddr f)"

definition vf_zero :: "vm_frame \<Rightarrow> byte_mem \<Rightarrow> byte_mem" where
  "vf_zero f m = ptr_write_bytes (vf_as_ptr f) 0 PAGE_SIZE m"

definition vf_copy_from_frame :: "vm_frame \<Rightarrow> vm_frame \<Rightarrow> byte_mem \<Rightarrow> byte_mem" where
  "vf_copy_from_frame self src m =
     (if self = src then m else ptr_copy (vf_as_ptr src) (vf_as_ptr self) PAGE_SIZE m)"

definition vf_reader :: "vm_frame \<Rightarrow> vm_reader" where
  "vf_reader f = vr_from_raw_parts (vf_as_ptr f) PAGE_SIZE"

definition vf_writer :: "vm_frame \<Rightarrow> vm_writer" where
  "vf_writer f = vw_from_raw_parts_mut (vf_as_ptr f) PAGE_SIZE"

definition vf_read_bytes :: "vm_frame \<Rightarrow> nat \<Rightarrow> slice \<Rightarrow> byte_mem \<Rightarrow> byte_mem fres" where
  "vf_read_bytes f offset buf m =
     rbind (usize_add (snd buf) offset) (\<lambda>e.
       if e > PAGE_SIZE then Err InvalidArgs
       else rbind (unwrap_opt (vr_skip (vf_reader f) offset)) (\<lambda>r.
         case vr_read r (vw_of_slice buf) m of
           (len, _, _, m') \<Rightarrow> rbind (assert_or_panic (len = snd buf)) (\<lambda>_. Ok m')))"

definition vf_write_bytes :: "vm_frame \<Rightarrow> nat \<Rightarrow> slice \<Rightarrow> byte_mem \<Rightarrow> byte_mem fres" where
  "vf_write_bytes f offset buf m =
     rbind (usize_add (snd buf) offset) (\<lambda>e.
       if e > PAGE_SIZE then Err InvalidArgs
       else rbind (unwrap_opt (vw_skip (vf_writer f) offset)) (\<lambda>w.
         case vw_write w (vr_of_slice buf) m of
           (len, _, _, m') \<Rightarrow> rbind (assert_or_panic (len = snd buf)) (\<lambda>_. Ok m')))"

definition vf_drop :: "('s \<Rightarrow> nat \<Rightarrow> nat \<Rightarrow> 's) \<Rightarrow> nat \<Rightarrow> vm_frame \<Rightarrow> 's \<Rightarrow> 's" where
  "vf_drop dealloc strong_count f alloc =
     (if vf_need_dealloc f \<and> strong_count = 1 then dealloc alloc (vf_frame_index f) 1 else alloc)"

section \<open>Collections of frames\<close>

definition fv_get :: "vm_frame list \<Rightarrow> nat \<Rightarrow> vm_frame option" where
  "fv_get fs index = (if index < length fs then Some (fs ! index) else None)"

definition fv_pop :: "vm_frame list \<Rightarrow> vm_frame option \<times> vm_frame list" where
  "fv_pop fs = (if fs = [] then (None, []) else (Some (last fs), butlast fs))"

definition fv_remove :: "vm_frame list \<Rightarrow> nat \<Rightarrow> (vm_frame \<times> vm_frame list) option" where
  "fv_remove fs at =
     (if at < length fs then Some (fs ! at, take at fs @ drop (Suc at) fs) else None)"

fun fv_zero :: "vm_frame list \<Rightarrow> byte_mem \<Rightarrow> byte_mem" where
  "fv_zero [] m = m"
| "fv_zero (f # fs) m = fv_zero fs (vf_zero f m)"

definition fv_truncate :: "vm_frame list \<Rightarrow> nat \<Rightarrow> vm_frame list" where
  "fv_truncate fs new_len = (if new_len \<ge> length fs then fs else take new_len fs)"

definition fv_nbytes :: "vm_frame list \<Rightarrow> nat" where
  "fv_nbytes fs = length fs * PAGE_SIZE"

fun fv_read_loop ::
    "vm_frame list \<Rightarrow> nat \<Rightarrow> vm_writer \<Rightarrow> byte_mem \<Rightarrow> (vm_writer \<times> byte_mem) option" where
  "fv_read_loop [] start w m = Some (w, m)"
| "fv_read_loop (f # fs) start w m =
     (case vr_skip (vf_reader f) start of
        None \<Rightarrow> None
      | Some r \<Rightarrow>
          (case vr_read r w m of
             (read_len, _, w', m') \<Rightarrow>
               if read_len = 0 then Some (w', m') else fv_read_loop fs 0 w' m'))"

definition fv_read_bytes :: "vm_frame list \<Rightarrow> nat \<Rightarrow> slice \<Rightarrow> byte_mem \<Rightarrow> byte_mem fres" where
  "fv_read_bytes fs offset buf m =
     rbind (usize_add (snd buf) offset) (\<lambda>e.
       if e > fv_nbytes fs then Err InvalidArgs
       else rbind (unwrap_opt (fv_read_loop (drop (offset div PAGE_SIZE) fs) (offset mod PAGE_SIZE)
                                (vw_of_slice buf) m))
              (\<lambda>(w, m'). Ok m'))"

fun fv_write_loop ::
    "vm_frame list \<Rightarrow> nat \<Rightarrow> vm_reader \<Rightarrow> byte_mem \<Rightarrow> (vm_reader \<times> byte_mem) option" where
  "fv_write_loop [] start r m = Some (r, m)"
| "fv_write_loop (f # fs) start r m =
     (case vw_skip (vf_writer f) start of
        None \<Rightarrow> None
      | Some w \<Rightarrow>
          (case vw_write w r m of
             (write_len, _, r', m') \<Rightarrow>
               if write_len = 0 then Some (r', m') else fv_write_loop fs 0 r' m'))"

definition fv_write_bytes :: "vm_frame list \<Rightarrow> nat \<Rightarrow> slice \<Rightarrow> byte_mem \<Rightarrow> byte_mem fres" where
  "fv_write_bytes fs offset buf m =
     rbind (usize_add (snd buf) offset) (\<lambda>e.
       if e > fv_nbytes fs then Err InvalidArgs
       else rbind (unwrap_opt (fv_write_loop (drop (offset div PAGE_SIZE) fs) (offset mod PAGE_SIZE)
                                (vr_of_slice buf) m))
              (\<lambda>(r, m'). Ok m'))"

record frame_vec_iter =
  fvi_frames :: "vm_frame list"
  fvi_current :: nat

definition fvi_new :: "vm_frame list \<Rightarrow> frame_vec_iter" where
  "fvi_new fs = \<lparr>fvi_frames = fs, fvi_current = 0\<rparr>"

definition fvi_next :: "frame_vec_iter \<Rightarrow> vm_frame option \<times> frame_vec_iter" where
  "fvi_next it =
     (if fvi_current it \<ge> length (fvi_frames it) then (None, it)
      else (Some (fvi_frames it ! fvi_current it), it))"

section \<open>Segments\<close>

record vm_segment =
  seg_index :: "64 word"
  seg_inner_nframes :: nat
  seg_range :: "nat \<times> nat"

definition seg_new :: "nat \<Rightarrow> nat \<Rightarrow> 64 word \<Rightarrow> vm_segment option" where
  "seg_new paddr n fl =
     (if paddr mod PAGE_SIZE = 0
      then Some \<lparr>seg_index = of_nat (paddr div PAGE_SIZE) OR fl, seg_inner_nframes = n,
                 seg_range = (0, n)\<rparr>
      else None)"

definition seg_range_of :: "vm_segment \<Rightarrow> nat \<times> nat \<Rightarrow> vm_segment option" where
  "seg_range_of s rng =
     (let adj_range = (fst rng + fst (seg_range s), snd rng + fst (seg_range s)) in
      if fst adj_range < snd adj_range \<and> snd adj_range \<le> snd (seg_range s)
      then Some (s\<lparr>seg_range := adj_range\<rparr>) else None)"

definition seg_inner_start :: "vm_segment \<Rightarrow> nat" where
  "seg_inner_start s = unat (seg_index s AND NOT NEED_DEALLOC)"

definition seg_start_frame_index :: "vm_segment \<Rightarrow> nat" where
  "seg_start_frame_index s = seg_inner_start s + fst (seg_range s)"

definition seg_nframes :: "vm_segment \<Rightarrow> nat" where
  "seg_nframes s = snd (seg_range s) - fst (seg_range s)"

definition seg_start_paddr :: "vm_segment \<Rightarrow> nat" where
  "seg_start_paddr s = seg_start_frame_index s * PAGE_SIZE"

definition seg_end_paddr :: "vm_segment \<Rightarrow> nat" where
  "seg_end_paddr s = (seg_start_frame_index s + seg_nframes s) * PAGE_SIZE"

definition seg_nbytes :: "vm_segment \<Rightarrow> nat" where
  "seg_nbytes s = seg_nframes s * PAGE_SIZE"

definition seg_as_ptr :: "vm_segment \<Rightarrow> nat" where
  "seg_as_ptr s = paddr_to_vaddr (seg_start_paddr s)"

definition seg_zero :: "vm_segment \<Rightarrow> byte_mem \<Rightarrow> byte_mem" where
  "seg_zero s m = ptr_write_bytes (seg_as_ptr s) 0 (seg_nbytes s) m"

definition seg_need_dealloc :: "vm_segment \<Rightarrow> bool" where
  "seg_need_dealloc s \<longleftrightarrow> seg_index s AND NEED_DEALLOC \<noteq> 0"

definition seg_read_bytes :: "vm_segment \<Rightarrow> nat \<Rightarrow> slice \<Rightarrow> byte_mem \<Rightarrow> byte_mem fres" where
  "seg_read_bytes s offset buf m =
     rbind (usize_add (snd buf) offset) (\<lambda>e.
       if e > seg_nbytes s then Err InvalidArgs
       else rbind (unwrap_opt (vr_skip (vr_from_raw_parts (seg_as_ptr s) (seg_nbytes s)) offset)) (\<lambda>r.
         case vr_read r (vw_of_slice buf) m of
           (len, _, _, m') \<Rightarrow> rbind (assert_or_panic (len = snd buf)) (\<lambda>_. Ok m')))"

definition seg_write_bytes :: "vm_segment \<Rightarrow> nat \<Rightarrow> slice \<Rightarrow> byte_mem \<Rightarrow> byte_mem fres" where
  "seg_write_bytes s offset buf m =
     rbind (usize_add (snd buf) offset) (\<lambda>e.
       if e > seg_nbytes s then Err InvalidArgs
       else rbind (unwrap_opt (vw_skip (vw_from_raw_parts_mut (seg_as_ptr s) (seg_nbytes s)) offset)) (\<lambda>w.
         case vw_write w (vr_of_slice buf) m of
           (len, _, _, m') \<Rightarrow> rbind (assert_or_panic (len = snd buf)) (\<lambda>_. Ok m')))"

definition seg_drop :: "('s \<Rightarrow> nat \<Rightarrow> nat \<Rightarrow> 's) \<Rightarrow> nat \<Rightarrow> vm_segment \<Rightarrow> 's \<Rightarrow> 's" where
  "seg_drop dealloc strong_count s alloc =
     (if seg_need_dealloc s \<and> strong_count = 1
      then dealloc alloc (seg_inner_start s) (seg_inner_nframes s) else alloc)"

section \<open>Allocation\<close>

text \<open>\<open>alloc s n\<close> is the buddy allocator's \<^verbatim>\<open>alloc\<close>: the index of the first of
  \<open>n\<close> consecutive free frames, if there are some, and the allocator's new state.\<close>

fun fa_frames :: "nat \<Rightarrow> nat \<Rightarrow> 64 word \<Rightarrow> vm_frame list option" where
  "fa_frames start 0 fl = Some []"
| "fa_frames start (Suc n) fl =
     Option.bind (vf_new (start * PAGE_SIZE) (fl OR NEED_DEALLOC)) (\<lambda>f.
       map_option (\<lambda>fs. f # fs) (fa_frames (Suc start) n fl))"

definition fa_alloc ::
    "('s \<Rightarrow> nat \<Rightarrow> nat option \<times> 's) \<Rightarrow> nat \<Rightarrow> 64 word \<Rightarrow> 's \<Rightarrow> ('e, vm_frame list option \<times> 's) result" where
  "fa_alloc alloc n fl s =
     (case alloc s n of
        (None, s') \<Rightarrow> Ok (None, s')
      | (Some start, s') \<Rightarrow> rbind (unwrap_opt (fa_frames start n fl)) (\<lambda>fs. Ok (Some fs, s')))"

definition fa_alloc_single ::
    "('s \<Rightarrow> nat \<Rightarrow> nat option \<times> 's) \<Rightarrow> 64 word \<Rightarrow> 's \<Rightarrow> ('e, vm_frame option \<times> 's) result" where
  "fa_alloc_single alloc fl s =
     (case alloc s 1 of
        (None, s') \<Rightarrow> Ok (None, s')
      | (Some idx, s') \<Rightarrow>
          rbind (unwrap_opt (vf_new (idx * PAGE_SIZE) (fl OR NEED_DEALLOC))) (\<lambda>f. Ok (Some f, s')))"

definition fa_alloc_contiguous ::
    "('s \<Rightarrow> nat \<Rightarrow> nat option \<times> 's) \<Rightarrow> nat \<Rightarrow> 64 word \<Rightarrow> 's \<Rightarrow> ('e, vm_segment option \<times> 's) result" where
  "fa_alloc_contiguous alloc n fl s =
     (case alloc s n of
        (None, s') \<Rightarrow> Ok (None, s')
      | (Some start, s') \<Rightarrow>
          rbind (unwrap_opt (seg_new (start * PAGE_SIZE) n (fl OR NEED_DEALLOC))) (\<lambda>g. Ok (Some g, s')))"

record vm_alloc_options =
  ao_nframes :: nat
  ao_is_contiguous :: bool
  ao_uninit :: bool

definition ao_new :: "nat \<Rightarrow> vm_alloc_options" where
  "ao_new n = \<lparr>ao_nframes = n, ao_is_contiguous = False, ao_uninit = False\<rparr>"

text \<open>The frames pushed so far are dropped, and so given back, when a later allocation fails.
  An outcome carries the memory and the allocator, whose state also changes on the error path.\<close>

fun ao_alloc_loop ::
    "('s \<Rightarrow> nat \<Rightarrow> nat option \<times> 's) \<Rightarrow> ('s \<Rightarrow> nat \<Rightarrow> nat \<Rightarrow> 's) \<Rightarrow> nat \<Rightarrow> vm_frame list \<Rightarrow> 's
     \<Rightarrow> vm_frame list fres \<times> 's" where
  "ao_alloc_loop alloc dealloc 0 frame_list s = (Ok frame_list, s)"
| "ao_alloc_loop alloc dealloc (Suc n) frame_list s =
     (case fa_alloc_single alloc 0 s of
        Ok (Some f, s') \<Rightarrow> ao_alloc_loop alloc dealloc n (frame_list @ [f]) s'
      | Ok (None, s') \<Rightarrow> (Err NoMemory, fold (vf_drop dealloc 1) frame_list s')
      | Err e \<Rightarrow> (Err e, s)
      | Panic \<Rightarrow> (Panic, s))"

definition ao_alloc ::
    "('s \<Rightarrow> nat \<Rightarrow> nat option \<times> 's) \<Rightarrow> ('s \<Rightarrow> nat \<Rightarrow> nat \<Rightarrow> 's) \<Rightarrow> vm_alloc_options \<Rightarrow> byte_mem \<Rightarrow> 's
     \<Rightarrow> (vm_frame list \<times> byte_mem) fres \<times> 's" where
  "ao_alloc alloc dealloc ops m s =
     (let (frames, s') =
        (if ao_is_contiguous ops then
           (case fa_alloc alloc (ao_nframes ops) 0 s of
              Ok (Some fs, s') \<Rightarrow> (Ok fs, s')
            | Ok (None, s') \<Rightarrow> (Err NoMemory, s')
            | Err e \<Rightarrow> (Err e, s)
            | Panic \<Rightarrow> (Panic, s))
         else ao_alloc_loop alloc dealloc (ao_nframes ops) [] s)
      in (rmap (\<lambda>fs. (fs, if ao_uninit ops then m else fv_zero fs m)) frames, s'))"

definition ao_alloc_single ::
    "('s \<Rightarrow> nat \<Rightarrow> nat option \<times> 's) \<Rightarrow> vm_alloc_options \<Rightarrow> byte_mem \<Rightarrow> 's \<Rightarrow> (vm_frame \<times> byte_mem) fres \<times> 's" where
  "ao_alloc_single alloc ops m s =
     (if ao_nframes ops \<noteq> 1 then (Err InvalidArgs, s)
      else (case fa_alloc_single alloc 0 s of
              Ok (Some f, s') \<Rightarrow> (Ok (f, if ao_uninit ops then m else vf_zero f m), s')
            | Ok (None, s') \<Rightarrow> (Err NoMemory, s')
            | Err e \<Rightarrow> (Err e, s)
            | Panic \<Rightarrow> (Panic, s)))"

definition ao_alloc_contiguous ::
    "('s \<Rightarrow> nat \<Rightarrow> nat option \<times> 's) \<Rightarrow> vm_alloc_options \<Rightarrow> byte_mem \<Rightarrow> 's \<Rightarrow> (vm_segment \<times> byte_mem) fres \<times> 's" where
  "ao_alloc_contiguous alloc ops m s =
     (if \<not> ao_is_contiguous ops \<or> ao_nframes ops = 0 then (Err InvalidArgs, s)
      else (case fa_alloc_contiguous alloc (ao_nframes ops) 0 s of
              Ok (Some g, s') \<Rightarrow> (Ok (g, if ao_uninit ops then m else seg_zero g m), s')
            | Ok (None, s') \<Rightarrow> (Err NoMemory, s')
            | Err e \<Rightarrow> (Err e, s)
            | Panic \<Rightarrow> (Panic, s)))"

section \<open>Frame handles\<close>

lemma index_flag_disjoint:
  assumes "i < 2 ^ 63"
  shows "(of_nat i OR NEED_DEALLOC) AND NOT NEED_DEALLOC = (of_nat i :: 64 word)"
    and "(of_nat i :: 64 word) AND NOT NEED_DEALLOC = of_nat i"
    and "(of_nat i :: 64 word) AND NEED_DEALLOC = 0"
proof -
  have N: "NEED_DEALLOC = push_bit 63 1" by (simp add: NEED_DEALLOC_def push_bit_eq_mult)
  have B: "bit NEED_DEALLOC n \<longleftrightarrow> n = 63" for n
    unfolding N bit_push_bit_iff bit_1_iff by (auto simp: possible_bit_word)
  have hi: "bit i n \<Longrightarrow> n < 63" for n
    using assms by (metis bit_take_bit_iff take_bit_nat_eq_self)
  show "(of_nat i OR NEED_DEALLOC) AND NOT NEED_DEALLOC = (of_nat i :: 64 word)"
    by (rule bit_eqI) (auto simp: B bit_and_iff bit_or_iff bit_not_iff bit_of_nat_iff dest: hi)
  show "(of_nat i :: 64 word) AND NOT NEED_DEALLOC = of_nat i"
    by (rule bit_eqI) (auto simp: B bit_and_iff bit_not_iff bit_of_nat_iff dest: hi)
  show "(of_nat i :: 64 word) AND NEED_DEALLOC = 0"
    by (rule bit_eqI) (auto simp: B bit_and_iff bit_of_nat_iff dest: hi)
qed

lemma vf_new_index:
  assumes "paddr mod PAGE_SIZE = 0" "paddr < USIZE_LIMIT" "vf_new paddr fl = Some f"
    "fl = 0 \<or> fl = NEED_DEALLOC"
  shows "vf_start_paddr f = paddr" "vf_need_dealloc f \<longleftrightarrow> fl = NEED_DEALLOC"
proof -
  have i: "paddr div PAGE_SIZE < 2 ^ 63" "paddr div PAGE_SIZE < 2 ^ 64" using assms(2) by simp_all
  have u: "unat (of_nat (paddr div PAGE_SIZE) :: 64 word) = paddr div PAGE_SIZE"
    by (rule unat_of_nat_usize) (use i in simp)
  have f: "f = of_nat (paddr div PAGE_SIZE) OR fl" using assms(1,3) by (simp add: vf_new_def)
  have "vf_frame_index f = paddr div PAGE_SIZE"
    using assms(4) u by (auto simp: vf_frame_index_def f index_flag_disjoint [OF i(1)])
  then show "vf_start_paddr f = paddr" using assms(1) by (simp add: vf_start_paddr_def mod_0_imp_dvd)
  have "NEED_DEALLOC \<noteq> 0" by (simp add: NEED_DEALLOC_def)
  then show "vf_need_dealloc f \<longleftrightarrow> fl = NEED_DEALLOC"
    using assms(4) index_flag_disjoint(3) [OF i(1)]
    by (auto simp: vf_need_dealloc_def f bit.conj_disj_distrib2)
qed

section \<open>Byte access to a collection of frames\<close>

definition fv_addr :: "vm_frame list \<Rightarrow> nat \<Rightarrow> nat" where
  "fv_addr fs i = vf_as_ptr (fs ! (i div PAGE_SIZE)) + i mod PAGE_SIZE"

definition frames_distinct :: "vm_frame list \<Rightarrow> bool" where
  "frames_distinct fs \<longleftrightarrow> distinct (map vf_frame_index fs)"

definition slice_apart :: "slice \<Rightarrow> vm_frame list \<Rightarrow> bool" where
  "slice_apart buf fs \<longleftrightarrow> (\<forall>i < fv_nbytes fs. fv_addr fs i \<notin> {fst buf ..< fst buf + snd buf})"

lemma fv_addr_Cons:
  "fv_addr (f # fs) i = (if i < PAGE_SIZE then vf_as_ptr f + i else fv_addr fs (i - PAGE_SIZE))"
  by (simp add: fv_addr_def nth_Cons' div_eq_0_iff le_div_geq le_mod_geq)

lemma fv_addr_drop:
  assumes "n * PAGE_SIZE + i < fv_nbytes fs"
  shows "fv_addr (drop n fs) i = fv_addr fs (n * PAGE_SIZE + i)"
proof -
  have "n < length fs" using assms by (simp add: fv_nbytes_def)
  then show ?thesis by (simp add: fv_addr_def)
qed

lemma vf_as_ptr_apart:
  assumes "vf_frame_index f \<noteq> vf_frame_index g" "i < PAGE_SIZE" "j < PAGE_SIZE"
  shows "vf_as_ptr f + i \<noteq> vf_as_ptr g + j"
proof
  assume "vf_as_ptr f + i = vf_as_ptr g + j"
  then have "vf_frame_index f * PAGE_SIZE + i = vf_frame_index g * PAGE_SIZE + j"
    by (simp add: vf_as_ptr_def paddr_to_vaddr_def vf_start_paddr_def)
  then have "(vf_frame_index f * PAGE_SIZE + i) div PAGE_SIZE = (vf_frame_index g * PAGE_SIZE + j) div PAGE_SIZE"
    by (rule arg_cong)
  then show False using assms by simp
qed

lemma fv_addr_apart:
  assumes "vf_frame_index f \<notin> vf_frame_index ` set fs" "i < PAGE_SIZE" "j < fv_nbytes fs"
  shows "vf_as_ptr f + i \<noteq> fv_addr fs j"
proof -
  have "j div PAGE_SIZE < length fs" using assms(3) by (simp add: fv_nbytes_def div_less_iff_less_mult)
  then have "vf_frame_index f \<noteq> vf_frame_index (fs ! (j div PAGE_SIZE))" using assms(1) by auto
  then show ?thesis unfolding fv_addr_def using vf_as_ptr_apart assms(2) by simp
qed

text \<open>The effect of a write: \<open>len\<close> bytes from \<open>src\<close> on the frames, from byte \<open>start\<close> on.\<close>

definition fv_written ::
    "vm_frame list \<Rightarrow> nat \<Rightarrow> nat \<Rightarrow> nat \<Rightarrow> byte_mem \<Rightarrow> byte_mem \<Rightarrow> bool" where
  "fv_written fs start src len m m' \<longleftrightarrow>
     (\<forall>i < fv_nbytes fs. m' (fv_addr fs i) =
        (if start \<le> i \<and> i < start + len then m (src + (i - start)) else m (fv_addr fs i))) \<and>
     (\<forall>a. (\<forall>i < fv_nbytes fs. a \<noteq> fv_addr fs i) \<longrightarrow> m' a = m a)"

lemma fv_nbytes_Cons: "fv_nbytes (f # fs) = PAGE_SIZE + fv_nbytes fs"
  by (simp add: fv_nbytes_def)

lemma fv_addr_Cons_tail: "fv_addr fs i = fv_addr (f # fs) (PAGE_SIZE + i)"
  by (simp add: fv_addr_Cons)

lemma fv_addr_Cons_head: "i < PAGE_SIZE \<Longrightarrow> vf_as_ptr f + i = fv_addr (f # fs) i"
  by (simp add: fv_addr_Cons)

lemma frames_distinct_Cons:
  "frames_distinct (f # fs) \<longleftrightarrow> vf_frame_index f \<notin> vf_frame_index ` set fs \<and> frames_distinct fs"
  by (simp add: frames_distinct_def)

lemma slice_apart_Cons:
  assumes "slice_apart (src, len) (f # fs)"
  shows "n \<le> len \<Longrightarrow> slice_apart (src + n, len - n) fs"
    and "i < PAGE_SIZE \<Longrightarrow> vf_as_ptr f + i \<notin> {src ..< src + len}"
proof -
  have "fv_addr (f # fs) i \<notin> {src ..< src + len}" if "i < PAGE_SIZE + fv_nbytes fs" for i
    using assms that by (simp add: slice_apart_def fv_nbytes_Cons)
  from this [of i] this [of "PAGE_SIZE + _"]
  show "n \<le> len \<Longrightarrow> slice_apart (src + n, len - n) fs"
    "i < PAGE_SIZE \<Longrightarrow> vf_as_ptr f + i \<notin> {src ..< src + len}"
    by (fastforce simp: slice_apart_def fv_addr_Cons)+
qed

lemma copy_into_frame:
  assumes "start + n \<le> PAGE_SIZE" "m1 = ptr_copy src (vf_as_ptr f + start) n m"
  shows "i < PAGE_SIZE \<Longrightarrow> m1 (vf_as_ptr f + i) =
      (if start \<le> i \<and> i < start + n then m (src + (i - start)) else m (vf_as_ptr f + i))"
    and "(\<And>i. i < PAGE_SIZE \<Longrightarrow> a \<noteq> vf_as_ptr f + i) \<Longrightarrow> m1 a = m a"
proof -
  show "m1 (vf_as_ptr f + i) =
      (if start \<le> i \<and> i < start + n then m (src + (i - start)) else m (vf_as_ptr f + i))"
    by (auto simp: assms(2) ptr_copy_def)
  assume out: "\<And>i. i < PAGE_SIZE \<Longrightarrow> a \<noteq> vf_as_ptr f + i"
  have "\<not> (vf_as_ptr f + start \<le> a \<and> a < vf_as_ptr f + start + n)"
    using out [of "a - vf_as_ptr f"] assms(1) by linarith
  then show "m1 a = m a" by (auto simp: assms(2) ptr_copy_def)
qed

lemma fv_written_Cons:
  assumes start: "start < PAGE_SIZE" and n: "n = min (PAGE_SIZE - start) len"
    and m1: "m1 = ptr_copy src (vf_as_ptr f + start) n m"
    and dist: "frames_distinct (f # fs)" and apart: "slice_apart (src, len) (f # fs)"
    and rest: "fv_written fs 0 (src + n) (len - n) m1 m'"
  shows "fv_written (f # fs) start src len m m'"
proof -
  have fit: "start + n \<le> PAGE_SIZE" using start n by simp
  note copied = copy_into_frame [OF fit m1]
  have src: "m1 (src + k) = m (src + k)" if "k < len" for k
    by (rule copied(2)) (use slice_apart_Cons(2) [OF apart] that in fastforce)
  have f_out: "vf_as_ptr f + i \<noteq> fv_addr fs j" if "i < PAGE_SIZE" "j < fv_nbytes fs" for i j
    using fv_addr_apart dist that by (simp add: frames_distinct_Cons)
  have "m' (fv_addr (f # fs) i) =
      (if start \<le> i \<and> i < start + len then m (src + (i - start)) else m (fv_addr (f # fs) i))"
    if i: "i < fv_nbytes (f # fs)" for i
  proof (cases "i < PAGE_SIZE")
    case True
    then have "m' (vf_as_ptr f + i) = m1 (vf_as_ptr f + i)"
      using rest f_out by (simp add: fv_written_def)
    then show ?thesis using copied(1) [OF True] True n by (auto simp: fv_addr_Cons)
  next
    case False
    then have j: "i - PAGE_SIZE < fv_nbytes fs" using i by (simp add: fv_nbytes_Cons)
    have "m1 (fv_addr fs (i - PAGE_SIZE)) = m (fv_addr fs (i - PAGE_SIZE))"
      by (rule copied(2)) (use f_out [OF _ j] in metis)
    then show ?thesis
      using False j rest src [of "i - start"] start n
      by (auto simp: fv_written_def fv_addr_Cons min_def)
  qed
  moreover have "m' a = m a" if a: "\<forall>i < fv_nbytes (f # fs). a \<noteq> fv_addr (f # fs) i" for a
  proof -
    have "m' a = m1 a"
      using rest a unfolding fv_written_def by (simp add: fv_addr_Cons_tail [of fs _ f] fv_nbytes_Cons)
    also have "\<dots> = m a"
      by (rule copied(2)) (use a in \<open>simp add: fv_addr_Cons_head [of _ f fs] fv_nbytes_Cons\<close>)
    finally show ?thesis .
  qed
  ultimately show ?thesis by (simp add: fv_written_def)
qed

lemma fv_write_loop_correct:
  assumes "start < PAGE_SIZE" "frames_distinct fs" "slice_apart (r_cursor r, vr_remain r) fs"
  shows "\<exists>r' m'. fv_write_loop fs start r m = Some (r', m') \<and>
    fv_written fs start (r_cursor r) (vr_remain r) m m'"
  using assms
proof (induction fs arbitrary: start r m)
  case Nil
  then show ?case by (simp add: fv_written_def fv_nbytes_def)
next
  case (Cons f fs)
  define n where "n = min (PAGE_SIZE - start) (vr_remain r)"
  define r1 where "r1 = r\<lparr>r_cursor := r_cursor r + n\<rparr>"
  define m1 where "m1 = ptr_copy (r_cursor r) (vf_as_ptr f + start) n m"
  have skip: "vw_skip (vf_writer f) start = Some \<lparr>w_cursor = vf_as_ptr f + start, w_end = vf_as_ptr f + PAGE_SIZE\<rparr>"
    using Cons.prems(1) by (simp add: vw_skip_def vf_writer_def vw_from_raw_parts_mut_def vw_avail_def)
  show ?case
  proof (cases "vr_remain r = 0")
    case True
    then have "fv_write_loop (f # fs) start r m = Some (r, m)" using skip by (simp add: vw_write_def)
    then show ?thesis using True by (auto simp: fv_written_def)
  next
    case False
    then have "n \<noteq> 0" using Cons.prems(1) by (simp add: n_def)
    then have step: "fv_write_loop (f # fs) start r m = fv_write_loop fs 0 r1 m1"
      using skip by (simp add: vw_write_def vw_avail_def Let_def r1_def m1_def flip: n_def)
    have r1: "r_cursor r1 = r_cursor r + n" "vr_remain r1 = vr_remain r - n"
      by (simp_all add: vr_remain_def r1_def)
    have "\<exists>r' m'. fv_write_loop fs 0 r1 m1 = Some (r', m') \<and>
        fv_written fs 0 (r_cursor r1) (vr_remain r1) m1 m'"
      using Cons.IH [of 0 r1 m1] Cons.prems(2) slice_apart_Cons(1) [OF Cons.prems(3), of n]
      by (simp add: frames_distinct_Cons r1 n_def)
    then show ?thesis
      using fv_written_Cons [OF Cons.prems(1) n_def m1_def Cons.prems(2,3)] step r1 by metis
  qed
qed


text \<open>The effect of a read: the bytes of the frames from \<open>start\<close> on, as many as fit.\<close>

definition fv_was_read ::
    "vm_frame list \<Rightarrow> nat \<Rightarrow> nat \<Rightarrow> nat \<Rightarrow> byte_mem \<Rightarrow> byte_mem \<Rightarrow> bool" where
  "fv_was_read fs start dst len m m' \<longleftrightarrow>
     (\<forall>a. m' a = (if dst \<le> a \<and> a < dst + min len (fv_nbytes fs - start)
                  then m (fv_addr fs (start + (a - dst))) else m a))"

lemma fv_was_read_Cons:
  assumes start: "start < PAGE_SIZE" and n: "n = min (PAGE_SIZE - start) len"
    and m1: "m1 = ptr_copy (vf_as_ptr f + start) dst n m"
    and apart: "slice_apart (dst, len) (f # fs)"
    and rest: "fv_was_read fs 0 (dst + n) (len - n) m1 m'"
  shows "fv_was_read (f # fs) start dst len m m'"
  unfolding fv_was_read_def
proof (intro allI)
  fix a
  let ?k = "min (len - n) (fv_nbytes fs)"
  have frame: "m1 (fv_addr fs j) = m (fv_addr fs j)" if "j < fv_nbytes fs" for j
  proof -
    have "fv_addr fs j \<notin> {dst ..< dst + len}"
      using apart that by (simp add: slice_apart_def fv_nbytes_Cons fv_addr_Cons_tail [of fs j f])
    then show ?thesis using n by (auto simp: m1 ptr_copy_def)
  qed
  have m'a: "m' a = (if dst + n \<le> a \<and> a < dst + n + ?k then m1 (fv_addr fs (a - (dst + n))) else m1 a)"
    using rest by (simp add: fv_was_read_def)
  consider "a < dst" | "dst \<le> a" "a < dst + n" | "dst + n \<le> a" "a < dst + n + ?k" | "dst + n + ?k \<le> a"
    by linarith
  then show "m' a = (if dst \<le> a \<and> a < dst + min len (fv_nbytes (f # fs) - start)
      then m (fv_addr (f # fs) (start + (a - dst))) else m a)"
  proof cases
    case 2
    then show ?thesis using start n m'a by (auto simp: m1 ptr_copy_def fv_addr_Cons fv_nbytes_Cons add.assoc)
  next
    case 3
    then have "n = PAGE_SIZE - start" using n by auto
    then have "fv_addr (f # fs) (start + (a - dst)) = fv_addr fs (a - (dst + n))"
      using 3(1) start unfolding fv_addr_Cons_tail [of fs _ f] by (intro arg_cong [of _ _ "fv_addr _"]) linarith
    moreover have "a - (dst + n) < fv_nbytes fs" using 3 by linarith
    then have "m' a = m (fv_addr fs (a - (dst + n)))" using m'a 3 frame by presburger
    moreover have "a < dst + min len (fv_nbytes (f # fs) - start)"
      using 3(2) n start unfolding fv_nbytes_Cons by linarith
    ultimately show ?thesis using 3(1) by simp
  next
    case 4
    then have "\<not> a < dst + min len (fv_nbytes (f # fs) - start)"
      using n start unfolding fv_nbytes_Cons by linarith
    then show ?thesis using 4 m'a by (simp add: m1 ptr_copy_def)
  qed (use start n m'a in \<open>simp add: m1 ptr_copy_def\<close>)
qed

lemma fv_read_loop_correct:
  assumes "start < PAGE_SIZE" "slice_apart (w_cursor w, vw_avail w) fs"
  shows "\<exists>w' m'. fv_read_loop fs start w m = Some (w', m') \<and>
    fv_was_read fs start (w_cursor w) (vw_avail w) m m'"
  using assms
proof (induction fs arbitrary: start w m)
  case Nil
  then show ?case by (auto simp: fv_was_read_def fv_nbytes_def)
next
  case (Cons f fs)
  define n where "n = min (PAGE_SIZE - start) (vw_avail w)"
  define w1 where "w1 = w\<lparr>w_cursor := w_cursor w + n\<rparr>"
  define m1 where "m1 = ptr_copy (vf_as_ptr f + start) (w_cursor w) n m"
  have skip: "vr_skip (vf_reader f) start = Some \<lparr>r_cursor = vf_as_ptr f + start, r_end = vf_as_ptr f + PAGE_SIZE\<rparr>"
    using Cons.prems(1) by (simp add: vr_skip_def vf_reader_def vr_from_raw_parts_def vr_remain_def)
  show ?case
  proof (cases "vw_avail w = 0")
    case True
    then have "fv_read_loop (f # fs) start w m = Some (w, m)" using skip by (simp add: vr_read_def)
    then show ?thesis using True by (auto simp: fv_was_read_def)
  next
    case False
    then have "n \<noteq> 0" using Cons.prems(1) by (simp add: n_def)
    then have step: "fv_read_loop (f # fs) start w m = fv_read_loop fs 0 w1 m1"
      using skip by (simp add: vr_read_def vr_remain_def Let_def w1_def m1_def flip: n_def)
    have w1: "w_cursor w1 = w_cursor w + n" "vw_avail w1 = vw_avail w - n"
      by (simp_all add: vw_avail_def w1_def)
    have "\<exists>w' m'. fv_read_loop fs 0 w1 m1 = Some (w', m') \<and>
        fv_was_read fs 0 (w_cursor w1) (vw_avail w1) m1 m'"
      using Cons.IH [of 0 w1 m1] slice_apart_Cons(1) [OF Cons.prems(2), of n] by (simp add: w1 n_def)
    then show ?thesis
      using fv_was_read_Cons [OF Cons.prems(1) n_def m1_def Cons.prems(2)] step w1 by metis
  qed
qed

lemma slice_apart_drop: "slice_apart buf fs \<Longrightarrow> slice_apart buf (drop n fs)"
proof -
  assume a: "slice_apart buf fs"
  show ?thesis
    unfolding slice_apart_def
  proof (intro allI impI)
    fix i assume "i < fv_nbytes (drop n fs)"
    then have "n * PAGE_SIZE + i < fv_nbytes fs" by (simp add: fv_nbytes_def diff_mult_distrib)
    then show "fv_addr (drop n fs) i \<notin> {fst buf ..< fst buf + snd buf}"
      using a fv_addr_drop [of n i fs] by (simp add: slice_apart_def)
  qed
qed

lemma slice_reader [simp]: "r_cursor (vr_of_slice b) = fst b" "vr_remain (vr_of_slice b) = snd b"
  by (simp_all add: vr_of_slice_def vr_from_raw_parts_def vr_remain_def)

lemma slice_writer [simp]: "w_cursor (vw_of_slice b) = fst b" "vw_avail (vw_of_slice b) = snd b"
  by (simp_all add: vw_of_slice_def vw_from_raw_parts_mut_def vw_avail_def)


lemma fv_addr_inj:
  assumes "frames_distinct fs" "i < fv_nbytes fs" "j < fv_nbytes fs" "fv_addr fs i = fv_addr fs j"
  shows "i = j"
proof -
  have ij: "i div PAGE_SIZE < length fs" "j div PAGE_SIZE < length fs"
    using assms(2,3) by (simp_all add: fv_nbytes_def div_less_iff_less_mult)
  then have "i div PAGE_SIZE = j div PAGE_SIZE"
    using assms(1,4) vf_as_ptr_apart [of "fs ! (i div PAGE_SIZE)" "fs ! (j div PAGE_SIZE)"]
    by (force simp: fv_addr_def frames_distinct_def distinct_conv_nth)
  moreover have "i mod PAGE_SIZE = j mod PAGE_SIZE" using assms(4) calculation by (simp add: fv_addr_def)
  ultimately show ?thesis by (metis div_mult_mod_eq)
qed

lemma fv_written_drop:
  assumes "frames_distinct fs" "off \<le> fv_nbytes fs"
    and "fv_written (drop (off div PAGE_SIZE) fs) (off mod PAGE_SIZE) src len m m'"
  shows "fv_written fs off src len m m'"
proof -
  let ?n = "off div PAGE_SIZE" and ?s = "off mod PAGE_SIZE"
  have off: "off = ?n * PAGE_SIZE + ?s" by simp
  have nb: "fv_nbytes (drop ?n fs) = fv_nbytes fs - ?n * PAGE_SIZE"
    by (simp add: fv_nbytes_def diff_mult_distrib)
  have drp: "fv_addr (drop ?n fs) j = fv_addr fs (?n * PAGE_SIZE + j)" if "j < fv_nbytes (drop ?n fs)" for j
    using that nb by (intro fv_addr_drop) simp
  have out: "m' a = m a" if "\<And>j. ?n * PAGE_SIZE \<le> j \<Longrightarrow> j < fv_nbytes fs \<Longrightarrow> a \<noteq> fv_addr fs j" for a
    using assms(3) that [of "?n * PAGE_SIZE + _"] drp nb unfolding fv_written_def by auto
  have "m' (fv_addr fs i) = (if off \<le> i \<and> i < off + len then m (src + (i - off)) else m (fv_addr fs i))"
    if i: "i < fv_nbytes fs" for i
  proof (cases "i < ?n * PAGE_SIZE")
    case True
    have "m' (fv_addr fs i) = m (fv_addr fs i)"
      by (rule out) (use fv_addr_inj [OF assms(1) i] True in fastforce)
    then show ?thesis using True off by auto
  next
    case False
    then have j: "i - ?n * PAGE_SIZE < fv_nbytes (drop ?n fs)" "i = ?n * PAGE_SIZE + (i - ?n * PAGE_SIZE)"
      using i nb by simp_all
    then have "fv_addr (drop ?n fs) (i - ?n * PAGE_SIZE) = fv_addr fs i" using drp by metis
    moreover have "?s \<le> i - ?n * PAGE_SIZE \<longleftrightarrow> off \<le> i" "i - ?n * PAGE_SIZE < ?s + len \<longleftrightarrow> i < off + len"
      "i - ?n * PAGE_SIZE - ?s = i - off" using False off by linarith+
    ultimately show ?thesis using assms(3) j(1) unfolding fv_written_def by metis
  qed
  then show ?thesis using out unfolding fv_written_def by blast
qed

lemma fv_was_read_drop:
  assumes "off + len \<le> fv_nbytes fs"
    and "fv_was_read (drop (off div PAGE_SIZE) fs) (off mod PAGE_SIZE) dst len m m'"
  shows "m' = (\<lambda>a. if dst \<le> a \<and> a < dst + len then m (fv_addr fs (off + (a - dst))) else m a)"
proof
  fix a
  let ?n = "off div PAGE_SIZE" and ?s = "off mod PAGE_SIZE"
  have off: "off = ?n * PAGE_SIZE + ?s" by simp
  have nb: "fv_nbytes (drop ?n fs) - ?s = fv_nbytes fs - off"
    unfolding fv_nbytes_def by (simp add: diff_mult_distrib)
  have "fv_addr (drop ?n fs) (?s + (a - dst)) = fv_addr fs (off + (a - dst))" if "dst \<le> a" "a < dst + len"
    using fv_addr_drop [of ?n "?s + (a - dst)" fs] that assms(1) off by (simp add: add.assoc)
  then show "m' a = (if dst \<le> a \<and> a < dst + len then m (fv_addr fs (off + (a - dst))) else m a)"
    using assms unfolding fv_was_read_def nb by simp
qed

lemma fv_write_bytes_Ok:
  assumes "frames_distinct fs" "slice_apart buf fs" "off + snd buf \<le> fv_nbytes fs" "off + snd buf < USIZE_LIMIT"
  shows "\<exists>m'. fv_write_bytes fs off buf m = Ok m' \<and> fv_written fs off (fst buf) (snd buf) m m'"
proof -
  have "frames_distinct (drop (off div PAGE_SIZE) fs)"
    using assms(1) by (simp add: frames_distinct_def flip: drop_map)
  from fv_write_loop_correct [OF _ this, of "off mod PAGE_SIZE" "vr_of_slice buf" m]
  obtain r' m' where "fv_write_loop (drop (off div PAGE_SIZE) fs) (off mod PAGE_SIZE) (vr_of_slice buf) m = Some (r', m')"
    "fv_written (drop (off div PAGE_SIZE) fs) (off mod PAGE_SIZE) (fst buf) (snd buf) m m'"
    using slice_apart_drop [OF assms(2), of "off div PAGE_SIZE"] by auto
  then show ?thesis
    using fv_written_drop [OF assms(1)] assms(3,4) by (simp add: fv_write_bytes_def usize_add_def add.commute)
qed

lemma fv_read_bytes_Ok:
  assumes "slice_apart buf fs" "off + snd buf \<le> fv_nbytes fs" "off + snd buf < USIZE_LIMIT"
  shows "fv_read_bytes fs off buf m =
    Ok (\<lambda>a. if fst buf \<le> a \<and> a < fst buf + snd buf then m (fv_addr fs (off + (a - fst buf))) else m a)"
proof -
  from fv_read_loop_correct [of "off mod PAGE_SIZE" "vw_of_slice buf" "drop (off div PAGE_SIZE) fs" m]
  obtain w' m' where "fv_read_loop (drop (off div PAGE_SIZE) fs) (off mod PAGE_SIZE) (vw_of_slice buf) m = Some (w', m')"
    "fv_was_read (drop (off div PAGE_SIZE) fs) (off mod PAGE_SIZE) (fst buf) (snd buf) m m'"
    using slice_apart_drop [OF assms(1), of "off div PAGE_SIZE"] by auto
  then show ?thesis
    using fv_was_read_drop [OF assms(2)] assms(2,3) by (simp add: fv_read_bytes_def usize_add_def add.commute)
qed

section \<open>Properties\<close>

text \<open>C16: Writing a buffer at a byte offset of a collection of distinct frames that the buffer does
  not overlap. If it fits, exactly the bytes from the offset on become the buffer's, across frame
  boundaries, and no other memory changes; if it does not fit, \<^verbatim>\<open>InvalidArgs\<close> is returned
  before anything is written.\<close>

theorem fv_write_bytes_correct:
  assumes "frames_distinct fs" "slice_apart buf fs" "off + snd buf < USIZE_LIMIT"
  shows "if off + snd buf \<le> fv_nbytes fs
    then \<exists>m'. fv_write_bytes fs off buf m = Ok m' \<and>
      (\<forall>i < fv_nbytes fs. m' (fv_addr fs i) =
         (if off \<le> i \<and> i < off + snd buf then m (fst buf + (i - off)) else m (fv_addr fs i))) \<and>
      (\<forall>a. (\<forall>i < fv_nbytes fs. a \<noteq> fv_addr fs i) \<longrightarrow> m' a = m a)
    else fv_write_bytes fs off buf m = Err InvalidArgs"
  using fv_write_bytes_Ok [OF assms(1,2) _ assms(3), of m] assms(3)
  by (auto simp: fv_written_def fv_write_bytes_def usize_add_def add.commute)

text \<open>Writing a buffer to a collection of frames and reading as many bytes back from the same
  offset into a second buffer gives the second buffer the content of the first.\<close>

theorem fv_read_after_write:
  assumes "frames_distinct fs" "slice_apart buf fs" "slice_apart out fs" "snd out = snd buf"
    and "off + snd buf \<le> fv_nbytes fs" "off + snd buf < USIZE_LIMIT"
  shows "\<exists>m' m''. fv_write_bytes fs off buf m = Ok m' \<and> fv_read_bytes fs off out m' = Ok m'' \<and>
    (\<forall>k < snd buf. m'' (fst out + k) = m (fst buf + k))"
proof -
  obtain m' where m': "fv_write_bytes fs off buf m = Ok m'" "fv_written fs off (fst buf) (snd buf) m m'"
    using fv_write_bytes_Ok [OF assms(1,2,5,6)] by blast
  show ?thesis
    using m' fv_read_bytes_Ok [OF assms(3), of off m'] assms(4-6)
    by (auto simp: fv_written_def)
qed

text \<open>A sub-range of a segment stays inside it: \<^verbatim>\<open>VmSegment::range\<close> of a segment whose
  range is within its allocation returns a non-empty segment that starts at the requested frame
  of the parent and ends no later than the parent, and it panics on every other request.\<close>

theorem seg_range_inside:
  assumes "snd (seg_range s) \<le> seg_inner_nframes s"
  shows "case seg_range_of s (a, b) of
      Some s' \<Rightarrow> a < b \<and> seg_start_paddr s' = seg_start_paddr s + a * PAGE_SIZE \<and>
        seg_nbytes s' = (b - a) * PAGE_SIZE \<and> seg_end_paddr s' \<le> seg_end_paddr s \<and>
        snd (seg_range s') \<le> seg_inner_nframes s'
    | None \<Rightarrow> \<not> (a < b \<and> b \<le> seg_nframes s)"
  using assms
  by (auto simp: seg_range_of_def Let_def seg_start_paddr_def seg_start_frame_index_def seg_inner_start_def
      seg_nbytes_def seg_nframes_def seg_end_paddr_def algebra_simps)

text \<open>The iterator \<^verbatim>\<open>VmFrameVecIter\<close> never advances: however often it is asked, on a
  non-empty collection it returns the first frame and stays where it is, so a loop over it does
  not end.\<close>

theorem fvi_next_stuck:
  "fs \<noteq> [] \<Longrightarrow> fvi_next (((snd \<circ> fvi_next) ^^ n) (fvi_new fs)) = (Some (hd fs), fvi_new fs)"
proof -
  assume "fs \<noteq> []"
  then have "fvi_next (fvi_new fs) = (Some (hd fs), fvi_new fs)"
    by (simp add: fvi_next_def fvi_new_def hd_conv_nth)
  then have "((snd \<circ> fvi_next) ^^ n) (fvi_new fs) = fvi_new fs" by (induction n) simp_all
  then show ?thesis using \<open>fvi_next (fvi_new fs) = _\<close> by simp
qed

section \<open>Witnesses\<close>

definition demo_vec :: "vm_frame list" where
  "demo_vec = [16, 17]"

definition demo_mem :: byte_mem where
  "demo_mem = (\<lambda>a. of_nat a)"

lemma low_slice_apart: "fst buf + snd buf \<le> PHYS_OFFSET \<Longrightarrow> slice_apart buf fs"
  by (auto simp: slice_apart_def fv_addr_def vf_as_ptr_def paddr_to_vaddr_def)

lemma demo_vec_ok: "frames_distinct demo_vec" "fv_nbytes demo_vec = 8192"
    "slice_apart (0x1000, 12) demo_vec" "slice_apart (0x3000, 12) demo_vec"
proof -
  show "frames_distinct demo_vec"
    by (simp add: frames_distinct_def demo_vec_def vf_frame_index_def NEED_DEALLOC_def)
  show "slice_apart (0x1000, 12) demo_vec" "slice_apart (0x3000, 12) demo_vec"
    by (rule low_slice_apart; simp add: PHYS_OFFSET_def)+
qed (simp add: fv_nbytes_def demo_vec_def)

theorem fv_write_bytes_correct_witness:
  "\<exists>m'. fv_write_bytes demo_vec 4090 (0x1000, 12) demo_mem = Ok m' \<and>
     m' (fv_addr demo_vec 4100) = demo_mem (0x1000 + 10) \<and>
     m' (fv_addr demo_vec 4102) = demo_mem (fv_addr demo_vec 4102)"
  using fv_write_bytes_correct [OF demo_vec_ok(1,3), of 4090 demo_mem] demo_vec_ok(2) by auto

theorem fv_read_after_write_witness:
  "\<exists>m' m''. fv_write_bytes demo_vec 4090 (0x1000, 12) demo_mem = Ok m' \<and>
     fv_read_bytes demo_vec 4090 (0x3000, 12) m' = Ok m'' \<and> m'' 0x300A = demo_mem 0x100A"
proof -
  obtain m' m'' where w: "fv_write_bytes demo_vec 4090 (0x1000, 12) demo_mem = Ok m'"
    "fv_read_bytes demo_vec 4090 (0x3000, 12) m' = Ok m''"
    "\<forall>k < 12. m'' (0x3000 + k) = demo_mem (0x1000 + k)"
    using fv_read_after_write [OF demo_vec_ok(1,3,4), of 4090 demo_mem] demo_vec_ok(2) by auto
  from w(3) [rule_format, of 10] show ?thesis using w(1,2) by auto
qed

theorem seg_range_inside_witness:
  "\<exists>s'. seg_range_of \<lparr>seg_index = 16, seg_inner_nframes = 8, seg_range = (0, 8)\<rparr> (2, 5) = Some s' \<and>
     seg_start_paddr s' = 18 * PAGE_SIZE"
  using seg_range_inside [of "\<lparr>seg_index = 16, seg_inner_nframes = 8, seg_range = (0, 8)\<rparr>" 2 5]
  by (auto split: option.splits simp: seg_nframes_def seg_start_paddr_def seg_start_frame_index_def
      seg_inner_start_def NEED_DEALLOC_def)

theorem fvi_next_stuck_witness:
  "fvi_next (((snd \<circ> fvi_next) ^^ 5) (fvi_new demo_vec)) = (Some 16, fvi_new demo_vec)"
  using fvi_next_stuck [of demo_vec 5] by (simp add: demo_vec_def)

end
