(* ===== verification/Vm_Space.thy ===== *)
theory Vm_Space
  imports Vm_Frame Page_Table_Correct BTree_Map
begin

text \<open>
  User address spaces: \<^verbatim>\<open>framework/aster-frame/src/vm/memory_set.rs\<close> (\<^verbatim>\<open>MapArea\<close>,
  \<^verbatim>\<open>MemorySet\<close>) and \<^verbatim>\<open>vm/space.rs\<close> (\<^verbatim>\<open>VmSpace\<close>,
  \<^verbatim>\<open>VmMapOptions\<close>, \<^verbatim>\<open>VmPerm\<close>).

  A \<^verbatim>\<open>MemorySet\<close> is a page table and the ordered map of its areas; \<^verbatim>\<open>VmSpace\<close>
  is a \<^verbatim>\<open>MemorySet\<close> behind a lock, so its state is the same record. Operations that can
  only panic return an option; a fallible one returns its outcome and the new state, which
  differs from the old one also where the code fails half way.
\<close>

section \<open>Permissions\<close>

definition VM_R :: "8 word" where "VM_R = 1"
definition VM_W :: "8 word" where "VM_W = 2"
definition VM_X :: "8 word" where "VM_X = 4"
definition VM_U :: "8 word" where "VM_U = 8"

definition vm_perm_contains :: "8 word \<Rightarrow> 8 word \<Rightarrow> bool" where
  "vm_perm_contains p q \<longleftrightarrow> p AND q = q"

definition vm_perm_try_from :: "64 word \<Rightarrow> (8 word) fres" where
  "vm_perm_try_from value =
     (let bits = (ucast value :: 8 word) in
      if bits AND NOT (VM_R OR VM_W OR VM_X OR VM_U) = 0 then Ok bits else Err InvalidArgs)"

definition vm_perm_flags :: "8 word \<Rightarrow> 64 word" where
  "vm_perm_flags vm_perm =
     (let flags0 = PRESENT OR USER;
          flags1 = (if vm_perm_contains vm_perm VM_W then flags0 OR WRITABLE else flags0)
      in if \<not> vm_perm_contains vm_perm VM_X then flags1 OR NO_EXECUTE else flags1)"

section \<open>Areas\<close>

definition is_page_aligned :: "nat \<Rightarrow> bool" where
  "is_page_aligned p \<longleftrightarrow> p mod PAGE_SIZE = 0"

record map_area =
  area_flags :: "64 word"
  area_start_va :: nat
  area_size :: nat
  area_mapper :: "(nat \<times> vm_frame) list"

definition area_map_with_physical_address ::
    "map_area \<Rightarrow> nat \<Rightarrow> vm_frame \<Rightarrow> (nat \<times> map_area) option" where
  "area_map_with_physical_address area va pa =
     (if \<not> is_page_aligned va then None
      else case map_of (area_mapper area) va of
             Some _ \<Rightarrow> None
           | None \<Rightarrow> Some (vf_start_paddr pa, area\<lparr>area_mapper := btm_insert va pa (area_mapper area)\<rparr>))"

fun area_new_loop :: "map_area \<Rightarrow> nat \<Rightarrow> vm_frame list \<Rightarrow> map_area option" where
  "area_new_loop area current_va [] = Some area"
| "area_new_loop area current_va (f # fs) =
     (case area_map_with_physical_address area current_va f of
        None \<Rightarrow> None
      | Some (_, area') \<Rightarrow>
          Option.bind (checked_add current_va PAGE_SIZE) (\<lambda>va. area_new_loop area' va fs))"

definition area_new :: "nat \<Rightarrow> nat \<Rightarrow> 64 word \<Rightarrow> vm_frame list \<Rightarrow> map_area option" where
  "area_new start_va sz flags physical_frames =
     (if is_page_aligned start_va \<and> is_page_aligned sz \<and> length physical_frames = sz div PAGE_SIZE
      then area_new_loop \<lparr>area_flags = flags, area_start_va = start_va, area_size = sz, area_mapper = []\<rparr>
             start_va physical_frames
      else None)"

definition area_map ::
    "('s \<Rightarrow> nat \<Rightarrow> nat option \<times> 's) \<Rightarrow> map_area \<Rightarrow> nat \<Rightarrow> byte_mem \<Rightarrow> 's \<Rightarrow> (nat \<times> map_area \<times> byte_mem \<times> 's) option" where
  "area_map alloc area va m s =
     (if \<not> is_page_aligned va then None
      else case map_of (area_mapper area) va of
             Some f \<Rightarrow> Some (vf_start_paddr f, area, m, s)
           | None \<Rightarrow>
               (case ao_alloc_single alloc (ao_new 1) m s of
                  (Ok (f, m'), s') \<Rightarrow>
                    Some (vf_start_paddr f, area\<lparr>area_mapper := btm_insert va f (area_mapper area)\<rparr>, m', s')
                | _ \<Rightarrow> None))"

definition area_unmap :: "map_area \<Rightarrow> nat \<Rightarrow> vm_frame option \<times> map_area" where
  "area_unmap area va =
     (map_of (area_mapper area) va, area\<lparr>area_mapper := btm_remove va (area_mapper area)\<rparr>)"

fun area_write_loop :: "(nat \<times> vm_frame) list \<Rightarrow> nat \<Rightarrow> vm_reader \<Rightarrow> byte_mem \<Rightarrow> byte_mem option" where
  "area_write_loop [] current r m = Some m"
| "area_write_loop ((va, pa) # xs) current r m =
     (if current \<ge> va \<and> current < va + PAGE_SIZE then
        (case vw_skip (vf_writer pa) (current - va) of
           None \<Rightarrow> None
         | Some w \<Rightarrow>
             (case vw_write w r m of
                (_, _, r', m') \<Rightarrow>
                  if \<not> vr_has_remain r' then Some m' else area_write_loop xs (va + PAGE_SIZE) r' m'))
      else area_write_loop xs current r m)"

definition area_write_data :: "map_area \<Rightarrow> nat \<Rightarrow> slice \<Rightarrow> byte_mem \<Rightarrow> byte_mem option" where
  "area_write_data area addr data m = area_write_loop (area_mapper area) addr (vr_of_slice data) m"

fun area_read_loop :: "(nat \<times> vm_frame) list \<Rightarrow> nat \<Rightarrow> vm_writer \<Rightarrow> byte_mem \<Rightarrow> byte_mem option" where
  "area_read_loop [] start w m = Some m"
| "area_read_loop ((va, pa) # xs) start w m =
     (if start \<ge> va \<and> start < va + PAGE_SIZE then
        (case vr_skip (vf_reader pa) (start - va) of
           None \<Rightarrow> None
         | Some r \<Rightarrow>
             (case vr_read r w m of
                (_, _, w', m') \<Rightarrow>
                  if \<not> vw_has_avail w' then Some m' else area_read_loop xs (va + PAGE_SIZE) w' m'))
      else area_read_loop xs start w m)"

definition area_read_data :: "map_area \<Rightarrow> nat \<Rightarrow> slice \<Rightarrow> byte_mem \<Rightarrow> byte_mem option" where
  "area_read_data area addr data m = area_read_loop (area_mapper area) addr (vw_of_slice data) m"

fun area_clone_loop ::
    "('s \<Rightarrow> nat \<Rightarrow> nat option \<times> 's) \<Rightarrow> (nat \<times> vm_frame) list \<Rightarrow> (nat \<times> vm_frame) list \<Rightarrow> byte_mem \<Rightarrow> 's
     \<Rightarrow> ((nat \<times> vm_frame) list \<times> byte_mem \<times> 's) option" where
  "area_clone_loop alloc [] mapper m s = Some (mapper, m, s)"
| "area_clone_loop alloc ((va, old) # xs) mapper m s =
     (case ao_alloc_single alloc ((ao_new 1)\<lparr>ao_uninit := True\<rparr>) m s of
        (Ok (new, m'), s') \<Rightarrow>
          area_clone_loop alloc xs (btm_insert va new mapper) (vf_copy_from_frame new old m') s'
      | _ \<Rightarrow> None)"

definition area_clone ::
    "('s \<Rightarrow> nat \<Rightarrow> nat option \<times> 's) \<Rightarrow> map_area \<Rightarrow> byte_mem \<Rightarrow> 's \<Rightarrow> (map_area \<times> byte_mem \<times> 's) option" where
  "area_clone alloc area m s =
     map_option (\<lambda>(mapper, m', s'). (area\<lparr>area_mapper := mapper\<rparr>, m', s'))
       (area_clone_loop alloc (area_mapper area) [] m s)"

section \<open>Memory sets\<close>

record memory_set =
  ms_pt :: page_table
  ms_areas :: "(nat \<times> map_area) list"

fun ms_map_pages :: "page_table \<Rightarrow> 64 word \<Rightarrow> (nat \<times> vm_frame) list \<Rightarrow> page_table option" where
  "ms_map_pages pt flags [] = Some pt"
| "ms_map_pages pt flags ((va, frame) # xs) =
     (if \<not> vf_start_paddr frame < PHYS_OFFSET then None
      else case user_map pt va (vf_start_paddr frame) flags of
             (Ok _, pt') \<Rightarrow> ms_map_pages pt' flags xs
           | _ \<Rightarrow> None)"

definition ms_map :: "memory_set \<Rightarrow> map_area \<Rightarrow> memory_set option" where
  "ms_map ms area =
     (if area_size area > 0 then
        (case map_of (ms_areas ms) (area_start_va area) of
           Some _ \<Rightarrow> None
         | None \<Rightarrow>
             map_option
               (\<lambda>pt. ms\<lparr>ms_pt := pt, ms_areas := btm_insert (area_start_va area) area (ms_areas ms)\<rparr>)
               (ms_map_pages (ms_pt ms) (area_flags area) (area_mapper area)))
      else Some ms)"

fun is_mapped_loop :: "(nat \<times> map_area) list \<Rightarrow> nat \<Rightarrow> bool" where
  "is_mapped_loop [] vaddr = False"
| "is_mapped_loop ((start, area) # xs) vaddr =
     (if start > vaddr then False
      else if start \<le> vaddr \<and> vaddr < start + area_size area then True
      else is_mapped_loop xs vaddr)"

definition ms_is_mapped :: "memory_set \<Rightarrow> nat \<Rightarrow> bool" where
  "ms_is_mapped ms vaddr = is_mapped_loop (ms_areas ms) vaddr"

fun add_kernel_ptes :: "page_table \<Rightarrow> (nat \<times> 64 word) list \<Rightarrow> page_table option" where
  "add_kernel_ptes pt [] = Some pt"
| "add_kernel_ptes pt ((index, pte) # xs) =
     Option.bind (add_root_mapping pt index pte) (\<lambda>pt'. add_kernel_ptes pt' xs)"

definition ms_new :: "(nat \<Rightarrow> 64 word) \<Rightarrow> nat list \<Rightarrow> (nat \<times> 64 word) list \<Rightarrow> memory_set option" where
  "ms_new m supply mapped_pte =
     Option.bind (pt_new m supply 4) (\<lambda>pt.
       map_option (\<lambda>pt'. \<lparr>ms_pt = pt', ms_areas = []\<rparr>) (add_kernel_ptes pt mapped_pte))"

fun ms_unmap_pages :: "page_table \<Rightarrow> (nat \<times> vm_frame) list \<Rightarrow> page_table option" where
  "ms_unmap_pages pt [] = Some pt"
| "ms_unmap_pages pt ((va, _) # xs) =
     (case user_unmap pt va of (Ok _, pt') \<Rightarrow> ms_unmap_pages pt' xs | _ \<Rightarrow> None)"

definition ms_unmap :: "memory_set \<Rightarrow> nat \<Rightarrow> unit fres \<times> memory_set" where
  "ms_unmap ms va =
     (case map_of (ms_areas ms) va of
        None \<Rightarrow> (Err PageFault, ms)
      | Some area \<Rightarrow>
          (case ms_unmap_pages (ms_pt ms) (area_mapper area) of
             None \<Rightarrow> (Panic, ms)
           | Some pt \<Rightarrow> (Ok (), ms\<lparr>ms_pt := pt, ms_areas := btm_remove va (ms_areas ms)\<rparr>)))"

fun ms_clear_areas :: "page_table \<Rightarrow> (nat \<times> map_area) list \<Rightarrow> page_table option" where
  "ms_clear_areas pt [] = Some pt"
| "ms_clear_areas pt ((_, area) # xs) =
     Option.bind (ms_unmap_pages pt (area_mapper area)) (\<lambda>pt'. ms_clear_areas pt' xs)"

definition ms_clear :: "memory_set \<Rightarrow> memory_set option" where
  "ms_clear ms =
     map_option (\<lambda>pt. ms\<lparr>ms_pt := pt, ms_areas := []\<rparr>) (ms_clear_areas (ms_pt ms) (ms_areas ms))"

fun ms_write_loop ::
    "(nat \<times> map_area) list \<Rightarrow> nat \<Rightarrow> nat \<Rightarrow> nat \<Rightarrow> slice \<Rightarrow> byte_mem \<Rightarrow> unit fres \<times> byte_mem" where
  "ms_write_loop [] current_addr remain offset data m = (Err PageFault, m)"
| "ms_write_loop ((va, area) # xs) current_addr remain offset data m =
     (if current_addr \<ge> va \<and> current_addr < area_size area + va then
        if \<not> flags_contains (area_flags area) WRITABLE then (Err PageFault, m)
        else
          let write_len = min remain (area_size area + va - current_addr) in
          (case area_write_data area current_addr (fst data + offset, write_len) m of
             None \<Rightarrow> (Panic, m)
           | Some m' \<Rightarrow>
               if remain - write_len = 0 then (Ok (), m')
               else ms_write_loop xs (va + area_size area) (remain - write_len) (offset + write_len) data m')
      else ms_write_loop xs current_addr remain offset data m)"

definition ms_write_bytes :: "memory_set \<Rightarrow> nat \<Rightarrow> slice \<Rightarrow> byte_mem \<Rightarrow> unit fres \<times> byte_mem" where
  "ms_write_bytes ms addr data m = ms_write_loop (ms_areas ms) addr (snd data) 0 data m"

fun ms_read_loop ::
    "(nat \<times> map_area) list \<Rightarrow> nat \<Rightarrow> nat \<Rightarrow> nat \<Rightarrow> slice \<Rightarrow> byte_mem \<Rightarrow> unit fres \<times> byte_mem" where
  "ms_read_loop [] current_addr remain offset data m = (Err PageFault, m)"
| "ms_read_loop ((va, area) # xs) current_addr remain offset data m =
     (if current_addr \<ge> va \<and> current_addr < area_size area + va then
        let read_len = min remain (area_size area + va - current_addr) in
        (case area_read_data area current_addr (fst data + offset, read_len) m of
           None \<Rightarrow> (Panic, m)
         | Some m' \<Rightarrow>
             if remain - read_len = 0 then (Ok (), m')
             else ms_read_loop xs (va + area_size area) (remain - read_len) (offset + read_len) data m')
      else ms_read_loop xs current_addr remain offset data m)"

definition ms_read_bytes :: "memory_set \<Rightarrow> nat \<Rightarrow> slice \<Rightarrow> byte_mem \<Rightarrow> unit fres \<times> byte_mem" where
  "ms_read_bytes ms addr data m = ms_read_loop (ms_areas ms) addr (snd data) 0 data m"

definition ms_protect :: "memory_set \<Rightarrow> nat \<Rightarrow> 64 word \<Rightarrow> memory_set option" where
  "ms_protect ms addr flags =
     (case user_protect (ms_pt ms) addr flags of
        (Ok _, pt) \<Rightarrow> Some (ms\<lparr>ms_pt := pt\<rparr>)
      | _ \<Rightarrow> None)"

fun ms_clone_loop ::
    "('s \<Rightarrow> nat \<Rightarrow> nat option \<times> 's) \<Rightarrow> (nat \<times> map_area) list \<Rightarrow> memory_set \<Rightarrow> byte_mem \<Rightarrow> 's
     \<Rightarrow> (memory_set \<times> byte_mem \<times> 's) option" where
  "ms_clone_loop alloc [] ms m s = Some (ms, m, s)"
| "ms_clone_loop alloc ((_, area) # xs) ms m s =
     (case area_clone alloc area m s of
        None \<Rightarrow> None
      | Some (area', m', s') \<Rightarrow> Option.bind (ms_map ms area') (\<lambda>ms'. ms_clone_loop alloc xs ms' m' s'))"

section \<open>The address space\<close>

record vm_map_options =
  mo_addr :: "nat option"
  mo_align :: nat
  mo_perm :: "8 word"
  mo_can_overwrite :: bool

definition mo_new :: vm_map_options where
  "mo_new = \<lparr>mo_addr = None, mo_align = PAGE_SIZE, mo_perm = 0, mo_can_overwrite = False\<rparr>"

definition mo_set_addr :: "vm_map_options \<Rightarrow> nat option \<Rightarrow> vm_map_options" where
  "mo_set_addr ops addr = (case addr of None \<Rightarrow> ops | Some a \<Rightarrow> ops\<lparr>mo_addr := Some a\<rparr>)"

fun vs_unmap_loop :: "memory_set \<Rightarrow> nat \<Rightarrow> nat \<Rightarrow> unit fres \<times> memory_set" where
  "vs_unmap_loop ms start_va 0 = (Ok (), ms)"
| "vs_unmap_loop ms start_va (Suc n) =
     (case ms_unmap ms start_va of
        (Ok _, ms') \<Rightarrow>
          if start_va + PAGE_SIZE < USIZE_LIMIT then vs_unmap_loop ms' (start_va + PAGE_SIZE) n
          else (Panic, ms')
      | (Err e, ms') \<Rightarrow> (Err e, ms')
      | (Panic, ms') \<Rightarrow> (Panic, ms'))"

definition vs_unmap :: "memory_set \<Rightarrow> nat \<times> nat \<Rightarrow> unit fres \<times> memory_set" where
  "vs_unmap ms rng =
     (if is_page_aligned (fst rng) \<and> is_page_aligned (snd rng) \<and> fst rng \<le> snd rng
      then vs_unmap_loop ms (fst rng) ((snd rng - fst rng) div PAGE_SIZE)
      else (Panic, ms))"

fun vs_map_loop :: "memory_set \<Rightarrow> 64 word \<Rightarrow> nat \<Rightarrow> nat \<Rightarrow> vm_frame list \<Rightarrow> memory_set option" where
  "vs_map_loop ms flags addr idx [] = Some ms"
| "vs_map_loop ms flags addr idx (f # fs) =
     Option.bind (checked_add addr (idx * PAGE_SIZE)) (\<lambda>a.
     Option.bind (area_new a PAGE_SIZE flags [f]) (\<lambda>area.
     Option.bind (ms_map ms area) (\<lambda>ms'. vs_map_loop ms' flags addr (Suc idx) fs)))"

definition vs_map :: "memory_set \<Rightarrow> vm_frame list \<Rightarrow> vm_map_options \<Rightarrow> nat fres \<times> memory_set" where
  "vs_map ms frames options =
     (let flags = vm_perm_flags (mo_perm options) in
      case mo_addr options of
        None \<Rightarrow> (Err InvalidArgs, ms)
      | Some addr \<Rightarrow>
          let (cleared, ms') =
            (if mo_can_overwrite options
             then (case checked_add addr (fv_nbytes frames) of
                     None \<Rightarrow> (Panic, ms)
                   | Some e \<Rightarrow> vs_unmap ms (addr, e))
             else (Ok (), ms)) in
          if cleared = Panic then (Panic, ms')
          else (case vs_map_loop ms' flags addr 0 frames of
                  None \<Rightarrow> (Panic, ms')
                | Some ms'' \<Rightarrow> (Ok addr, ms'')))"

definition vs_clear :: "memory_set \<Rightarrow> memory_set option" where
  "vs_clear ms = ms_clear ms"

fun vs_protect_loop :: "memory_set \<Rightarrow> nat \<Rightarrow> nat \<Rightarrow> 64 word \<Rightarrow> memory_set option" where
  "vs_protect_loop ms page_idx 0 flags = Some ms"
| "vs_protect_loop ms page_idx (Suc n) flags =
     Option.bind (ms_protect ms (page_idx * PAGE_SIZE) flags) (\<lambda>ms'. vs_protect_loop ms' (Suc page_idx) n flags)"

definition vs_protect :: "memory_set \<Rightarrow> nat \<times> nat \<Rightarrow> 8 word \<Rightarrow> unit fres \<times> memory_set" where
  "vs_protect ms rng perm =
     (if fst rng mod PAGE_SIZE = 0 \<and> snd rng mod PAGE_SIZE = 0 then
        let start_page = fst rng div PAGE_SIZE; end_page = snd rng div PAGE_SIZE in
        (case vs_protect_loop ms start_page (end_page - start_page) (vm_perm_flags perm) of
           None \<Rightarrow> (Panic, ms)
         | Some ms' \<Rightarrow> (Ok (), ms'))
      else (Panic, ms))"

end
