(* ===== verification/Vm_Space_Correct.thy ===== *)
theory Vm_Space_Correct
  imports Vm_Space
begin

text \<open>
  The correctness of user address spaces. \<open>vs_frame\<close> is what an address space means: the frame
  behind every user page. The invariant \<open>space_inv\<close> ties it to the page table and keeps user
  frames apart from the frames of the tables; mapping, unmapping and protecting a range update
  it on that range only, and byte access goes through it.
\<close>

section \<open>The invariant\<close>

definition page_of :: "nat \<Rightarrow> nat" where
  "page_of va = va div PAGE_SIZE * PAGE_SIZE"

definition vs_frame :: "memory_set \<Rightarrow> nat \<Rightarrow> vm_frame option" where
  "vs_frame ms va =
     Option.bind (map_of (ms_areas ms) (page_of va)) (\<lambda>a. map_of (area_mapper a) (page_of va))"

abbreviation pt_frames :: "memory_set \<Rightarrow> nat set" where
  "pt_frames ms \<equiv> set (pt_tables (ms_pt ms)) \<union> set (pt_supply (ms_pt ms))"

definition page_area :: "memory_set \<Rightarrow> nat \<Rightarrow> map_area \<Rightarrow> bool" where
  "page_area ms va a \<longleftrightarrow> is_page_aligned va \<and> va < 2 ^ 47 \<and> area_start_va a = va \<and> area_size a = PAGE_SIZE \<and>
     (\<exists>f. area_mapper a = [(va, f)] \<and> frame_ok (vf_start_paddr f) \<and> vf_start_paddr f \<notin> pt_frames ms)"

definition space_inv :: "memory_set \<Rightarrow> bool" where
  "space_inv ms \<longleftrightarrow> user_table (ms_pt ms) \<and> btm_wf (ms_areas ms) \<and>
     (\<forall>va a. map_of (ms_areas ms) va = Some a \<longrightarrow> page_area ms va a) \<and>
     (\<forall>va < 2 ^ 47. map_option fst (translate (ms_pt ms) va) = map_option vf_start_paddr (vs_frame ms va))"

lemma page_of_aligned [simp]: "is_page_aligned va \<Longrightarrow> page_of va = va"
  by (auto simp: page_of_def is_page_aligned_def)

lemma page_of_eq_iff: "page_of va = page_of va' \<longleftrightarrow> va div PAGE_SIZE = va' div PAGE_SIZE"
  by (simp add: page_of_def)

lemma page_of_idem [simp]: "is_page_aligned (page_of va)" "page_of (page_of va) = page_of va"
  by (simp_all add: page_of_def is_page_aligned_def)

lemma page_of_eq_aligned: "is_page_aligned a \<Longrightarrow> page_of va = a \<longleftrightarrow> va div PAGE_SIZE = a div PAGE_SIZE"
  using page_of_eq_iff [of va a] by simp

lemma page_of_less: "va < 2 ^ 47 \<Longrightarrow> page_of va < 2 ^ 47"
  unfolding page_of_def by (metis div_times_less_eq_dividend le_less_trans)

lemma page_areaD:
  assumes "space_inv ms" "map_of (ms_areas ms) va = Some a"
  obtains f where "a = \<lparr>area_flags = area_flags a, area_start_va = va, area_size = PAGE_SIZE, area_mapper = [(va, f)]\<rparr>"
    "frame_ok (vf_start_paddr f)" "vf_start_paddr f \<notin> pt_frames ms" "is_page_aligned va" "va < 2 ^ 47"
proof -
  have "page_area ms va a" using assms by (simp add: space_inv_def)
  then obtain f where "is_page_aligned va" "va < 2 ^ 47" "area_start_va a = va" "area_size a = PAGE_SIZE"
    "area_mapper a = [(va, f)]" "frame_ok (vf_start_paddr f)" "vf_start_paddr f \<notin> pt_frames ms"
    unfolding page_area_def by blast
  then show thesis by (intro that [of f]) simp_all
qed

lemma vs_frame_None_iff:
  assumes "space_inv ms"
  shows "vs_frame ms va = None \<longleftrightarrow> map_of (ms_areas ms) (page_of va) = None"
proof (cases "map_of (ms_areas ms) (page_of va)")
  case (Some a)
  from page_areaD [OF assms Some] obtain f where "area_mapper a = [(page_of va, f)]"
    by (metis map_area.select_convs(4))
  then show ?thesis using Some by (simp add: vs_frame_def)
qed (simp add: vs_frame_def)

lemma vs_frame_translate:
  assumes "space_inv ms" "va < 2 ^ 47"
  shows "translate (ms_pt ms) va = None \<longleftrightarrow> vs_frame ms va = None"
    "vs_frame ms va = Some f \<Longrightarrow> \<exists>fl. translate (ms_pt ms) va = Some (vf_start_paddr f, fl)"
proof -
  have eq: "map_option fst (translate (ms_pt ms) va) = map_option vf_start_paddr (vs_frame ms va)"
    using assms by (simp add: space_inv_def)
  show "translate (ms_pt ms) va = None \<longleftrightarrow> vs_frame ms va = None"
    using eq by (cases "translate (ms_pt ms) va"; cases "vs_frame ms va") simp_all
  show "vs_frame ms va = Some f \<Longrightarrow> \<exists>fl. translate (ms_pt ms) va = Some (vf_start_paddr f, fl)"
    using eq by auto
qed

section \<open>One page at a time\<close>

lemma vm_perm_flags_ok [simp]: "flags_ok (vm_perm_flags p)" "is_present (vm_perm_flags p)"
  by (simp_all add: vm_perm_flags_def Let_def flags_ok_def FLAGS_ALL_eq is_present_def
      flags_contains_def flag_defs)

definition page_area_of :: "64 word \<Rightarrow> nat \<Rightarrow> vm_frame \<Rightarrow> map_area" where
  "page_area_of fl va f =
     \<lparr>area_flags = fl, area_start_va = va, area_size = PAGE_SIZE, area_mapper = [(va, f)]\<rparr>"

lemma area_new_page:
  "is_page_aligned va \<Longrightarrow> va < 2 ^ 47 \<Longrightarrow> area_new va PAGE_SIZE fl [f] = Some (page_area_of fl va f)"
  by (simp add: area_new_def area_map_with_physical_address_def page_area_of_def is_page_aligned_def
      checked_add_def)


text \<open>A step of an address space: its page table changed within its frames.\<close>

definition pt_step :: "memory_set \<Rightarrow> memory_set \<Rightarrow> bool" where
  "pt_step ms ms' \<longleftrightarrow> user_table (ms_pt ms') \<and> pt_frames ms' = pt_frames ms"

lemma confined_pt_step:
  "user_table (ms_pt ms) \<Longrightarrow> confined USER_ENTRIES (ms_pt ms) (ms_pt ms') \<Longrightarrow> pt_step ms ms'"
  using confined_user_table by (simp add: pt_step_def confined_def)

lemma pt_step_refl: "space_inv ms \<Longrightarrow> pt_step ms ms"
  by (simp add: pt_step_def space_inv_def)

lemma pt_step_trans: "pt_step a b \<Longrightarrow> pt_step b c \<Longrightarrow> pt_step a c"
  by (simp add: pt_step_def)

lemma page_area_step: "pt_step ms ms' \<Longrightarrow> page_area ms' va a = page_area ms va a"
  by (simp add: pt_step_def page_area_def)

lemma ms_map_page:
  assumes inv: "space_inv ms" and va: "is_page_aligned va" "va < 2 ^ 47" "vs_frame ms va = None"
    and f: "frame_ok (vf_start_paddr f)" "vf_start_paddr f \<notin> pt_frames ms"
    and fl: "flags_ok fl" "is_present fl" and room: "3 \<le> length (pt_supply (ms_pt ms))"
  shows "\<exists>ms'. ms_map ms (page_area_of fl va f) = Some ms' \<and> space_inv ms' \<and> pt_step ms ms' \<and>
    length (pt_supply (ms_pt ms)) \<le> length (pt_supply (ms_pt ms')) + 3 \<and>
    (\<forall>va'. vs_frame ms' va' = (if page_of va' = va then Some f else vs_frame ms va')) \<and>
    (\<forall>va' < 2 ^ 47. translate (ms_pt ms') va' =
       (if page_of va' = va then Some (vf_start_paddr f, fl) else translate (ms_pt ms) va'))"
proof -
  have ut: "user_table (ms_pt ms)" "pt_wf USER_ENTRIES (ms_pt ms)" "pt_width (ms_pt ms) = 4"
    using inv by (simp_all add: space_inv_def user_table_def)
  have none: "translate (ms_pt ms) va = None" "map_of (ms_areas ms) va = None"
    using vs_frame_translate(1) [OF inv va(2)] vs_frame_None_iff [OF inv, of va] va by simp_all
  obtain pt' where pt': "confined USER_ENTRIES (ms_pt ms) pt'"
    "length (pt_supply (ms_pt ms)) \<le> length (pt_supply pt') + 3"
    "do_map (ms_pt ms) va (vf_start_paddr f) fl = (Ok (), pt')"
    "\<And>va'. covered USER_ENTRIES (ms_pt ms) va' \<Longrightarrow> translate pt' va' =
       (if va' div PAGE_SIZE = va div PAGE_SIZE then Some (vf_start_paddr f, fl) else translate (ms_pt ms) va')"
    using do_map_spec [OF ut(2) user_covered [OF ut(1) va(2)], of "vf_start_paddr f" fl] none(1) ut(3) room f fl
    by auto
  define ms' where "ms' = ms\<lparr>ms_pt := pt', ms_areas := btm_insert va (page_area_of fl va f) (ms_areas ms)\<rparr>"
  have "vf_start_paddr f < PHYS_OFFSET" using f(1) by (simp add: frame_ok_def PHYS_OFFSET_def)
  then have "ms_map ms (page_area_of fl va f) = Some ms'"
    using none(2) pt'(3) user_not_kernel [OF va(2)]
    by (simp add: ms_map_def page_area_of_def ms'_def user_map_def)
  moreover have step: "pt_step ms ms'" using confined_pt_step [OF ut(1)] pt'(1) by (simp add: ms'_def)
  moreover have fr: "vs_frame ms' va' = (if page_of va' = va then Some f else vs_frame ms va')" for va'
    using inv by (auto simp: vs_frame_def ms'_def map_of_btm_insert space_inv_def page_area_of_def)
  moreover have tr: "translate (ms_pt ms') va' =
      (if page_of va' = va then Some (vf_start_paddr f, fl) else translate (ms_pt ms) va')" if "va' < 2 ^ 47" for va'
    using pt'(4) user_covered [OF ut(1) that] va(1) by (simp add: ms'_def page_of_eq_aligned)
  moreover have "space_inv ms'"
    unfolding space_inv_def
  proof (intro conjI allI impI)
    fix va' a assume "map_of (ms_areas ms') va' = Some a"
    then show "page_area ms' va' a"
      using inv va f page_area_step [OF step]
      by (auto simp: space_inv_def ms'_def map_of_btm_insert page_area_def page_area_of_def split: if_splits)
  next
    fix va' :: nat assume "va' < 2 ^ 47"
    then show "map_option fst (translate (ms_pt ms') va') = map_option vf_start_paddr (vs_frame ms' va')"
      using inv fr tr by (simp add: space_inv_def)
  qed (use inv step in \<open>auto simp: space_inv_def pt_step_def ms'_def\<close>)
  ultimately show ?thesis using pt'(2) by (auto simp: ms'_def)
qed

lemma ms_unmap_page:
  assumes inv: "space_inv ms" and va: "is_page_aligned va" "va < 2 ^ 47"
  shows "vs_frame ms va = None \<Longrightarrow> ms_unmap ms va = (Err PageFault, ms)"
    and "vs_frame ms va \<noteq> None \<Longrightarrow> \<exists>ms'. ms_unmap ms va = (Ok (), ms') \<and> space_inv ms' \<and> pt_step ms ms' \<and>
      (\<forall>va'. vs_frame ms' va' = (if page_of va' = va then None else vs_frame ms va'))"
proof -
  show "vs_frame ms va = None \<Longrightarrow> ms_unmap ms va = (Err PageFault, ms)"
    using vs_frame_None_iff [OF inv, of va] va(1) by (simp add: ms_unmap_def)
  assume mapped: "vs_frame ms va \<noteq> None"
  have ut: "user_table (ms_pt ms)" "pt_wf USER_ENTRIES (ms_pt ms)"
    using inv by (simp_all add: space_inv_def user_table_def)
  obtain a where a: "map_of (ms_areas ms) va = Some a"
    using mapped vs_frame_None_iff [OF inv, of va] va(1) by auto
  obtain f where f: "area_mapper a = [(va, f)]" using page_areaD [OF inv a] by (metis map_area.select_convs(4))
  obtain pt' where pt': "do_unmap (ms_pt ms) va = (Ok (), pt')" "confined USER_ENTRIES (ms_pt ms) pt'"
    "\<And>va'. covered USER_ENTRIES (ms_pt ms) va' \<Longrightarrow> translate pt' va' =
       (if va' div PAGE_SIZE = va div PAGE_SIZE then None else translate (ms_pt ms) va')"
    using do_unmap_spec [OF ut(2) user_covered [OF ut(1) va(2)]] vs_frame_translate(1) [OF inv va(2)] mapped
    by blast
  define ms' where "ms' = ms\<lparr>ms_pt := pt', ms_areas := btm_remove va (ms_areas ms)\<rparr>"
  have "ms_unmap ms va = (Ok (), ms')"
    using a f pt'(1) user_not_kernel [OF va(2)] by (simp add: ms_unmap_def ms'_def user_unmap_def)
  moreover have step: "pt_step ms ms'" using confined_pt_step [OF ut(1)] pt'(2) by (simp add: ms'_def)
  moreover have fr: "vs_frame ms' va' = (if page_of va' = va then None else vs_frame ms va')" for va'
    by (auto simp: vs_frame_def ms'_def map_of_btm_remove)
  moreover have "space_inv ms'"
    unfolding space_inv_def
  proof (intro conjI allI impI)
    fix va' a assume "map_of (ms_areas ms') va' = Some a"
    then show "page_area ms' va' a"
      using inv page_area_step [OF step]
      by (auto simp: space_inv_def ms'_def map_of_btm_remove split: if_splits)
  next
    fix va' :: nat assume va': "va' < 2 ^ 47"
    then have "translate (ms_pt ms') va' = (if page_of va' = va then None else translate (ms_pt ms) va')"
      using pt'(3) user_covered [OF ut(1) va'] va(1) by (simp add: ms'_def page_of_eq_aligned)
    then show "map_option fst (translate (ms_pt ms') va') = map_option vf_start_paddr (vs_frame ms' va')"
      using inv fr va' by (simp add: space_inv_def)
  qed (use inv step in \<open>auto simp: space_inv_def pt_step_def ms'_def\<close>)
  ultimately show "\<exists>ms'. ms_unmap ms va = (Ok (), ms') \<and> space_inv ms' \<and> pt_step ms ms' \<and>
      (\<forall>va'. vs_frame ms' va' = (if page_of va' = va then None else vs_frame ms va'))" by blast
qed

lemma ms_protect_page:
  assumes inv: "space_inv ms" and va: "is_page_aligned va" "va < 2 ^ 47" "vs_frame ms va = Some f"
    and fl: "flags_ok fl" "is_present fl"
  shows "\<exists>ms'. ms_protect ms va fl = Some ms' \<and> space_inv ms' \<and> pt_step ms ms' \<and>
      ms_areas ms' = ms_areas ms \<and>
      (\<forall>va' < 2 ^ 47. translate (ms_pt ms') va' =
         (if page_of va' = va then Some (vf_start_paddr f, fl) else translate (ms_pt ms) va'))"
proof -
  have ut: "user_table (ms_pt ms)" "pt_wf USER_ENTRIES (ms_pt ms)"
    using inv by (simp_all add: space_inv_def user_table_def)
  obtain old where old: "translate (ms_pt ms) va = Some (vf_start_paddr f, old)"
    using vs_frame_translate(2) [OF inv va(2,3)] by blast
  obtain a where a: "map_of (ms_areas ms) va = Some a" "map_of (area_mapper a) va = Some f"
    using va by (auto simp: vs_frame_def bind_eq_Some_conv)
  have "frame_ok (vf_start_paddr f)"
    using page_areaD [OF inv a(1)] a(2) by (metis (lifting) map_area.select_convs(4) map_of_Cons_code(2) option.inject)
  then obtain pt' where pt': "do_protect (ms_pt ms) va fl = (Ok old, pt')" "confined USER_ENTRIES (ms_pt ms) pt'"
    "\<And>va'. covered USER_ENTRIES (ms_pt ms) va' \<Longrightarrow> translate pt' va' =
       (if va' div PAGE_SIZE = va div PAGE_SIZE then Some (vf_start_paddr f, fl) else translate (ms_pt ms) va')"
    using do_protect_spec [OF ut(2) user_covered [OF ut(1) va(2)] old, of fl] fl by auto
  define ms' where "ms' = ms\<lparr>ms_pt := pt'\<rparr>"
  have "ms_protect ms va fl = Some ms'"
    using pt'(1) user_not_kernel [OF va(2)] by (simp add: ms_protect_def ms'_def user_protect_def)
  moreover have step: "pt_step ms ms'" using confined_pt_step [OF ut(1)] pt'(2) by (simp add: ms'_def)
  moreover have tr: "translate (ms_pt ms') va' =
      (if page_of va' = va then Some (vf_start_paddr f, fl) else translate (ms_pt ms) va')" if "va' < 2 ^ 47" for va'
    using pt'(3) user_covered [OF ut(1) that] va(1) by (simp add: ms'_def page_of_eq_aligned)
  moreover have fr: "vs_frame ms' = vs_frame ms" by (simp add: vs_frame_def ms'_def fun_eq_iff)
  moreover have "vs_frame ms va' = Some f" if "page_of va' = va" for va'
    using that va(1,3) by (simp add: vs_frame_def)
  then have "space_inv ms'"
    using inv tr fr step page_area_step [OF step]
    by (auto simp: space_inv_def pt_step_def) (simp_all add: ms'_def)
  ultimately show ?thesis by (auto simp: ms'_def)
qed

section \<open>Ranges\<close>

lemma page_of_range: "is_page_aligned a \<Longrightarrow> page_of va = a \<longleftrightarrow> a \<le> va \<and> va < a + PAGE_SIZE"
proof -
  assume "is_page_aligned a"
  then obtain k where k: "a = k * PAGE_SIZE" by (auto simp: is_page_aligned_def mult.commute)
  have "k \<le> va div PAGE_SIZE \<longleftrightarrow> a \<le> va" "va div PAGE_SIZE < Suc k \<longleftrightarrow> va < a + PAGE_SIZE"
    unfolding k by (simp_all add: less_eq_div_iff_mult_less_eq div_less_iff_less_mult add.commute)
  moreover have "page_of va = a \<longleftrightarrow> va div PAGE_SIZE = k" by (simp add: page_of_def k)
  ultimately show ?thesis by linarith
qed

lemma aligned_add: "is_page_aligned a \<Longrightarrow> is_page_aligned (a + n * PAGE_SIZE)"
  by (simp add: is_page_aligned_def)

definition in_pages :: "nat \<Rightarrow> nat \<Rightarrow> nat \<Rightarrow> bool" where
  "in_pages a n va \<longleftrightarrow> a \<le> va \<and> va < a + n * PAGE_SIZE"

lemma in_pages_Suc:
  "is_page_aligned a \<Longrightarrow> in_pages a (Suc n) va \<longleftrightarrow> page_of va = a \<or> in_pages (a + PAGE_SIZE) n va"
  by (auto simp: in_pages_def page_of_range)

lemma in_pages_index:
  assumes "in_pages (a + PAGE_SIZE) n va"
  shows "(va - a) div PAGE_SIZE = Suc ((va - (a + PAGE_SIZE)) div PAGE_SIZE)"
proof -
  have "PAGE_SIZE \<le> va - a" using assms unfolding in_pages_def by linarith
  then show ?thesis using le_div_geq [of PAGE_SIZE "va - a"] by simp
qed

lemma vs_map_loop_correct:
  assumes "space_inv ms" "is_page_aligned addr" "addr + (idx + length fs) * PAGE_SIZE \<le> 2 ^ 47"
    and "\<And>va. in_pages (addr + idx * PAGE_SIZE) (length fs) va \<Longrightarrow> vs_frame ms va = None"
    and "\<And>f. f \<in> set fs \<Longrightarrow> frame_ok (vf_start_paddr f) \<and> vf_start_paddr f \<notin> pt_frames ms"
    and "3 * length fs \<le> length (pt_supply (ms_pt ms))" "flags_ok fl" "is_present fl"
  shows "\<exists>ms'. vs_map_loop ms fl addr idx fs = Some ms' \<and> space_inv ms' \<and> pt_step ms ms' \<and>
    (\<forall>va. vs_frame ms' va = (if in_pages (addr + idx * PAGE_SIZE) (length fs) va
       then Some (fs ! ((va - (addr + idx * PAGE_SIZE)) div PAGE_SIZE)) else vs_frame ms va)) \<and>
    (\<forall>va < 2 ^ 47. translate (ms_pt ms') va = (if in_pages (addr + idx * PAGE_SIZE) (length fs) va
       then Some (vf_start_paddr (fs ! ((va - (addr + idx * PAGE_SIZE)) div PAGE_SIZE)), fl)
       else translate (ms_pt ms) va))"
  using assms(1-6)
proof (induction fs arbitrary: ms idx)
  case Nil
  then show ?case by (auto simp: in_pages_def pt_step_refl)
next
  case (Cons f fs)
  let ?a = "addr + idx * PAGE_SIZE"
  have a: "is_page_aligned ?a" "?a < 2 ^ 47" using Cons.prems(2,3) aligned_add by auto
  have next_a: "addr + Suc idx * PAGE_SIZE = ?a + PAGE_SIZE" by simp
  note split = in_pages_Suc [OF a(1), of "length fs"] and idx1 = in_pages_index [of ?a "length fs"]
  have none: "vs_frame ms ?a = None" using Cons.prems(4) [of ?a] by (simp add: in_pages_def)
  obtain ms1 where ms1: "ms_map ms (page_area_of fl ?a f) = Some ms1" "space_inv ms1" "pt_step ms ms1"
    "length (pt_supply (ms_pt ms)) \<le> length (pt_supply (ms_pt ms1)) + 3"
    "\<And>va. vs_frame ms1 va = (if page_of va = ?a then Some f else vs_frame ms va)"
    "\<And>va. va < 2 ^ 47 \<Longrightarrow> translate (ms_pt ms1) va =
       (if page_of va = ?a then Some (vf_start_paddr f, fl) else translate (ms_pt ms) va)"
    using ms_map_page [OF Cons.prems(1) a none, of f fl] Cons.prems(5,6) assms(7,8) by auto
  have disj: "page_of va \<noteq> ?a" if "in_pages (?a + PAGE_SIZE) (length fs) va" for va
    using that a(1) by (auto simp: in_pages_def page_of_range)
  obtain ms' where ms': "vs_map_loop ms1 fl addr (Suc idx) fs = Some ms'" "space_inv ms'" "pt_step ms1 ms'"
    "\<And>va. vs_frame ms' va = (if in_pages (?a + PAGE_SIZE) (length fs) va
       then Some (fs ! ((va - (?a + PAGE_SIZE)) div PAGE_SIZE)) else vs_frame ms1 va)"
    "\<And>va. va < 2 ^ 47 \<Longrightarrow> translate (ms_pt ms') va = (if in_pages (?a + PAGE_SIZE) (length fs) va
       then Some (vf_start_paddr (fs ! ((va - (?a + PAGE_SIZE)) div PAGE_SIZE)), fl)
       else translate (ms_pt ms1) va)"
  proof -
    have "f' \<in> set fs \<Longrightarrow> frame_ok (vf_start_paddr f') \<and> vf_start_paddr f' \<notin> pt_frames ms1" for f'
      using Cons.prems(5) ms1(3) unfolding pt_step_def by (metis list.set_intros(2))
    moreover have "in_pages (?a + PAGE_SIZE) (length fs) va \<Longrightarrow> vs_frame ms1 va = None" for va
      using Cons.prems(4) [of va] ms1(5) [of va] disj split by simp
    ultimately show thesis
      using Cons.IH [OF ms1(2), of "Suc idx"] Cons.prems(2,3,6) ms1(4) that unfolding next_a by auto
  qed
  have zero: "(va - ?a) div PAGE_SIZE = 0" if "page_of va = ?a" for va
    using that a(1) by (auto simp: page_of_range)
  have "vs_map_loop ms fl addr idx (f # fs) = Some ms'"
    using a ms1(1) ms'(1) by (simp add: checked_add_def area_new_page)
  moreover have pos: "(f # fs) ! ((va - ?a) div PAGE_SIZE) =
      (if in_pages (?a + PAGE_SIZE) (length fs) va then fs ! ((va - (?a + PAGE_SIZE)) div PAGE_SIZE) else f)"
    if "in_pages ?a (length (f # fs)) va" for va
    using that split [of va] idx1 [of va] zero [of va] by auto
  moreover have "vs_frame ms' va = (if in_pages ?a (length (f # fs)) va
      then Some ((f # fs) ! ((va - ?a) div PAGE_SIZE)) else vs_frame ms va)" for va
    using pos [of va] ms'(4) [of va] ms1(5) [of va] split [of va] by (cases "in_pages (?a + PAGE_SIZE) (length fs) va") simp_all
  moreover have "translate (ms_pt ms') va = (if in_pages ?a (length (f # fs)) va
      then Some (vf_start_paddr ((f # fs) ! ((va - ?a) div PAGE_SIZE)), fl) else translate (ms_pt ms) va)"
    if "va < 2 ^ 47" for va
    using pos [of va] ms'(5) [OF that] ms1(6) [OF that] split [of va]
    by (cases "in_pages (?a + PAGE_SIZE) (length fs) va") simp_all
  ultimately show ?case using ms'(2) pt_step_trans [OF ms1(3) ms'(3)] by blast
qed

lemma vs_unmap_loop_correct:
  assumes "space_inv ms" "is_page_aligned a" "a + n * PAGE_SIZE \<le> 2 ^ 47"
    and "\<And>va. in_pages a k va \<Longrightarrow> vs_frame ms va \<noteq> None" "k \<le> n"
    and "k < n \<Longrightarrow> vs_frame ms (a + k * PAGE_SIZE) = None"
  shows "\<exists>ms'. vs_unmap_loop ms a n = (if k = n then Ok () else Err PageFault, ms') \<and> space_inv ms' \<and>
    pt_step ms ms' \<and> (\<forall>va. vs_frame ms' va = (if in_pages a k va then None else vs_frame ms va))"
  using assms
proof (induction n arbitrary: ms a k)
  case 0
  then show ?case by (auto simp: in_pages_def pt_step_refl)
next
  case (Suc n)
  have a: "a < 2 ^ 47" using Suc.prems(3) by simp
  note page = ms_unmap_page [OF Suc.prems(1,2) a]
  show ?case
  proof (cases k)
    case 0
    then show ?thesis using page(1) Suc.prems pt_step_refl by (auto simp: in_pages_def)
  next
    case (Suc j)
    have split: "in_pages a k va \<longleftrightarrow> page_of va = a \<or> in_pages (a + PAGE_SIZE) j va" for va
      using in_pages_Suc Suc.prems(2) Suc by simp
    have "vs_frame ms a \<noteq> None" using Suc.prems(4) [of a] Suc by (simp add: in_pages_def)
    from page(2) [OF this] obtain ms1 where ms1: "ms_unmap ms a = (Ok (), ms1)" "space_inv ms1" "pt_step ms ms1"
      "\<And>va. vs_frame ms1 va = (if page_of va = a then None else vs_frame ms va)" by blast
    have far: "page_of va \<noteq> a" if "a + PAGE_SIZE \<le> va" for va
      using that Suc.prems(2) by (simp add: page_of_range)
    have al: "is_page_aligned (a + PAGE_SIZE)" using aligned_add [OF Suc.prems(2), of 1] by simp
    obtain ms' where ms': "vs_unmap_loop ms1 (a + PAGE_SIZE) n = (if j = n then Ok () else Err PageFault, ms')"
      "space_inv ms'" "pt_step ms1 ms'"
      "\<And>va. vs_frame ms' va = (if in_pages (a + PAGE_SIZE) j va then None else vs_frame ms1 va)"
    proof -
      have "a + PAGE_SIZE + n * PAGE_SIZE \<le> 2 ^ 47" "j \<le> n" using Suc.prems(3,5) Suc by simp_all
      moreover have "vs_frame ms1 va \<noteq> None" if "in_pages (a + PAGE_SIZE) j va" for va
        using Suc.prems(4) [of va] ms1(4) [of va] far [of va] split [of va] that by (simp add: in_pages_def)
      moreover have "vs_frame ms1 (a + PAGE_SIZE + j * PAGE_SIZE) = None" if "j < n"
        using Suc.prems(6) Suc ms1(4) that by (simp add: add.assoc)
      ultimately show thesis using Suc.IH [OF ms1(2) al, of j] that by blast
    qed
    have "vs_unmap_loop ms a (Suc n) = (if k = Suc n then Ok () else Err PageFault, ms')"
      using ms1(1) ms'(1) Suc Suc.prems(3) by simp
    then show ?thesis
      using ms'(2,4) ms1(4) split pt_step_trans [OF ms1(3) ms'(3)] by (intro exI [of _ ms']) simp
  qed
qed

lemma vs_protect_loop_correct:
  assumes "space_inv ms" "(p + n) * PAGE_SIZE \<le> 2 ^ 47" "flags_ok fl" "is_present fl"
    and "\<And>va. in_pages (p * PAGE_SIZE) n va \<Longrightarrow> vs_frame ms va \<noteq> None"
  shows "\<exists>ms'. vs_protect_loop ms p n fl = Some ms' \<and> space_inv ms' \<and> pt_step ms ms' \<and>
    ms_areas ms' = ms_areas ms \<and>
    (\<forall>va < 2 ^ 47. translate (ms_pt ms') va = (if in_pages (p * PAGE_SIZE) n va
       then map_option (\<lambda>f. (vf_start_paddr f, fl)) (vs_frame ms va) else translate (ms_pt ms) va))"
  using assms(1,2,5)
proof (induction n arbitrary: ms p)
  case 0
  then show ?case by (auto simp: in_pages_def pt_step_refl)
next
  case (Suc n)
  let ?a = "p * PAGE_SIZE"
  have a: "is_page_aligned ?a" "?a < 2 ^ 47" using Suc.prems(2) by (simp_all add: is_page_aligned_def)
  have next_a: "Suc p * PAGE_SIZE = ?a + PAGE_SIZE" by simp
  note split = in_pages_Suc [OF a(1), of n]
  obtain f where f: "vs_frame ms ?a = Some f" using Suc.prems(3) [of ?a] by (auto simp: in_pages_def)
  have same: "vs_frame ms va = Some f" if "page_of va = ?a" for va using f that a(1) by (simp add: vs_frame_def)
  obtain ms1 where ms1: "ms_protect ms ?a fl = Some ms1" "space_inv ms1" "pt_step ms ms1"
    "ms_areas ms1 = ms_areas ms"
    "\<And>va. va < 2 ^ 47 \<Longrightarrow> translate (ms_pt ms1) va =
       (if page_of va = ?a then Some (vf_start_paddr f, fl) else translate (ms_pt ms) va)"
    using ms_protect_page [OF Suc.prems(1) a f assms(3,4)] by blast
  have fr: "vs_frame ms1 = vs_frame ms" by (simp add: vs_frame_def ms1(4) fun_eq_iff)
  obtain ms' where ms': "vs_protect_loop ms1 (Suc p) n fl = Some ms'" "space_inv ms'" "pt_step ms1 ms'"
    "ms_areas ms' = ms_areas ms1"
    "\<And>va. va < 2 ^ 47 \<Longrightarrow> translate (ms_pt ms') va = (if in_pages (?a + PAGE_SIZE) n va
       then map_option (\<lambda>f. (vf_start_paddr f, fl)) (vs_frame ms1 va) else translate (ms_pt ms1) va)"
    using Suc.IH [OF ms1(2), of "Suc p"] Suc.prems(2,3) split fr unfolding next_a by auto
  have "translate (ms_pt ms') va = (if in_pages ?a (Suc n) va
      then map_option (\<lambda>f. (vf_start_paddr f, fl)) (vs_frame ms va) else translate (ms_pt ms) va)" if "va < 2 ^ 47" for va
    using ms'(5) [OF that] ms1(5) [OF that] split [of va] same [of va] fr
    by (cases "in_pages (?a + PAGE_SIZE) n va") simp_all
  then show ?case using ms1(1,4) ms'(1,2,4) pt_step_trans [OF ms1(3) ms'(3)] by (intro exI [of _ ms']) simp
qed

section \<open>Properties of mapping\<close>


text \<open>Unmapping a range. \<^verbatim>\<open>VmSpace::unmap\<close> removes the pages of the longest mapped prefix of
  the range and nothing else; it succeeds exactly when that prefix is the whole range.\<close>

theorem vs_unmap_correct:
  assumes "space_inv ms" "is_page_aligned a" "a + n * PAGE_SIZE \<le> 2 ^ 47" "k \<le> n"
    and "\<forall>va. in_pages a k va \<longrightarrow> vs_frame ms va \<noteq> None"
    and "k < n \<longrightarrow> vs_frame ms (a + k * PAGE_SIZE) = None"
  shows "\<exists>ms'. vs_unmap ms (a, a + n * PAGE_SIZE) = (if k = n then Ok () else Err PageFault, ms') \<and>
    space_inv ms' \<and> (\<forall>va. vs_frame ms' va = (if in_pages a k va then None else vs_frame ms va))"
  using vs_unmap_loop_correct [OF assms(1-3), of k] assms aligned_add [OF assms(2), of n]
  by (auto simp: vs_unmap_def)

text \<open>Protecting a mapped range gives every page of it the flags of the new permission, keeps its
  frame, and changes no other page.\<close>

theorem vs_protect_correct:
  assumes "space_inv ms" "is_page_aligned a" "a + n * PAGE_SIZE \<le> 2 ^ 47"
    and "\<forall>va. in_pages a n va \<longrightarrow> vs_frame ms va \<noteq> None"
  shows "\<exists>ms'. vs_protect ms (a, a + n * PAGE_SIZE) perm = (Ok (), ms') \<and> space_inv ms' \<and>
    vs_frame ms' = vs_frame ms \<and>
    (\<forall>va < 2 ^ 47. translate (ms_pt ms') va = (if in_pages a n va
       then map_option (\<lambda>f. (vf_start_paddr f, vm_perm_flags perm)) (vs_frame ms va)
       else translate (ms_pt ms) va))"
proof -
  let ?p = "a div PAGE_SIZE"
  have a: "?p * PAGE_SIZE = a" "a mod PAGE_SIZE = 0" using assms(2) by (auto simp: is_page_aligned_def)
  then have "(a + n * PAGE_SIZE) mod PAGE_SIZE = 0" "(a + n * PAGE_SIZE) div PAGE_SIZE - ?p = n"
    "(?p + n) * PAGE_SIZE \<le> 2 ^ 47"
    using assms(3) by (simp_all add: algebra_simps)
  then show ?thesis
    using vs_protect_loop_correct [OF assms(1), of ?p n "vm_perm_flags perm"] assms(4) a
    by (auto simp: vs_protect_def Let_def vs_frame_def fun_eq_iff)
qed

text \<open>\<^verbatim>\<open>VmMapOptions::can_overwrite\<close> does not overwrite behind a gap: when the first page of
  the range is unmapped and the second one is mapped, \<^verbatim>\<open>VmSpace::map\<close> panics, because the
  unmapping before it stopped at the gap and its error is discarded.\<close>

theorem vs_map_overwrite_gap_panics:
  assumes "space_inv ms" "mo_addr options = Some addr" "mo_can_overwrite options"
    and "is_page_aligned addr" "addr + length fs * PAGE_SIZE \<le> 2 ^ 47" "2 \<le> length fs"
    and "vs_frame ms addr = None" "vs_frame ms (addr + PAGE_SIZE) \<noteq> None"
  shows "fst (vs_map ms fs options) = Panic"
proof -
  obtain f g rest where fs: "fs = f # g # rest" using assms(6) by (metis One_nat_def Suc_1 Suc_le_length_iff)
  have al: "is_page_aligned (addr + PAGE_SIZE)" using aligned_add [OF assms(4), of 1] by simp
  have "addr < 2 ^ 47" "addr + fv_nbytes fs < USIZE_LIMIT" using assms(5,6) by (simp_all add: fv_nbytes_def fs)
  then have cl: "vs_unmap ms (addr, addr + fv_nbytes fs) = (Err PageFault, ms)"
    using ms_unmap_page(1) [OF assms(1,4) _ assms(7)] aligned_add [OF assms(4), of "length fs"] assms(4)
    by (simp add: vs_unmap_def fv_nbytes_def fs)
  have "\<exists>a. map_of (ms_areas ms) (addr + PAGE_SIZE) = Some a"
    using vs_frame_None_iff [OF assms(1), of "addr + PAGE_SIZE"] assms(8) al by auto
  then have "ms_map ms' (page_area_of fl (addr + PAGE_SIZE) g) = None"
    if "ms_map ms (page_area_of fl addr f) = Some ms'" for ms' fl
    using that assms(1) by (auto simp: ms_map_def page_area_of_def map_of_btm_insert space_inv_def
        split: option.splits if_splits)
  then have "vs_map_loop ms (vm_perm_flags (mo_perm options)) addr 0 fs = None"
    using assms(5) fs area_new_page [OF al] area_new_page [OF assms(4)]
    by (auto simp: checked_add_def bind_eq_None_conv intro: option.exhaust)
  then show ?thesis
    using assms(2,3) cl \<open>addr + fv_nbytes fs < USIZE_LIMIT\<close> by (simp add: vs_map_def checked_add_def Let_def)
qed

text \<open>Changing the protection of pages does not change what the kernel may write through the
  address space: \<^verbatim>\<open>write_bytes\<close> has the same outcome before and after
  \<^verbatim>\<open>VmSpace::protect\<close>, for every range, permission, address and buffer, since it consults the
  flags recorded when the area was mapped.\<close>

theorem protect_does_not_affect_write:
  "vs_protect ms rng perm = (Ok (), ms') \<Longrightarrow> ms_write_bytes ms' addr data m = ms_write_bytes ms addr data m"
proof -
  have "vs_protect_loop x p n fl = Some ms' \<Longrightarrow> ms_areas ms' = ms_areas x" for x p n fl
    by (induction x p n fl rule: vs_protect_loop.induct)
      (auto simp: ms_protect_def bind_eq_Some_conv split: prod.splits result.splits)
  moreover assume "vs_protect ms rng perm = (Ok (), ms')"
  ultimately have "ms_areas ms' = ms_areas ms"
    by (auto simp: vs_protect_def Let_def split: if_splits option.splits)
  then show ?thesis by (simp add: ms_write_bytes_def)
qed

section \<open>Witnesses\<close>

text \<open>An address space with two writable pages at \<open>0x400000\<close>, and one with a single page at
  \<open>0x401000\<close>.\<close>

definition demo_space :: memory_set where
  "demo_space = \<lparr>ms_pt = demo_pt, ms_areas = []\<rparr>"

definition demo_options :: "nat \<Rightarrow> vm_map_options" where
  "demo_options addr = mo_new\<lparr>mo_addr := Some addr, mo_perm := VM_R OR VM_W\<rparr>"

definition demo_two :: memory_set where
  "demo_two = snd (vs_map demo_space [128, 129] (demo_options 0x400000))"

definition demo_gap :: memory_set where
  "demo_gap = snd (vs_map demo_space [128] (demo_options 0x401000))"

lemma demo_space_ok: "space_inv demo_space" "vs_frame demo_space va = None"
    "pt_frames demo_space = (\<lambda>i. i * PAGE_SIZE) ` {16..<24}" "length (pt_supply (ms_pt demo_space)) = 7"
proof -
  show fr: "vs_frame demo_space va = None" for va by (simp add: vs_frame_def demo_space_def)
  show "space_inv demo_space" using demo_pt_ok(1,4) fr by (simp add: space_inv_def demo_space_def)
  show "pt_frames demo_space = (\<lambda>i. i * PAGE_SIZE) ` {16..<24}" "length (pt_supply (ms_pt demo_space)) = 7"
    using demo_pt_ok(3,5) by (simp_all add: demo_space_def)
qed

lemma demo_frame_ok: "frame_ok (vf_start_paddr 128) \<and> vf_start_paddr 128 \<notin> pt_frames demo_space"
    "frame_ok (vf_start_paddr 129) \<and> vf_start_paddr 129 \<notin> pt_frames demo_space"
  unfolding demo_space_ok(3)
  by (auto simp: frame_ok_def vf_start_paddr_def vf_frame_index_def NEED_DEALLOC_def)

lemma demo_map_result:
  assumes "set fs \<subseteq> {128, 129}" "length fs \<le> 2" "is_page_aligned addr" "addr < 2 ^ 46"
  shows "\<exists>ms'. vs_map demo_space fs (demo_options addr) = (Ok addr, ms') \<and> space_inv ms' \<and>
    (\<forall>va. vs_frame ms' va = (if in_pages addr (length fs) va
       then Some (fs ! ((va - addr) div PAGE_SIZE)) else None))"
proof -
  have "frame_ok (vf_start_paddr f) \<and> vf_start_paddr f \<notin> pt_frames demo_space" if "f \<in> set fs" for f
    using assms(1) demo_frame_ok that by blast
  moreover have "addr + (0 + length fs) * PAGE_SIZE \<le> 2 ^ 47" using assms(2,4) by simp
  ultimately have "\<exists>ms'. vs_map_loop demo_space (vm_perm_flags (VM_R OR VM_W)) addr 0 fs = Some ms' \<and> space_inv ms' \<and>
    (\<forall>va. vs_frame ms' va = (if in_pages addr (length fs) va
       then Some (fs ! ((va - addr) div PAGE_SIZE)) else None))"
    using vs_map_loop_correct [OF demo_space_ok(1) assms(3), of 0 fs "vm_perm_flags (VM_R OR VM_W)"]
      demo_space_ok(2,4) assms(2) by auto
  then show ?thesis by (auto simp: vs_map_def demo_options_def mo_new_def Let_def)
qed

lemma demo_two_ok: "space_inv demo_two"
    "vs_frame demo_two va = (if in_pages 0x400000 2 va then Some ([128, 129] ! ((va - 0x400000) div PAGE_SIZE)) else None)"
  using demo_map_result [of "[128, 129]" "0x400000"]
  by (auto simp: demo_two_def is_page_aligned_def in_pages_def)

lemma ms_map_areas:
  "ms_map ms area = Some ms' \<Longrightarrow> 0 < area_size area \<Longrightarrow> ms_areas ms' = btm_insert (area_start_va area) area (ms_areas ms)"
  by (auto simp: ms_map_def split: option.splits)

lemma demo_two_areas: "ms_areas demo_two = [(0x400000, page_area_of (vm_perm_flags 3) 0x400000 128),
    (0x401000, page_area_of (vm_perm_flags 3) 0x401000 129)]"
proof -
  have p3: "VM_R OR VM_W = 3" by (simp add: VM_R_def VM_W_def)
  have "\<exists>a. vs_map demo_space [128, 129] (demo_options 0x400000) = (Ok a, demo_two)"
    using demo_map_result [of "[128, 129]" "0x400000"] by (auto simp: demo_two_def is_page_aligned_def)
  then have "vs_map_loop demo_space (vm_perm_flags 3) 0x400000 0 [128, 129] = Some demo_two"
    by (auto simp: vs_map_def demo_options_def mo_new_def Let_def p3 split: option.splits)
  then obtain ms1 where "ms_map demo_space (page_area_of (vm_perm_flags 3) 0x400000 128) = Some ms1"
    "ms_map ms1 (page_area_of (vm_perm_flags 3) 0x401000 129) = Some demo_two"
    by (auto simp: bind_eq_Some_conv checked_add_def area_new_page is_page_aligned_def)
  then show ?thesis
    by (auto simp: dest!: ms_map_areas) (simp_all add: page_area_of_def demo_space_def)
qed

lemma demo_gap_ok: "space_inv demo_gap"
    "vs_frame demo_gap va = (if in_pages 0x401000 1 va then Some ([128] ! ((va - 0x401000) div PAGE_SIZE)) else None)"
  using demo_map_result [of "[128]" "0x401000"] by (auto simp: demo_gap_def is_page_aligned_def)


theorem vs_unmap_correct_witness:
  "\<exists>ms'. vs_unmap demo_two (0x400000, 0x402000) = (Ok (), ms') \<and> vs_frame ms' 0x401000 = None"
proof -
  have "\<exists>ms'. vs_unmap demo_two (0x400000, 0x400000 + 2 * PAGE_SIZE) = (if (2::nat) = 2 then Ok () else Err PageFault, ms') \<and>
      space_inv ms' \<and> (\<forall>va. vs_frame ms' va = (if in_pages 0x400000 2 va then None else vs_frame demo_two va))"
    by (rule vs_unmap_correct) (use demo_two_ok in \<open>auto simp: is_page_aligned_def\<close>)
  then show ?thesis by (auto simp: in_pages_def)
qed

theorem vs_protect_correct_witness:
  "\<exists>ms'. vs_protect demo_two (0x400000, 0x402000) VM_R = (Ok (), ms') \<and>
     translate (ms_pt ms') 0x401000 = Some (0x81000, vm_perm_flags VM_R)"
proof -
  have "\<exists>ms'. vs_protect demo_two (0x400000, 0x400000 + 2 * PAGE_SIZE) VM_R = (Ok (), ms') \<and> space_inv ms' \<and>
    vs_frame ms' = vs_frame demo_two \<and>
    (\<forall>va < 2 ^ 47. translate (ms_pt ms') va = (if in_pages 0x400000 2 va
       then map_option (\<lambda>f. (vf_start_paddr f, vm_perm_flags VM_R)) (vs_frame demo_two va)
       else translate (ms_pt demo_two) va))"
    by (rule vs_protect_correct) (use demo_two_ok in \<open>auto simp: is_page_aligned_def\<close>)
  then show ?thesis
    by (auto simp: in_pages_def demo_two_ok(2) vf_start_paddr_def vf_frame_index_def NEED_DEALLOC_def)
qed

theorem vs_map_overwrite_gap_panics_witness:
  "fst (vs_map demo_gap [129, 130] ((demo_options 0x400000)\<lparr>mo_can_overwrite := True\<rparr>)) = Panic"
  by (rule vs_map_overwrite_gap_panics [OF demo_gap_ok(1), of _ "0x400000"])
    (simp_all add: demo_options_def is_page_aligned_def demo_gap_ok(2) in_pages_def)

lemma demo_protect: "\<exists>ms'. vs_protect demo_two (0x400000, 0x402000) VM_R = (Ok (), ms')"
  using vs_protect_loop_correct [OF demo_two_ok(1), of "0x400" 2 "vm_perm_flags VM_R"] demo_two_ok(2)
  by (auto simp: vs_protect_def)

theorem protect_does_not_affect_write_witness:
  "\<exists>ms'. vs_protect demo_two (0x400000, 0x402000) VM_R = (Ok (), ms') \<and>
     ms_write_bytes ms' 0x400000 (0, 4) demo_mem = ms_write_bytes demo_two 0x400000 (0, 4) demo_mem"
  using demo_protect protect_does_not_affect_write by blast

end
