(* ===== verification/Vm_Space_Bytes.thy ===== *)
theory Vm_Space_Bytes
  imports Vm_Space_Correct
begin

text \<open>
  Byte access to an address space from the kernel: \<^verbatim>\<open>VmSpace::read_bytes\<close> and
  \<^verbatim>\<open>write_bytes\<close>. The loop over the areas is shown to do what the loop over a collection of
  frames does, for the frames behind the pages of the range.
\<close>

section \<open>Areas of one page\<close>

definition page_areas :: "(nat \<times> map_area) list \<Rightarrow> bool" where
  "page_areas xs \<longleftrightarrow> btm_wf xs \<and>
     (\<forall>(va, a) \<in> set xs. is_page_aligned va \<and> (\<exists>fl f. a = page_area_of fl va f))"

text \<open>\<open>fs\<close> are the frames of the pages from \<open>p\<close> on, in areas whose flags satisfy \<open>P\<close>.\<close>

definition backed_by :: "(64 word \<Rightarrow> bool) \<Rightarrow> (nat \<times> map_area) list \<Rightarrow> nat \<Rightarrow> vm_frame list \<Rightarrow> bool" where
  "backed_by P xs p fs \<longleftrightarrow>
     (\<forall>i < length fs. \<exists>fl. P fl \<and> map_of xs (p + i * PAGE_SIZE) = Some (page_area_of fl (p + i * PAGE_SIZE) (fs ! i)))"

lemma page_areas_Cons:
  assumes "page_areas ((va, a) # xs)"
  shows "page_areas xs" "is_page_aligned va" "\<exists>fl f. a = page_area_of fl va f"
    "map_of xs k = Some b \<Longrightarrow> va < k"
  using assms by (auto simp: page_areas_def btm_wf_Cons dest: map_of_Some_key)

lemma page_area_of_sel [simp]:
  "area_size (page_area_of fl va f) = PAGE_SIZE" "area_flags (page_area_of fl va f) = fl"
  "area_mapper (page_area_of fl va f) = [(va, f)]" "area_start_va (page_area_of fl va f) = va"
  by (simp_all add: page_area_of_def)

lemma backed_by_skip:
  assumes "page_areas ((va, a) # xs)" "backed_by P ((va, a) # xs) p fs" "fs \<noteq> []" "p \<noteq> va"
  shows "backed_by P xs p fs"
proof -
  have "map_of ((va, a) # xs) p \<noteq> None"
    using assms(2,3) by (force simp: backed_by_def dest: spec [of _ 0])
  then have "va < p" using assms(4) page_areas_Cons(4) [OF assms(1), of p] by auto
  then show ?thesis using assms(2) by (auto simp: backed_by_def)
qed

lemma backed_by_next:
  assumes "backed_by P ((p, a) # xs) p (f # fs)"
  shows "\<exists>fl. P fl \<and> a = page_area_of fl p f" "backed_by P xs (p + PAGE_SIZE) fs"
proof -
  show "\<exists>fl. P fl \<and> a = page_area_of fl p f" using assms by (force simp: backed_by_def dest: spec [of _ 0])
  show "backed_by P xs (p + PAGE_SIZE) fs"
    unfolding backed_by_def
  proof (intro allI impI)
    fix i assume "i < length fs"
    then show "\<exists>fl. P fl \<and> map_of xs (p + PAGE_SIZE + i * PAGE_SIZE) =
        Some (page_area_of fl (p + PAGE_SIZE + i * PAGE_SIZE) (fs ! i))"
      using assms [unfolded backed_by_def, rule_format, of "Suc i"] by (simp add: add.assoc)
  qed
qed

section \<open>The loops over areas and over frames\<close>

lemma ptr_copy_0 [simp]: "ptr_copy src dst 0 m = m"
  by (auto simp: ptr_copy_def fun_eq_iff)


lemma fv_read_loop_done: "vw_avail w = 0 \<Longrightarrow> start \<le> PAGE_SIZE \<Longrightarrow> fv_read_loop fs start w m = Some (w, m)"
  by (cases fs) (simp_all add: vr_skip_def vf_reader_def vr_from_raw_parts_def vr_remain_def vr_read_def)


lemma area_read_page:
  assumes "va \<le> cur" "cur < va + PAGE_SIZE" "n \<le> PAGE_SIZE - (cur - va)"
  shows "area_read_data (page_area_of fl va f) cur (dst, n) m = Some (ptr_copy (vf_as_ptr f + (cur - va)) dst n m)"
  using assms
  by (auto simp: area_read_data_def vr_skip_def vf_reader_def vr_from_raw_parts_def vr_remain_def vr_read_def
      vw_has_avail_def vw_of_slice_def vw_from_raw_parts_mut_def vw_avail_def Let_def ptr_copy_def fun_eq_iff)


lemma fv_read_loop_step:
  assumes "s < PAGE_SIZE" "n = min (PAGE_SIZE - s) rem"
  shows "fv_read_loop (f # fs) s \<lparr>w_cursor = dst, w_end = dst + rem\<rparr> m =
    fv_read_loop fs 0 \<lparr>w_cursor = dst + n, w_end = dst + n + (rem - n)\<rparr> (ptr_copy (vf_as_ptr f + s) dst n m)"
proof (cases "rem = 0")
  case True
  then show ?thesis using assms
    by (simp add: fv_read_loop_done vw_avail_def vr_skip_def vf_reader_def
        vr_from_raw_parts_def vr_remain_def vr_read_def cong: if_cong)
next
  case False
  have "n \<noteq> 0" "min (PAGE_SIZE - s) rem = n" "rem = n + (rem - n)" using assms False by simp_all
  then show ?thesis using assms(1)
    by (simp add: vr_skip_def vf_reader_def vr_from_raw_parts_def vr_remain_def vr_read_def vw_avail_def Let_def)
qed


lemma ms_read_loop_fv:
  assumes "page_areas xs" "backed_by (\<lambda>fl. True) xs (page_of cur) fs"
    and "fs \<noteq> []" "cur mod PAGE_SIZE + rem \<le> length fs * PAGE_SIZE"
    and "fv_read_loop fs (cur mod PAGE_SIZE) \<lparr>w_cursor = fst data + off, w_end = fst data + off + rem\<rparr> m = Some (w, m')"
  shows "ms_read_loop xs cur rem off data m = (Ok (), m')"
  using assms
proof (induction xs arbitrary: cur rem off fs m)
  case Nil
  then show ?case by (cases fs) (auto simp: backed_by_def)
next
  case (Cons x xs)
  obtain va a where x: "x = (va, a)" by (cases x)
  note pa = page_areas_Cons [OF Cons.prems(1) [unfolded x]]
  have page: "cur = page_of cur + cur mod PAGE_SIZE" by (simp add: page_of_def)
  show ?case
  proof (cases "page_of cur = va")
    case False
    then have "\<not> (va \<le> cur \<and> cur < va + PAGE_SIZE)" using page_of_range [OF pa(2)] by blast
    then have "ms_read_loop (x # xs) cur rem off data m = ms_read_loop xs cur rem off data m"
      using pa(3) x by (auto simp: add.commute)
    then show ?thesis
      using Cons.IH [OF pa(1) backed_by_skip [OF _ _ _ False] Cons.prems(3-5)] Cons.prems(1-3) x by simp
  next
    case True
    obtain f fs' where fs: "fs = f # fs'" using Cons.prems(3) by (cases fs) auto
    have bb: "backed_by (\<lambda>fl. True) ((va, a) # xs) va (f # fs')"
      using Cons.prems(2) x True fs by simp
    obtain fl where a: "a = page_area_of fl va f"
      using backed_by_next(1) [OF bb] by blast
    define s n where "s = cur mod PAGE_SIZE" and "n = min (PAGE_SIZE - s) rem"
    have cur: "cur = va + s" "s < PAGE_SIZE" using page True by (simp_all add: s_def)
    define m1 where "m1 = ptr_copy (vf_as_ptr f + s) (fst data + off) n m"
    have wr: "area_read_data a cur (fst data + off, n) m = Some m1"
      using area_read_page [of va cur n fl f "fst data + off" m] cur a by (simp add: n_def m1_def)
    have rest: "fv_read_loop fs' 0 \<lparr>w_cursor = fst data + off + n, w_end = fst data + off + n + (rem - n)\<rparr> m1 = Some (w, m')"
      using Cons.prems(5) fv_read_loop_step [OF cur(2) n_def] by (simp add: fs m1_def flip: s_def)
    have len: "min rem (area_size a + va - cur) = n" using a cur by (simp add: n_def min.commute)
    have step: "ms_read_loop (x # xs) cur rem off data m =
        (if rem - n = 0 then (Ok (), m1) else ms_read_loop xs (va + PAGE_SIZE) (rem - n) (off + n) data m1)"
      using cur a wr len by (simp add: x Let_def)
    show ?thesis
    proof (cases "rem - n = 0")
      case True
      then show ?thesis using step rest fv_read_loop_done [of _ 0 fs' m1] by (simp add: vw_avail_def)
    next
      case False
      then have n: "n = PAGE_SIZE - s" by (simp add: n_def min_def split: if_splits)
      have al: "is_page_aligned (va + PAGE_SIZE)" using aligned_add [OF pa(2), of 1] by simp
      have "rem - n \<le> length fs' * PAGE_SIZE" using Cons.prems(4) cur(2) n by (simp add: fs flip: s_def)
      moreover have "fs' \<noteq> []" using calculation False by auto
      ultimately show ?thesis
        using step False Cons.IH [OF pa(1), of "va + PAGE_SIZE" fs' "rem - n" "off + n" m1] rest
          backed_by_next(2) [OF bb] al by (simp add: add.assoc is_page_aligned_def)
    qed
  qed
qed

section \<open>Properties\<close>

text \<open>The kernel address of the byte behind a user address.\<close>

definition vs_ptr :: "memory_set \<Rightarrow> nat \<Rightarrow> nat" where
  "vs_ptr ms va = (case vs_frame ms va of None \<Rightarrow> 0 | Some f \<Rightarrow> vf_as_ptr f + va mod PAGE_SIZE)"

definition vs_writable :: "memory_set \<Rightarrow> nat \<Rightarrow> bool" where
  "vs_writable ms va \<longleftrightarrow>
     (\<exists>a. map_of (ms_areas ms) (page_of va) = Some a \<and> flags_contains (area_flags a) WRITABLE)"

definition page_frames :: "memory_set \<Rightarrow> nat \<Rightarrow> nat \<Rightarrow> vm_frame list" where
  "page_frames ms p n = map (\<lambda>i. the (vs_frame ms (p + i * PAGE_SIZE))) [0..<n]"

definition page_span :: "nat \<Rightarrow> nat \<Rightarrow> nat" where
  "page_span addr len = (addr mod PAGE_SIZE + len + PAGE_SIZE - 1) div PAGE_SIZE"

lemma space_page_areas: "space_inv ms \<Longrightarrow> page_areas (ms_areas ms)"
  unfolding page_areas_def
proof (intro conjI ballI)
  assume inv: "space_inv ms"
  then show wf: "btm_wf (ms_areas ms)" by (simp add: space_inv_def)
  fix x assume "x \<in> set (ms_areas ms)"
  then obtain va a where x: "x = (va, a)" "map_of (ms_areas ms) va = Some a"
    using btm_mem_iff [OF wf] by (metis prod.collapse)
  obtain f where "a = page_area_of (area_flags a) va f" "is_page_aligned va"
    using page_areaD [OF inv x(2)] unfolding page_area_of_def .
  then show "case x of (va, a) \<Rightarrow> is_page_aligned va \<and> (\<exists>fl f. a = page_area_of fl va f)"
    using x(1) by blast
qed

lemma page_frames_backed:
  assumes "space_inv ms" "is_page_aligned p"
    and "\<And>i a. i < n \<Longrightarrow> map_of (ms_areas ms) (p + i * PAGE_SIZE) = Some a \<Longrightarrow> P (area_flags a)"
    and "\<And>i. i < n \<Longrightarrow> vs_frame ms (p + i * PAGE_SIZE) \<noteq> None"
  shows "backed_by P (ms_areas ms) p (page_frames ms p n)"
  unfolding backed_by_def
proof (intro allI impI)
  fix i assume "i < length (page_frames ms p n)"
  then have i: "i < n" by (simp add: page_frames_def)
  let ?p = "p + i * PAGE_SIZE"
  have al: "page_of ?p = ?p" using aligned_add [OF assms(2), of i] by simp
  obtain a where a: "map_of (ms_areas ms) ?p = Some a"
    using assms(4) [OF i] vs_frame_None_iff [OF assms(1), of ?p] al by auto
  obtain f where f: "a = page_area_of (area_flags a) ?p f"
    using page_areaD [OF assms(1) a] unfolding page_area_of_def .
  then have "area_mapper a = [(?p, f)]" by (metis page_area_of_sel(3))
  then have "page_frames ms p n ! i = f" using i a al by (simp add: page_frames_def vs_frame_def)
  then show "\<exists>fl. P fl \<and> map_of (ms_areas ms) ?p = Some (page_area_of fl ?p (page_frames ms p n ! i))"
    using a f assms(3) [OF i a] by (intro exI [of _ "area_flags a"]) simp
qed


lemma vs_frame_page: "vs_frame ms (page_of va) = vs_frame ms va"
  by (simp add: vs_frame_def)

lemma vs_writable_page: "vs_writable ms (page_of va) = vs_writable ms va"
  by (simp add: vs_writable_def)

text \<open>Every page of the span of a range holds an address of the range.\<close>

lemma page_span_hit:
  assumes "i < page_span addr len" "0 < len"
  obtains va where "addr \<le> va" "va < addr + len" "page_of va = page_of addr + i * PAGE_SIZE"
proof (cases i)
  case 0
  then show thesis using that [of addr] assms(2) by simp
next
  case (Suc j)
  let ?va = "page_of addr + i * PAGE_SIZE"
  have addr: "addr = page_of addr + addr mod PAGE_SIZE" by (simp add: page_of_def)
  have "i * PAGE_SIZE + PAGE_SIZE \<le> addr mod PAGE_SIZE + len + PAGE_SIZE - 1"
    using assms(1) less_eq_div_iff_mult_less_eq [of PAGE_SIZE "Suc i"] by (simp add: page_span_def Suc_le_eq)
  then have "?va < addr + len" using addr assms(2) by linarith
  moreover have "addr < ?va" using addr Suc mod_less_divisor [of PAGE_SIZE addr] by linarith
  moreover have "page_of ?va = ?va" using aligned_add [of "page_of addr" i] by simp
  ultimately show thesis by (intro that [of ?va]) simp_all
qed

lemma page_span_fits:
  assumes "0 < len"
  shows "addr mod PAGE_SIZE + len \<le> page_span addr len * PAGE_SIZE" "0 < page_span addr len"
proof -
  let ?t = "addr mod PAGE_SIZE + len"
  have "?t + PAGE_SIZE - 1 < page_span addr len * PAGE_SIZE + PAGE_SIZE"
    unfolding page_span_def using dividend_less_div_times [of PAGE_SIZE "?t + PAGE_SIZE - 1"] by simp
  then show "?t \<le> page_span addr len * PAGE_SIZE" by linarith
  show "0 < page_span addr len" using assms by (simp add: page_span_def div_greater_zero_iff)
qed

lemma fv_addr_page_frames:
  assumes "j < n * PAGE_SIZE" "is_page_aligned p" "\<And>i. i < n \<Longrightarrow> vs_frame ms (p + i * PAGE_SIZE) \<noteq> None"
  shows "fv_addr (page_frames ms p n) j = vs_ptr ms (p + j)"
proof -
  have j: "j div PAGE_SIZE < n" using assms(1) by (simp add: div_less_iff_less_mult)
  have "page_of (p + j) = p + j div PAGE_SIZE * PAGE_SIZE"
    using assms(2) by (auto simp: page_of_def is_page_aligned_def)
  then have "vs_frame ms (p + j) = vs_frame ms (p + j div PAGE_SIZE * PAGE_SIZE)"
    by (metis vs_frame_page)
  moreover have "(p + j) mod PAGE_SIZE = j mod PAGE_SIZE" using assms(2) by (auto simp: is_page_aligned_def)
  ultimately show ?thesis
    using assms(3) [OF j] j by (auto simp: fv_addr_def vs_ptr_def page_frames_def)
qed

text \<open>The frames behind a range.\<close>

abbreviation range_frames :: "memory_set \<Rightarrow> nat \<Rightarrow> nat \<Rightarrow> vm_frame list" where
  "range_frames ms addr len \<equiv> page_frames ms (page_of addr) (page_span addr len)"

lemma range_frames_ok:
  assumes "space_inv ms" "0 < len"
    and mapped: "\<forall>va. addr \<le> va \<and> va < addr + len \<longrightarrow> vs_frame ms va \<noteq> None"
  shows "range_frames ms addr len \<noteq> []" "addr mod PAGE_SIZE + len \<le> length (range_frames ms addr len) * PAGE_SIZE"
    "k < len \<Longrightarrow> fv_addr (range_frames ms addr len) (addr mod PAGE_SIZE + k) = vs_ptr ms (addr + k)"
    "(\<And>va a. addr \<le> va \<Longrightarrow> va < addr + len \<Longrightarrow> map_of (ms_areas ms) (page_of va) = Some a \<Longrightarrow> P (area_flags a)) \<Longrightarrow>
      backed_by P (ms_areas ms) (page_of addr) (range_frames ms addr len)"
proof -
  note fits = page_span_fits [OF assms(2), of addr]
  have m: "vs_frame ms (page_of addr + i * PAGE_SIZE) \<noteq> None" if "i < page_span addr len" for i
    using page_span_hit [OF that assms(2)] mapped by (metis vs_frame_page)
  show "range_frames ms addr len \<noteq> []" "addr mod PAGE_SIZE + len \<le> length (range_frames ms addr len) * PAGE_SIZE"
    using fits by (auto simp: page_frames_def)
  have sum: "page_of addr + (addr mod PAGE_SIZE + k) = addr + k" by (simp add: page_of_def)
  show "fv_addr (range_frames ms addr len) (addr mod PAGE_SIZE + k) = vs_ptr ms (addr + k)" if "k < len"
    using fv_addr_page_frames [of "addr mod PAGE_SIZE + k" "page_span addr len" "page_of addr" ms] m that fits
    unfolding sum by simp
  assume flags: "\<And>va a. addr \<le> va \<Longrightarrow> va < addr + len \<Longrightarrow> map_of (ms_areas ms) (page_of va) = Some a \<Longrightarrow> P (area_flags a)"
  show "backed_by P (ms_areas ms) (page_of addr) (range_frames ms addr len)"
  proof (rule page_frames_backed [OF assms(1) page_of_idem(1) _ m])
    fix i a assume "i < page_span addr len" "map_of (ms_areas ms) (page_of addr + i * PAGE_SIZE) = Some a"
    then show "P (area_flags a)" using page_span_hit [OF _ assms(2)] flags by metis
  qed
qed


text \<open>Reading a non-empty range of mapped user addresses into a buffer that does not overlap the
  frames behind it succeeds, gives the buffer the bytes behind those addresses and changes no
  other memory.\<close>

theorem vs_read_bytes_correct:
  assumes "space_inv ms" "0 < snd buf"
    and "\<forall>va. addr \<le> va \<and> va < addr + snd buf \<longrightarrow> vs_frame ms va \<noteq> None"
    and "slice_apart buf (range_frames ms addr (snd buf))"
  shows "ms_read_bytes ms addr buf m =
    (Ok (), \<lambda>a. if fst buf \<le> a \<and> a < fst buf + snd buf then m (vs_ptr ms (addr + (a - fst buf))) else m a)"
proof -
  let ?fs = "range_frames ms addr (snd buf)" and ?s = "addr mod PAGE_SIZE"
  note ok = range_frames_ok [OF assms(1,2,3)]
  have bb: "backed_by (\<lambda>fl. True) (ms_areas ms) (page_of addr) ?fs" by (rule ok(4)) simp_all
  obtain w' m' where w: "fv_read_loop ?fs ?s (vw_of_slice buf) m = Some (w', m')"
    "fv_was_read ?fs ?s (fst buf) (snd buf) m m'"
    using fv_read_loop_correct [of ?s "vw_of_slice buf" ?fs m] assms(4) by auto
  have "ms_read_bytes ms addr buf m = (Ok (), m')"
    unfolding ms_read_bytes_def
    by (rule ms_read_loop_fv [OF space_page_areas [OF assms(1)] bb ok(1,2)])
      (use w(1) in \<open>simp_all add: vw_of_slice_def vw_from_raw_parts_mut_def\<close>)
  moreover have "min (snd buf) (fv_nbytes ?fs - ?s) = snd buf" using ok(2) by (simp add: fv_nbytes_def)
  then have read: "m' a = (if fst buf \<le> a \<and> a < fst buf + snd buf
      then m (fv_addr ?fs (?s + (a - fst buf))) else m a)" for a
    using w(2) unfolding fv_was_read_def by simp
  have "m' = (\<lambda>a. if fst buf \<le> a \<and> a < fst buf + snd buf then m (vs_ptr ms (addr + (a - fst buf))) else m a)"
  proof
    fix a
    have "fst buf \<le> a \<Longrightarrow> a < fst buf + snd buf \<Longrightarrow> a - fst buf < snd buf" by linarith
    then show "m' a = (if fst buf \<le> a \<and> a < fst buf + snd buf then m (vs_ptr ms (addr + (a - fst buf))) else m a)"
      using read [of a] ok(3) [of "a - fst buf"] by presburger
  qed
  ultimately show ?thesis by simp
qed

section \<open>Witnesses\<close>


lemma demo_range_frames: "range_frames demo_two 0x400ff8 16 = [128, 129]"
  by (simp add: page_span_def page_frames_def page_of_def demo_two_ok(2) in_pages_def upt_rec)


theorem vs_read_bytes_correct_witness:
  "\<exists>m'. ms_read_bytes demo_two 0x400ff8 (0x1000, 16) demo_mem = (Ok (), m') \<and>
     m' 0x1008 = demo_mem (vs_ptr demo_two 0x401000)"
proof -
  have "slice_apart (0x1000, 16) [128, 129]"
    by (rule low_slice_apart) (simp add: PHYS_OFFSET_def)
  then show ?thesis
    using vs_read_bytes_correct [OF demo_two_ok(1), of "(0x1000, 16)" "0x400ff8" demo_mem]
      demo_range_frames demo_two_ok(2) by (auto simp: in_pages_def)
qed

end
