(* ===== verification/Virt_Queue.thy ===== *)
theory Virt_Queue
  imports Vm_Frame
begin

text \<open>
  The split virtqueue of \<^verbatim>\<open>services/comps/virtio/src/queue.rs\<close>.

  The descriptor table and the rings live in DMA memory that is addressed entry by entry, so they
  are functions from the entry's index; the used ring is written by the device, and the model
  takes it as it finds it. Ring indices are 16-bit words and wrap; descriptor indices are numbers
  below \<open>2 ^ 16\<close>. \<^verbatim>\<open>descs\<close> holds one pointer more than the queue has descriptors, so an
  index panics from \<open>queue_size + 1\<close> on. The operations on a DMA pointer that the code unwraps
  stay inside the mapped frames for the sizes \<^verbatim>\<open>new\<close> admits. The kernel page table that
  \<^verbatim>\<open>vaddr_to_paddr\<close> reads is an argument.
\<close>

section \<open>State\<close>

datatype queue_error = QInvalidArgs | BufferTooSmall | NotReady | AlreadyUsed | WrongToken

record descriptor =
  d_addr :: nat
  d_len :: nat
  d_flags :: "16 word"
  d_next :: nat

definition DESC_NEXT :: "16 word" where "DESC_NEXT = 1"
definition DESC_WRITE :: "16 word" where "DESC_WRITE = 2"

record avail_ring =
  av_flags :: "16 word"
  av_idx :: "16 word"
  av_ring :: "nat \<Rightarrow> nat"

record used_elem =
  ue_id :: nat
  ue_len :: nat

record used_ring =
  us_flags :: "16 word"
  us_idx :: "16 word"
  us_ring :: "nat \<Rightarrow> used_elem"

record virt_queue =
  vq_descs :: "nat \<Rightarrow> descriptor"
  vq_avail :: avail_ring
  vq_used :: used_ring
  vq_notify :: "nat list"
  vq_queue_idx :: nat
  vq_queue_size :: nat
  vq_num_used :: nat
  vq_free_head :: nat
  vq_avail_idx :: "16 word"
  vq_last_used_idx :: "16 word"

section \<open>Operations\<close>

definition u16_is_power_of_two :: "nat \<Rightarrow> bool" where
  "u16_is_power_of_two n \<longleftrightarrow> n \<in> set (map (\<lambda>k. 2 ^ k) [0..<16])"

definition zero_desc :: descriptor where
  "zero_desc = \<lparr>d_addr = 0, d_len = 0, d_flags = 0, d_next = 0\<rparr>"

text \<open>\<open>used\<close> is the used ring in the memory handed to the device; \<open>set_queue_ok\<close> and
  \<open>notify_ok\<close> say whether the transport accepted the queue and gave a notification address.\<close>

definition vq_new ::
    "nat \<Rightarrow> nat \<Rightarrow> bool \<Rightarrow> bool \<Rightarrow> bool \<Rightarrow> used_ring \<Rightarrow> (queue_error, virt_queue) result" where
  "vq_new idx sz is_legacy set_queue_ok notify_ok used =
     (if \<not> u16_is_power_of_two sz then Err QInvalidArgs
      else if is_legacy \<and> sz > 128 then Err QInvalidArgs
      else if \<not> is_legacy \<and> sz > 256 then Err QInvalidArgs
      else if \<not> set_queue_ok \<or> \<not> notify_ok then Panic
      else Ok \<lparr>vq_descs = (\<lambda>i. if i < sz - 1 then zero_desc\<lparr>d_next := i + 1\<rparr> else zero_desc),
               vq_avail = \<lparr>av_flags = 0, av_idx = 0, av_ring = (\<lambda>_. 0)\<rparr>,
               vq_used = used, vq_notify = [], vq_queue_idx = idx, vq_queue_size = sz,
               vq_num_used = 0, vq_free_head = 0, vq_avail_idx = 0, vq_last_used_idx = 0\<rparr>)"

definition KERNEL_OFFSET :: nat where "KERNEL_OFFSET = 0xffffffff80000000"

definition vm_vaddr_to_paddr :: "page_table \<Rightarrow> nat \<Rightarrow> nat option" where
  "vm_vaddr_to_paddr kpt va =
     (if PHYS_OFFSET \<le> va \<and> va \<le> KERNEL_OFFSET then Some (va - PHYS_OFFSET)
      else pt_vaddr_to_paddr kpt va)"

definition set_buf_slice :: "page_table \<Rightarrow> slice \<Rightarrow> descriptor \<Rightarrow> descriptor option" where
  "set_buf_slice kpt buf desc =
     map_option (\<lambda>pa. desc\<lparr>d_addr := pa, d_len := snd buf mod 2 ^ 32\<rparr>) (vm_vaddr_to_paddr kpt (fst buf))"

definition set_buf_reader :: "page_table \<Rightarrow> vm_reader \<Rightarrow> descriptor \<Rightarrow> descriptor option" where
  "set_buf_reader kpt reader desc =
     map_option (\<lambda>pa. desc\<lparr>d_addr := pa, d_len := vr_remain reader mod 2 ^ 32\<rparr>)
       (vm_vaddr_to_paddr kpt (r_cursor reader))"

definition set_buf_writer :: "page_table \<Rightarrow> vm_writer \<Rightarrow> descriptor \<Rightarrow> descriptor option" where
  "set_buf_writer kpt writer desc =
     map_option (\<lambda>pa. desc\<lparr>d_addr := pa, d_len := vw_avail writer mod 2 ^ 32\<rparr>)
       (vm_vaddr_to_paddr kpt (w_cursor writer))"

text \<open>The two loops that take descriptors from the free list; \<open>tail\<close> is the descriptor filled last.\<close>

fun alloc_descs ::
    "('b \<Rightarrow> descriptor \<Rightarrow> descriptor option) \<Rightarrow> 16 word \<Rightarrow> 'b list \<Rightarrow> virt_queue \<Rightarrow> nat \<Rightarrow> (virt_queue \<times> nat) option" where
  "alloc_descs set_buf flags [] q tail = Some (q, tail)"
| "alloc_descs set_buf flags (b # bs) q tail =
     (let i = vq_free_head q in
      if i > vq_queue_size q then None
      else case set_buf b (vq_descs q i) of
             None \<Rightarrow> None
           | Some desc \<Rightarrow>
               alloc_descs set_buf flags bs
                 (q\<lparr>vq_descs := (vq_descs q)(i := desc\<lparr>d_flags := flags\<rparr>), vq_free_head := d_next desc\<rparr>) i)"

text \<open>The end of the chain and the available ring.\<close>

definition publish_chain :: "virt_queue \<Rightarrow> nat \<Rightarrow> nat \<Rightarrow> nat \<Rightarrow> (queue_error, nat \<times> virt_queue) result" where
  "publish_chain q head tail n =
     (if tail > vq_queue_size q then Panic
      else
        let descs = (vq_descs q)(tail := (vq_descs q tail)\<lparr>d_flags := d_flags (vq_descs q tail) AND NOT DESC_NEXT\<rparr>);
            avail_slot = unat (vq_avail_idx q AND of_nat (vq_queue_size q - 1));
            avail_idx = vq_avail_idx q + 1
        in Ok (head, q\<lparr>vq_descs := descs, vq_num_used := vq_num_used q + n,
                       vq_avail := (vq_avail q)\<lparr>av_ring := (av_ring (vq_avail q))(avail_slot := head), av_idx := avail_idx\<rparr>,
                       vq_avail_idx := avail_idx\<rparr>))"

definition add_buf ::
    "page_table \<Rightarrow> virt_queue \<Rightarrow> slice list \<Rightarrow> slice list \<Rightarrow> (queue_error, nat \<times> virt_queue) result" where
  "add_buf kpt q inputs outputs =
     (if inputs = [] \<and> outputs = [] then Err QInvalidArgs
      else if length inputs + length outputs + vq_num_used q > vq_queue_size q then Err BufferTooSmall
      else
        let head = vq_free_head q in
        case alloc_descs (set_buf_slice kpt) DESC_NEXT inputs q head of
          None \<Rightarrow> Panic
        | Some (q1, last1) \<Rightarrow>
            (case alloc_descs (set_buf_slice kpt) (DESC_NEXT OR DESC_WRITE) outputs q1 last1 of
               None \<Rightarrow> Panic
             | Some (q2, last2) \<Rightarrow> publish_chain q2 head last2 (length inputs + length outputs)))"

definition add_vm ::
    "page_table \<Rightarrow> virt_queue \<Rightarrow> vm_reader list \<Rightarrow> vm_writer list \<Rightarrow> (queue_error, nat \<times> virt_queue) result" where
  "add_vm kpt q inputs outputs =
     (if inputs = [] \<and> outputs = [] then Err QInvalidArgs
      else if length inputs + length outputs + vq_num_used q > vq_queue_size q then Err BufferTooSmall
      else
        let head = vq_free_head q in
        case alloc_descs (set_buf_reader kpt) DESC_NEXT inputs q head of
          None \<Rightarrow> Panic
        | Some (q1, last1) \<Rightarrow>
            (case alloc_descs (set_buf_writer kpt) (DESC_NEXT OR DESC_WRITE) outputs q1 last1 of
               None \<Rightarrow> Panic
             | Some (q2, last2) \<Rightarrow> publish_chain q2 head last2 (length inputs + length outputs)))"

definition can_pop :: "virt_queue \<Rightarrow> bool" where
  "can_pop q \<longleftrightarrow> vq_last_used_idx q \<noteq> us_idx (vq_used q)"

definition available_desc :: "virt_queue \<Rightarrow> nat" where
  "available_desc q = vq_queue_size q - vq_num_used q"

text \<open>The loop of \<^verbatim>\<open>recycle_descriptors\<close> counts the used descriptors down and panics below
  zero, so it is a recursion on that count.\<close>

fun recycle_loop :: "virt_queue \<Rightarrow> nat \<Rightarrow> nat \<Rightarrow> nat \<Rightarrow> virt_queue option" where
  "recycle_loop q origin_free_head head 0 = None"
| "recycle_loop q origin_free_head head (Suc n) =
     (if head > vq_queue_size q then None
      else
        let desc = vq_descs q head; q' = q\<lparr>vq_num_used := n\<rparr> in
        if d_flags desc AND DESC_NEXT = DESC_NEXT then recycle_loop q' origin_free_head (d_next desc) n
        else Some (q'\<lparr>vq_descs := (vq_descs q)(head := desc\<lparr>d_next := origin_free_head\<rparr>)\<rparr>))"

definition recycle_descriptors :: "virt_queue \<Rightarrow> nat \<Rightarrow> virt_queue option" where
  "recycle_descriptors q head =
     (let origin_free_head = vq_free_head q;
          last_free_head = (if head = 0 then vq_queue_size q - 1 else head - 1)
      in if last_free_head > vq_queue_size q then None
         else
           let q' = q\<lparr>vq_free_head := head,
                      vq_descs := (vq_descs q)(last_free_head := (vq_descs q last_free_head)\<lparr>d_next := head\<rparr>)\<rparr>
           in recycle_loop q' origin_free_head head (vq_num_used q))"

definition used_element :: "virt_queue \<Rightarrow> used_elem" where
  "used_element q = us_ring (vq_used q) (unat (vq_last_used_idx q AND of_nat (vq_queue_size q - 1)))"

definition pop_used :: "virt_queue \<Rightarrow> (queue_error, (nat \<times> nat) \<times> virt_queue) result" where
  "pop_used q =
     (if \<not> can_pop q then Err NotReady
      else
        let e = used_element q; index = ue_id e mod 2 ^ 16 in
        case recycle_descriptors q index of
          None \<Rightarrow> Panic
        | Some q' \<Rightarrow> Ok ((index, ue_len e), q'\<lparr>vq_last_used_idx := vq_last_used_idx q + 1\<rparr>))"

definition pop_used_with_token :: "virt_queue \<Rightarrow> nat \<Rightarrow> (queue_error, nat \<times> virt_queue) result" where
  "pop_used_with_token q token =
     (if \<not> can_pop q then Err NotReady
      else
        let e = used_element q; index = ue_id e mod 2 ^ 16 in
        if index \<noteq> token then Err WrongToken
        else case recycle_descriptors q index of
               None \<Rightarrow> Panic
             | Some q' \<Rightarrow> Ok (ue_len e, q'\<lparr>vq_last_used_idx := vq_last_used_idx q + 1\<rparr>))"

definition should_notify :: "virt_queue \<Rightarrow> bool" where
  "should_notify q \<longleftrightarrow> us_flags (vq_used q) AND 1 = 0"

definition vq_notify_device :: "virt_queue \<Rightarrow> virt_queue" where
  "vq_notify_device q = q\<lparr>vq_notify := vq_notify q @ [vq_queue_idx q]\<rparr>"

section \<open>Free list and chains\<close>

primrec follow :: "(nat \<Rightarrow> descriptor) \<Rightarrow> nat \<Rightarrow> nat \<Rightarrow> nat list" where
  "follow ds h 0 = []"
| "follow ds h (Suc n) = h # follow ds (d_next (ds h)) n"

definition free_list :: "virt_queue \<Rightarrow> nat list" where
  "free_list q = follow (vq_descs q) (vq_free_head q) (vq_queue_size q - vq_num_used q)"

definition vq_inv :: "virt_queue \<Rightarrow> bool" where
  "vq_inv q \<longleftrightarrow> 1 \<le> vq_queue_size q \<and> vq_num_used q \<le> vq_queue_size q \<and>
     distinct (free_list q) \<and> (\<forall>i \<in> set (free_list q). i < vq_queue_size q)"

text \<open>A chain in flight: linked through \<^verbatim>\<open>next\<close> while the flag \<^verbatim>\<open>NEXT\<close> is set.\<close>

fun is_chain :: "(nat \<Rightarrow> descriptor) \<Rightarrow> nat \<Rightarrow> nat list \<Rightarrow> bool" where
  "is_chain ds h [] \<longleftrightarrow> False"
| "is_chain ds h [i] \<longleftrightarrow> i = h \<and> d_flags (ds i) AND DESC_NEXT \<noteq> DESC_NEXT"
| "is_chain ds h (i # j # xs) \<longleftrightarrow> i = h \<and> d_flags (ds i) AND DESC_NEXT = DESC_NEXT \<and>
     is_chain ds (d_next (ds i)) (j # xs)"

section \<open>Taking descriptors\<close>

lemma follow_cong: "(\<And>i. d_next (ds' i) = d_next (ds i)) \<Longrightarrow> follow ds' h n = follow ds h n"
  by (induction n arbitrary: h) simp_all

lemma length_follow [simp]: "length (follow ds h n) = n"
  by (induction n arbitrary: h) simp_all

lemma follow_add: "follow ds h (m + n) = follow ds h m @ follow ds (((\<lambda>i. d_next (ds i)) ^^ m) h) n"
  by (induction m arbitrary: h) (simp_all add: funpow_swap1 [of "\<lambda>i. d_next (ds i)"])


text \<open>A routine that stores a buffer in a descriptor: its physical address and its length.\<close>

locale buf_setter =
  fixes set_buf :: "'b \<Rightarrow> descriptor \<Rightarrow> descriptor option"
    and addr_of :: "'b \<Rightarrow> nat option"
    and len_of :: "'b \<Rightarrow> nat"
  assumes set_buf_eq: "set_buf b d = map_option (\<lambda>pa. d\<lparr>d_addr := pa, d_len := len_of b\<rparr>) (addr_of b)"
begin

lemma alloc_descs_spec:
  assumes "\<And>b. b \<in> set bs \<Longrightarrow> addr_of b \<noteq> None"
    and "distinct (follow (vq_descs q) (vq_free_head q) (length bs))"
    and "\<And>i. i \<in> set (follow (vq_descs q) (vq_free_head q) (length bs)) \<Longrightarrow> i < vq_queue_size q"
  defines "F \<equiv> follow (vq_descs q) (vq_free_head q) (length bs)"
  shows "\<exists>ds. alloc_descs set_buf flags bs q t =
      Some (q\<lparr>vq_descs := ds, vq_free_head := ((\<lambda>i. d_next (vq_descs q i)) ^^ length bs) (vq_free_head q)\<rparr>, last (t # F)) \<and>
    (\<forall>i. d_next (ds i) = d_next (vq_descs q i)) \<and> (\<forall>i. i \<notin> set F \<longrightarrow> ds i = vq_descs q i) \<and>
    (\<forall>j < length bs. addr_of (bs ! j) = Some (d_addr (ds (F ! j))) \<and> d_len (ds (F ! j)) = len_of (bs ! j) \<and>
       d_flags (ds (F ! j)) = flags)"
  using assms(1-3) unfolding F_def
proof (induction bs arbitrary: q t)
  case Nil
  then show ?case by (intro exI [of _ "vq_descs q"]) simp
next
  case (Cons b bs)
  let ?i = "vq_free_head q" and ?ds = "vq_descs q"
  obtain pa where pa: "addr_of b = Some pa" using Cons.prems(1) by auto
  define d where "d = (?ds ?i)\<lparr>d_addr := pa, d_len := len_of b, d_flags := flags\<rparr>"
  define q1 where "q1 = q\<lparr>vq_descs := ?ds(?i := d), vq_free_head := d_next (?ds ?i)\<rparr>"
  have nx: "d_next ((?ds(?i := d)) i) = d_next (?ds i)" for i by (simp add: d_def)
  have F1: "follow (vq_descs q1) (vq_free_head q1) (length bs) = follow ?ds (d_next (?ds ?i)) (length bs)"
    unfolding q1_def using nx by (simp add: follow_cong [OF nx])
  have step: "alloc_descs set_buf flags (b # bs) q t = alloc_descs set_buf flags bs q1 ?i"
    using Cons.prems(3) [of ?i] pa by (auto simp: Let_def set_buf_eq q1_def d_def)
  obtain ds where ds: "alloc_descs set_buf flags bs q1 ?i =
      Some (q1\<lparr>vq_descs := ds, vq_free_head := ((\<lambda>i. d_next (vq_descs q1 i)) ^^ length bs) (vq_free_head q1)\<rparr>,
        last (?i # follow ?ds (d_next (?ds ?i)) (length bs)))"
    "\<And>i. d_next (ds i) = d_next (vq_descs q1 i)"
    "\<And>i. i \<notin> set (follow ?ds (d_next (?ds ?i)) (length bs)) \<Longrightarrow> ds i = vq_descs q1 i"
    "\<And>j. j < length bs \<Longrightarrow> addr_of (bs ! j) = Some (d_addr (ds (follow ?ds (d_next (?ds ?i)) (length bs) ! j))) \<and>
       d_len (ds (follow ?ds (d_next (?ds ?i)) (length bs) ! j)) = len_of (bs ! j) \<and>
       d_flags (ds (follow ?ds (d_next (?ds ?i)) (length bs) ! j)) = flags"
  proof -
    have sz: "vq_queue_size q1 = vq_queue_size q" by (simp add: q1_def)
    have "distinct (follow (vq_descs q1) (vq_free_head q1) (length bs))"
      "i \<in> set (follow (vq_descs q1) (vq_free_head q1) (length bs)) \<Longrightarrow> i < vq_queue_size q1" for i
      unfolding F1 sz using Cons.prems(2,3) by simp_all
    then show thesis using Cons.IH [of q1 ?i] Cons.prems(1) that unfolding F1 by auto
  qed
  have dsi: "ds ?i = d" using ds(3) [of ?i] Cons.prems(2) by (simp add: q1_def)
  have fr: "q1\<lparr>vq_descs := ds, vq_free_head := ((\<lambda>i. d_next (vq_descs q1 i)) ^^ length bs) (vq_free_head q1)\<rparr> =
      q\<lparr>vq_descs := ds, vq_free_head := ((\<lambda>i. d_next (?ds i)) ^^ length (b # bs)) ?i\<rparr>"
    using nx by (simp add: q1_def funpow_swap1 [of "\<lambda>i. d_next (?ds i)"])
  show ?case
  proof (intro exI [of _ ds] conjI allI impI)
    fix j assume "j < length (b # bs)"
    then show "addr_of ((b # bs) ! j) = Some (d_addr (ds (follow ?ds ?i (length (b # bs)) ! j)))"
      "d_len (ds (follow ?ds ?i (length (b # bs)) ! j)) = len_of ((b # bs) ! j)"
      "d_flags (ds (follow ?ds ?i (length (b # bs)) ! j)) = flags"
      using ds(4) [of "j - 1"] pa dsi by (cases j; simp add: d_def)+
  qed (use step ds fr nx in \<open>auto simp: q1_def\<close>)
qed

end

interpretation slice_setter: buf_setter "set_buf_slice kpt" "\<lambda>b. vm_vaddr_to_paddr kpt (fst b)" "\<lambda>b. snd b mod 2 ^ 32"
  for kpt by unfold_locales (simp add: set_buf_slice_def)

interpretation reader_setter: buf_setter "set_buf_reader kpt" "\<lambda>r. vm_vaddr_to_paddr kpt (r_cursor r)" "\<lambda>r. vr_remain r mod 2 ^ 32"
  for kpt by unfold_locales (simp add: set_buf_reader_def)

interpretation writer_setter: buf_setter "set_buf_writer kpt" "\<lambda>w. vm_vaddr_to_paddr kpt (w_cursor w)" "\<lambda>w. vw_avail w mod 2 ^ 32"
  for kpt by unfold_locales (simp add: set_buf_writer_def)


section \<open>Adding a chain\<close>

lemma is_chain_follow:
  assumes "0 < n" "\<And>i. i \<in> set (butlast (follow ds h n)) \<Longrightarrow> d_flags (ds i) AND DESC_NEXT = DESC_NEXT"
    and "d_flags (ds (last (follow ds h n))) AND DESC_NEXT \<noteq> DESC_NEXT"
  shows "is_chain ds h (follow ds h n)"
  using assms
proof (induction n arbitrary: h)
  case (Suc n)
  then show ?case by (cases n) auto
qed simp

text \<open>The descriptors of a request: device-readable ones first, then device-writable ones.\<close>

definition request_stored ::
    "page_table \<Rightarrow> (nat \<Rightarrow> descriptor) \<Rightarrow> nat list \<Rightarrow> vm_reader list \<Rightarrow> vm_writer list \<Rightarrow> bool" where
  "request_stored kpt ds xs inputs outputs \<longleftrightarrow> length xs = length inputs + length outputs \<and>
     (\<forall>j < length inputs. vm_vaddr_to_paddr kpt (r_cursor (inputs ! j)) = Some (d_addr (ds (xs ! j))) \<and>
        d_len (ds (xs ! j)) = vr_remain (inputs ! j) mod 2 ^ 32 \<and> d_flags (ds (xs ! j)) AND DESC_WRITE = 0) \<and>
     (\<forall>j < length outputs.
        vm_vaddr_to_paddr kpt (w_cursor (outputs ! j)) = Some (d_addr (ds (xs ! (length inputs + j)))) \<and>
        d_len (ds (xs ! (length inputs + j))) = vw_avail (outputs ! j) mod 2 ^ 32 \<and>
        d_flags (ds (xs ! (length inputs + j))) AND DESC_WRITE \<noteq> 0)"

lemma desc_flag_facts:
  "DESC_NEXT AND DESC_NEXT = DESC_NEXT" "(DESC_NEXT OR DESC_WRITE) AND DESC_NEXT = DESC_NEXT"
  "DESC_NEXT AND DESC_WRITE = 0" "(DESC_NEXT OR DESC_WRITE) AND DESC_WRITE \<noteq> 0"
  "(DESC_NEXT AND NOT DESC_NEXT) AND DESC_NEXT \<noteq> DESC_NEXT" "(DESC_NEXT AND NOT DESC_NEXT) AND DESC_WRITE = 0"
  "((DESC_NEXT OR DESC_WRITE) AND NOT DESC_NEXT) AND DESC_NEXT \<noteq> DESC_NEXT"
  "((DESC_NEXT OR DESC_WRITE) AND NOT DESC_NEXT) AND DESC_WRITE \<noteq> 0"
  by (simp_all add: DESC_NEXT_def DESC_WRITE_def)

lemma free_list_take:
  assumes "vq_inv q" "n + vq_num_used q \<le> vq_queue_size q"
  defines "F \<equiv> follow (vq_descs q) (vq_free_head q) n"
  shows "free_list q = F @ follow (vq_descs q) (((\<lambda>i. d_next (vq_descs q i)) ^^ n) (vq_free_head q))
      (vq_queue_size q - (vq_num_used q + n))"
    and "distinct F" and "\<forall>i \<in> set F. i < vq_queue_size q" and "take n (free_list q) = F"
    and "drop n (free_list q) = follow (vq_descs q) (((\<lambda>i. d_next (vq_descs q i)) ^^ n) (vq_free_head q))
      (vq_queue_size q - (vq_num_used q + n))"
proof -
  have "vq_queue_size q - vq_num_used q = n + (vq_queue_size q - (vq_num_used q + n))" using assms(2) by simp
  then show eq: "free_list q = F @ follow (vq_descs q) (((\<lambda>i. d_next (vq_descs q i)) ^^ n) (vq_free_head q))
      (vq_queue_size q - (vq_num_used q + n))"
    unfolding free_list_def F_def by (metis follow_add)
  show "distinct F" "\<forall>i \<in> set F. i < vq_queue_size q" using assms(1) eq by (auto simp: vq_inv_def)
  show "take n (free_list q) = F"
    "drop n (free_list q) = follow (vq_descs q) (((\<lambda>i. d_next (vq_descs q i)) ^^ n) (vq_free_head q))
      (vq_queue_size q - (vq_num_used q + n))"
    unfolding eq by (simp_all add: F_def)
qed

lemma publish_spec:
  assumes inv: "vq_inv q" and room: "n + vq_num_used q \<le> vq_queue_size q" "0 < n"
  defines "F \<equiv> follow (vq_descs q) (vq_free_head q) n"
  assumes nx: "\<And>i. d_next (ds i) = d_next (vq_descs q i)" and out: "\<And>i. i \<notin> set F \<Longrightarrow> ds i = vq_descs q i"
    and fl: "\<And>i. i \<in> set F \<Longrightarrow> d_flags (ds i) = DESC_NEXT \<or> d_flags (ds i) = DESC_NEXT OR DESC_WRITE"
    and q2: "q2 = q\<lparr>vq_descs := ds, vq_free_head := ((\<lambda>i. d_next (vq_descs q i)) ^^ n) (vq_free_head q)\<rparr>"
  shows "\<exists>q'. publish_chain q2 (vq_free_head q) (last F) n = Ok (vq_free_head q, q') \<and> vq_inv q' \<and>
    is_chain (vq_descs q') (vq_free_head q) F \<and> free_list q' = drop n (free_list q) \<and>
    vq_num_used q' = vq_num_used q + n \<and> vq_queue_size q' = vq_queue_size q \<and>
    av_idx (vq_avail q') = vq_avail_idx q + 1 \<and> vq_avail_idx q' = vq_avail_idx q + 1 \<and>
    av_ring (vq_avail q') (unat (vq_avail_idx q AND of_nat (vq_queue_size q - 1))) = vq_free_head q \<and>
    (\<forall>i. i \<notin> set F \<longrightarrow> vq_descs q' i = vq_descs q i) \<and>
    (\<forall>i. d_addr (vq_descs q' i) = d_addr (ds i) \<and> d_len (vq_descs q' i) = d_len (ds i) \<and>
       d_flags (vq_descs q' i) AND DESC_WRITE = d_flags (ds i) AND DESC_WRITE)"
proof -
  note fr = free_list_take [OF inv room(1), folded F_def]
  have F: "F \<noteq> []" "length F = n" using room(2) by (auto simp: F_def simp flip: length_greater_0_conv)
  have lastF: "last F \<in> set F" "last F < vq_queue_size q" using F(1) fr(3) by auto
  define ds' where "ds' = ds(last F := (ds (last F))\<lparr>d_flags := d_flags (ds (last F)) AND NOT DESC_NEXT\<rparr>)"
  have nx': "d_next (ds' i) = d_next (vq_descs q i)" for i by (simp add: ds'_def nx)
  have fol: "follow ds' h k = follow (vq_descs q) h k" for h k by (rule follow_cong) (rule nx')
  obtain q' where q': "publish_chain q2 (vq_free_head q) (last F) n = Ok (vq_free_head q, q')" "vq_descs q' = ds'"
    "vq_num_used q' = vq_num_used q + n" "vq_queue_size q' = vq_queue_size q"
    "vq_free_head q' = ((\<lambda>i. d_next (vq_descs q i)) ^^ n) (vq_free_head q)"
    "av_idx (vq_avail q') = vq_avail_idx q + 1" "vq_avail_idx q' = vq_avail_idx q + 1"
    "av_ring (vq_avail q') (unat (vq_avail_idx q AND of_nat (vq_queue_size q - 1))) = vq_free_head q"
    using lastF(2) by (auto simp: publish_chain_def q2 Let_def ds'_def)
  have free: "free_list q' = drop n (free_list q)"
    unfolding free_list_def [of q'] q' fol using fr(5) by simp
  have "distinct (drop n (free_list q))" "set (drop n (free_list q)) \<subseteq> set (free_list q)"
    using inv by (auto simp: vq_inv_def dest: in_set_dropD)
  then have "vq_inv q'" using inv room(1) unfolding vq_inv_def free q' by auto
  moreover have "is_chain ds' (vq_free_head q) F"
    unfolding F_def fol [symmetric]
  proof (rule is_chain_follow [OF room(2)])
    fix i assume "i \<in> set (butlast (follow ds' (vq_free_head q) n))"
    then have i: "i \<in> set (butlast F)" by (simp add: fol F_def)
    then have "i \<noteq> last F" using fr(2) F(1) by (metis append_butlast_last_id distinct.simps(2) distinct_append
        disjoint_insert(1) list.set(2) inf_commute)
    moreover have "i \<in> set F" using i by (meson in_set_butlastD)
    ultimately show "d_flags (ds' i) AND DESC_NEXT = DESC_NEXT"
      using fl [of i] desc_flag_facts(1,2) by (auto simp: ds'_def)
  next
    show "d_flags (ds' (last (follow ds' (vq_free_head q) n))) AND DESC_NEXT \<noteq> DESC_NEXT"
      unfolding fol F_def [symmetric] using fl [OF lastF(1)] desc_flag_facts(5,7) by (auto simp: ds'_def)
  qed
  moreover have "d_flags (ds' i) AND DESC_WRITE = d_flags (ds i) AND DESC_WRITE" for i
    by (simp add: ds'_def and.assoc) (simp add: DESC_NEXT_def DESC_WRITE_def)
  moreover have "ds' i = vq_descs q i" if "i \<notin> set F" for i using out [OF that] lastF(1) that by (auto simp: ds'_def)
  moreover have "d_addr (ds' i) = d_addr (ds i)" "d_len (ds' i) = d_len (ds i)" for i by (simp_all add: ds'_def)
  ultimately show ?thesis using q' free by (intro exI [of _ q']) simp
qed

text \<open>The two allocation phases of a request.\<close>

lemma phases_spec:
  assumes inv: "vq_inv q" and room: "a + b + vq_num_used q \<le> vq_queue_size q"
    and q1: "q1 = q\<lparr>vq_descs := ds1, vq_free_head := ((\<lambda>i. d_next (vq_descs q i)) ^^ a) (vq_free_head q)\<rparr>"
    and nx1: "\<And>i. d_next (ds1 i) = d_next (vq_descs q i)"
  defines "F \<equiv> follow (vq_descs q) (vq_free_head q) (a + b)"
  shows "follow (vq_descs q) (vq_free_head q) a = take a F"
    and "follow (vq_descs q1) (vq_free_head q1) b = drop a F"
    and "distinct F" and "length F = a + b" and "\<And>i. i \<in> set F \<Longrightarrow> i < vq_queue_size q"
    and "((\<lambda>i. d_next (vq_descs q1 i)) ^^ b) (vq_free_head q1) = ((\<lambda>i. d_next (vq_descs q i)) ^^ (a + b)) (vq_free_head q)"
proof -
  note fr = free_list_take [OF inv room, folded F_def]
  have fol: "follow (vq_descs q1) h n = follow (vq_descs q) h n" for h n
    by (rule follow_cong) (simp add: q1 nx1)
  have split: "F = follow (vq_descs q) (vq_free_head q) a @ follow (vq_descs q) (vq_free_head q1) b"
    unfolding F_def by (simp add: follow_add q1)
  show "follow (vq_descs q) (vq_free_head q) a = take a F" "follow (vq_descs q1) (vq_free_head q1) b = drop a F"
    unfolding split fol by simp_all
  show "distinct F" "length F = a + b" "\<And>i. i \<in> set F \<Longrightarrow> i < vq_queue_size q"
    using fr(2,3) by (simp_all add: F_def)
  show "((\<lambda>i. d_next (vq_descs q1 i)) ^^ b) (vq_free_head q1) = ((\<lambda>i. d_next (vq_descs q i)) ^^ (a + b)) (vq_free_head q)"
    using nx1 by (simp add: q1 funpow_add add.commute [of a b])
qed

lemma phases_combine:
  assumes "distinct F" "length F = a + b" and out2: "\<And>i. i \<notin> set (drop a F) \<Longrightarrow> ds2 i = ds1 i"
  shows "j < a \<Longrightarrow> ds2 (F ! j) = ds1 (take a F ! j)"
    and "(\<And>j. j < a \<Longrightarrow> P (ds1 (take a F ! j))) \<Longrightarrow> (\<And>j. j < b \<Longrightarrow> Q (ds2 (drop a F ! j))) \<Longrightarrow>
      i \<in> set F \<Longrightarrow> P (ds2 i) \<or> Q (ds2 i)"
proof -
  have head: "ds2 (F ! j) = ds1 (take a F ! j)" if "j < a" for j
  proof -
    have j: "j < length (take a F)" using that assms(2) by simp
    then have "take a F ! j \<in> set (take a F)" by (rule nth_mem)
    then have "take a F ! j \<notin> set (drop a F)"
      using assms(1) set_take_disj_set_drop_if_distinct [of F a a] by auto
    then show ?thesis using out2 that by simp
  qed
  then show "j < a \<Longrightarrow> ds2 (F ! j) = ds1 (take a F ! j)" .
  assume P: "\<And>j. j < a \<Longrightarrow> P (ds1 (take a F ! j))" and Q: "\<And>j. j < b \<Longrightarrow> Q (ds2 (drop a F ! j))"
    and "i \<in> set F"
  then obtain j where j: "j < a + b" "i = F ! j" using assms(2) by (metis in_set_conv_nth)
  show "P (ds2 i) \<or> Q (ds2 i)"
  proof (cases "j < a")
    case True
    then show ?thesis using head P j(2) by simp
  next
    case False
    then have "drop a F ! (j - a) = i" "j - a < b" using j assms(2) by simp_all
    then show ?thesis using Q [of "j - a"] by simp
  qed
qed

lemma add_vm_result:
  assumes inv: "vq_inv q" and ne: "inputs \<noteq> [] \<or> outputs \<noteq> []"
    and room: "length inputs + length outputs + vq_num_used q \<le> vq_queue_size q"
    and addr: "\<forall>r \<in> set inputs. vm_vaddr_to_paddr kpt (r_cursor r) \<noteq> None"
      "\<forall>w \<in> set outputs. vm_vaddr_to_paddr kpt (w_cursor w) \<noteq> None"
  defines "n \<equiv> length inputs + length outputs" and "F \<equiv> take (length inputs + length outputs) (free_list q)"
  shows "\<exists>q'. add_vm kpt q inputs outputs = Ok (vq_free_head q, q') \<and> vq_inv q' \<and>
    is_chain (vq_descs q') (vq_free_head q) F \<and> request_stored kpt (vq_descs q') F inputs outputs \<and>
    free_list q' = drop n (free_list q) \<and> vq_num_used q' = vq_num_used q + n \<and>
    vq_queue_size q' = vq_queue_size q \<and> av_idx (vq_avail q') = vq_avail_idx q + 1 \<and>
    av_ring (vq_avail q') (unat (vq_avail_idx q AND of_nat (vq_queue_size q - 1))) = vq_free_head q \<and>
    (\<forall>i. i \<notin> set F \<longrightarrow> vq_descs q' i = vq_descs q i)"
proof -
  let ?a = "length inputs" and ?b = "length outputs" and ?h = "vq_free_head q"
  have F: "F = follow (vq_descs q) ?h (?a + ?b)" using free_list_take(4) [OF inv room] by (simp add: F_def)
  have pre: "distinct (follow (vq_descs q) ?h ?a)" "i \<in> set (follow (vq_descs q) ?h ?a) \<Longrightarrow> i < vq_queue_size q" for i
    using phases_spec(1,3,5) [OF inv room, of _ "vq_descs q"] by (auto dest: in_set_takeD)
  obtain ds1 where A1: "alloc_descs (set_buf_reader kpt) DESC_NEXT inputs q ?h =
      Some (q\<lparr>vq_descs := ds1, vq_free_head := ((\<lambda>i. d_next (vq_descs q i)) ^^ ?a) ?h\<rparr>, last (?h # follow (vq_descs q) ?h ?a))"
    and nx1: "\<And>i. d_next (ds1 i) = d_next (vq_descs q i)"
    and out1: "\<And>i. i \<notin> set (follow (vq_descs q) ?h ?a) \<Longrightarrow> ds1 i = vq_descs q i"
    and in1: "\<And>j. j < ?a \<Longrightarrow> vm_vaddr_to_paddr kpt (r_cursor (inputs ! j)) = Some (d_addr (ds1 (follow (vq_descs q) ?h ?a ! j))) \<and>
      d_len (ds1 (follow (vq_descs q) ?h ?a ! j)) = vr_remain (inputs ! j) mod 2 ^ 32 \<and>
      d_flags (ds1 (follow (vq_descs q) ?h ?a ! j)) = DESC_NEXT"
    using reader_setter.alloc_descs_spec [of inputs kpt q DESC_NEXT ?h] addr(1) pre by blast
  define q1 where "q1 = q\<lparr>vq_descs := ds1, vq_free_head := ((\<lambda>i. d_next (vq_descs q i)) ^^ ?a) ?h\<rparr>"
  note ph = phases_spec [OF inv room q1_def nx1, folded F]
  have pre2: "distinct (follow (vq_descs q1) (vq_free_head q1) ?b)"
    "i \<in> set (follow (vq_descs q1) (vq_free_head q1) ?b) \<Longrightarrow> i < vq_queue_size q1" for i
    using ph(2,3,5) by (auto simp: q1_def dest: in_set_dropD)
  obtain ds2 where A2: "alloc_descs (set_buf_writer kpt) (DESC_NEXT OR DESC_WRITE) outputs q1 (last (?h # take ?a F)) =
      Some (q1\<lparr>vq_descs := ds2, vq_free_head := ((\<lambda>i. d_next (vq_descs q1 i)) ^^ ?b) (vq_free_head q1)\<rparr>,
        last (last (?h # take ?a F) # drop ?a F))"
    and nx2: "\<And>i. d_next (ds2 i) = d_next (vq_descs q1 i)"
    and out2: "\<And>i. i \<notin> set (drop ?a F) \<Longrightarrow> ds2 i = vq_descs q1 i"
    and in2: "\<And>j. j < ?b \<Longrightarrow> vm_vaddr_to_paddr kpt (w_cursor (outputs ! j)) = Some (d_addr (ds2 (drop ?a F ! j))) \<and>
      d_len (ds2 (drop ?a F ! j)) = vw_avail (outputs ! j) mod 2 ^ 32 \<and>
      d_flags (ds2 (drop ?a F ! j)) = DESC_NEXT OR DESC_WRITE"
    using writer_setter.alloc_descs_spec [of outputs kpt q1 "DESC_NEXT OR DESC_WRITE" "last (?h # take ?a F)"] addr(2) pre2
    unfolding ph(2) by blast
  define q2 where "q2 = q1\<lparr>vq_descs := ds2, vq_free_head := ((\<lambda>i. d_next (vq_descs q1 i)) ^^ ?b) (vq_free_head q1)\<rparr>"
  have F_ne: "F \<noteq> []" "0 < ?a + ?b" using ph(4) ne by auto
  have tail: "last (last (?h # take ?a F) # drop ?a F) = last F"
    using F_ne(1) append_take_drop_id [of ?a F] by (metis append_Nil2 last_ConsL last_ConsR last_appendR)
  have out2': "ds2 i = ds1 i" if "i \<notin> set (drop ?a F)" for i using out2 [OF that] by (simp add: q1_def)
  note comb = phases_combine [where ?ds2.0 = ds2 and ?ds1.0 = ds1, OF ph(3,4) out2']
  have fl: "d_flags (ds2 i) = DESC_NEXT \<or> d_flags (ds2 i) = DESC_NEXT OR DESC_WRITE" if "i \<in> set F" for i
    by (rule comb(2) [where P = "\<lambda>d. d_flags d = DESC_NEXT"]) (use in1 in2 that ph(1) in simp_all)
  have nx: "d_next (ds2 i) = d_next (vq_descs q i)" for i using nx1 nx2 by (simp add: q1_def)
  have out: "ds2 i = vq_descs q i" if "i \<notin> set F" for i
  proof -
    have "i \<notin> set (take ?a F)" "i \<notin> set (drop ?a F)" using that by (auto dest: in_set_takeD in_set_dropD)
    then show ?thesis using out1 [of i] out2' [of i] ph(1) by simp
  qed
  have q2: "q2 = q\<lparr>vq_descs := ds2, vq_free_head := ((\<lambda>i. d_next (vq_descs q i)) ^^ (?a + ?b)) ?h\<rparr>"
    unfolding q2_def ph(6) by (simp add: q1_def)
  have "add_vm kpt q inputs outputs = publish_chain q2 ?h (last F) (?a + ?b)"
    using ne room A1 A2 tail ph(1) by (auto simp: add_vm_def Let_def q2_def simp flip: q1_def)
  then obtain q' where q': "add_vm kpt q inputs outputs = Ok (?h, q')" "vq_inv q'" "is_chain (vq_descs q') ?h F"
    "free_list q' = drop (?a + ?b) (free_list q)" "vq_num_used q' = vq_num_used q + (?a + ?b)"
    "vq_queue_size q' = vq_queue_size q" "av_idx (vq_avail q') = vq_avail_idx q + 1"
    "av_ring (vq_avail q') (unat (vq_avail_idx q AND of_nat (vq_queue_size q - 1))) = ?h"
    "\<forall>i. i \<notin> set F \<longrightarrow> vq_descs q' i = vq_descs q i"
    "\<And>i. d_addr (vq_descs q' i) = d_addr (ds2 i)" "\<And>i. d_len (vq_descs q' i) = d_len (ds2 i)"
    "\<And>i. d_flags (vq_descs q' i) AND DESC_WRITE = d_flags (ds2 i) AND DESC_WRITE"
    using publish_spec [OF inv room F_ne(2), folded F, OF nx out fl q2] by auto
  have "request_stored kpt (vq_descs q') F inputs outputs"
    unfolding request_stored_def q'(10-12)
    using in1 in2 comb(1) ph(1,4) desc_flag_facts(3,4) by simp
  then show ?thesis using q' unfolding n_def by blast
qed

section \<open>Recycling a chain\<close>







section \<open>Properties\<close>

text \<open>A new queue. \<^verbatim>\<open>VirtQueue::new\<close> accepts exactly the powers of two up to 128 (legacy
  transport) or 256, and a queue it returns has all its descriptors, in order, on the free list.\<close>

theorem vq_new_correct:
  "case vq_new idx sz legacy True True used of
     Ok q \<Rightarrow> u16_is_power_of_two sz \<and> sz \<le> (if legacy then 128 else 256) \<and> vq_inv q \<and>
       free_list q = [0..<sz] \<and> available_desc q = sz
   | Err e \<Rightarrow> e = QInvalidArgs \<and> \<not> (u16_is_power_of_two sz \<and> sz \<le> (if legacy then 128 else 256))
   | Panic \<Rightarrow> False"
proof -
  define ds where "ds = (\<lambda>i. if i < sz - 1 then zero_desc\<lparr>d_next := i + 1\<rparr> else zero_desc)"
  have fol: "follow ds k n = [k..<k + n]" if "k + n \<le> sz" for k n
    using that
  proof (induction n arbitrary: k)
    case (Suc n)
    have "follow ds (d_next (ds k)) n = [Suc k..<Suc k + n]"
    proof (cases "n = 0")
      case False
      then have "k < sz - 1" using Suc.prems by linarith
      then have "d_next (ds k) = Suc k" by (simp add: ds_def)
      then show ?thesis using Suc.IH [of "Suc k"] Suc.prems by simp
    qed simp
    then show ?case by (simp add: upt_conv_Cons del: upt_Suc)
  qed simp
  have pos: "u16_is_power_of_two sz \<Longrightarrow> 0 < sz" by (auto simp: u16_is_power_of_two_def)
  show ?thesis
    using fol [of 0 sz] pos
    by (auto simp: vq_new_def vq_inv_def free_list_def available_desc_def ds_def)
qed


text \<open>Adding a request to a well-formed queue with enough free descriptors. \<^verbatim>\<open>add_vm\<close> takes
  the first descriptors of the free list, links them into a chain that starts at the returned
  token, stores the physical address and length of each buffer with the device-readable buffers
  first, and publishes the token in the available ring; the rest of the free list and every
  other descriptor are untouched. With no buffers it fails with \<^verbatim>\<open>InvalidArgs\<close>, with too few
  descriptors with \<^verbatim>\<open>BufferTooSmall\<close>.\<close>

theorem add_vm_correct:
  assumes "vq_inv q"
    and "\<forall>r \<in> set inputs. vm_vaddr_to_paddr kpt (r_cursor r) \<noteq> None"
    and "\<forall>w \<in> set outputs. vm_vaddr_to_paddr kpt (w_cursor w) \<noteq> None"
  defines "n \<equiv> length inputs + length outputs"
  shows "if n = 0 then add_vm kpt q inputs outputs = Err QInvalidArgs
    else if available_desc q < n then add_vm kpt q inputs outputs = Err BufferTooSmall
    else \<exists>q'. add_vm kpt q inputs outputs = Ok (vq_free_head q, q') \<and> vq_inv q' \<and>
      is_chain (vq_descs q') (vq_free_head q) (take n (free_list q)) \<and>
      request_stored kpt (vq_descs q') (take n (free_list q)) inputs outputs \<and>
      free_list q' = drop n (free_list q) \<and>
      av_ring (vq_avail q') (unat (vq_avail_idx q AND of_nat (vq_queue_size q - 1))) = vq_free_head q \<and>
      av_idx (vq_avail q') = vq_avail_idx q + 1 \<and>
      (\<forall>i. i \<notin> set (take n (free_list q)) \<longrightarrow> vq_descs q' i = vq_descs q i)"
proof -
  have "vq_num_used q \<le> vq_queue_size q" using assms(1) by (simp add: vq_inv_def)
  then show ?thesis
    using add_vm_result [OF assms(1) _ _ assms(2,3)]
    by (auto simp: n_def available_desc_def add_vm_def)
qed


text \<open>Popping with a token never takes another request's completion: if the used ring's next
  element has a different identifier the call fails with \<^verbatim>\<open>WrongToken\<close>, and on success the
  outcome is that of \<^verbatim>\<open>pop_used\<close>.\<close>

theorem pop_used_with_token_agrees:
  "pop_used_with_token q token =
     (case pop_used q of
        Err e \<Rightarrow> Err e
      | _ \<Rightarrow> if ue_id (used_element q) mod 2 ^ 16 \<noteq> token then Err WrongToken
             else rmap (\<lambda>(r, q'). (snd r, q')) (pop_used q))"
  by (auto simp: pop_used_with_token_def pop_used_def Let_def split: option.splits result.splits)


text \<open>Four requests of one buffer each fill a queue of four descriptors; the device completes the
  requests 0, 1 and 2 in this order and the driver pops them; three more requests follow.\<close>

definition one_buffer :: vm_reader where
  "one_buffer = \<lparr>r_cursor = PHYS_OFFSET, r_end = PHYS_OFFSET + 8\<rparr>"

fun add_many :: "page_table \<Rightarrow> nat \<Rightarrow> virt_queue \<Rightarrow> (queue_error, nat list \<times> virt_queue) result" where
  "add_many kpt 0 q = Ok ([], q)"
| "add_many kpt (Suc n) q =
     rbind (add_vm kpt q [one_buffer] []) (\<lambda>(t, q1). rbind (add_many kpt n q1) (\<lambda>(ts, q2). Ok (t # ts, q2)))"

fun pop_many :: "nat \<Rightarrow> virt_queue \<Rightarrow> (queue_error, virt_queue) result" where
  "pop_many 0 q = Ok q"
| "pop_many (Suc n) q = rbind (pop_used q) (\<lambda>(_, q1). pop_many n q1)"

definition no_used :: used_ring where
  "no_used = \<lparr>us_flags = 0, us_idx = 0, us_ring = (\<lambda>_. \<lparr>ue_id = 0, ue_len = 0\<rparr>)\<rparr>"

definition device_completes_three :: "virt_queue \<Rightarrow> virt_queue" where
  "device_completes_three q = q\<lparr>vq_used := \<lparr>us_flags = 0, us_idx = 3, us_ring = (\<lambda>i. \<lparr>ue_id = i, ue_len = 8\<rparr>)\<rparr>\<rparr>"

definition in_order_run :: "page_table \<Rightarrow> (queue_error, nat list \<times> nat list) result" where
  "in_order_run kpt =
     rbind (vq_new 0 4 False True True no_used) (\<lambda>q0.
     rbind (add_many kpt 4 q0) (\<lambda>(ts, q1).
     rbind (pop_many 3 (device_completes_three q1)) (\<lambda>q2.
     rbind (add_many kpt 3 q2) (\<lambda>(us, q3). Ok (ts, us)))))"

text \<open>What matters of a queue of four: counters, links, and no \<^verbatim>\<open>NEXT\<close> flag.\<close>

definition view4 :: "virt_queue \<Rightarrow> nat \<Rightarrow> nat \<Rightarrow> (nat \<Rightarrow> nat) \<Rightarrow> bool" where
  "view4 q used head nexts \<longleftrightarrow> vq_queue_size q = 4 \<and> vq_num_used q = used \<and> vq_free_head q = head \<and>
     (\<forall>i. d_next (vq_descs q i) = nexts i \<and> d_flags (vq_descs q i) AND DESC_NEXT \<noteq> DESC_NEXT)"

lemma view4_add:
  assumes "view4 q u h nx" "u < 4" "h < 4"
  shows "\<exists>q'. add_vm kpt q [one_buffer] [] = Ok (h, q') \<and> view4 q' (Suc u) (nx h) nx \<and>
    vq_used q' = vq_used q \<and> vq_last_used_idx q' = vq_last_used_idx q"
proof -
  have "set_buf_reader kpt one_buffer d = Some (d\<lparr>d_addr := 0, d_len := 8\<rparr>)" for d
    by (simp add: set_buf_reader_def vm_vaddr_to_paddr_def one_buffer_def KERNEL_OFFSET_def PHYS_OFFSET_def vr_remain_def)
  then show ?thesis
    using assms by (auto simp: add_vm_def Let_def publish_chain_def view4_def DESC_NEXT_def)
qed

lemma view4_pop:
  assumes "view4 q u h nx" "0 < u" "can_pop q" "ue_id (used_element q) = i" "i < 4"
  shows "\<exists>r q'. pop_used q = Ok (r, q') \<and> view4 q' (u - 1) i (nx((if i = 0 then 3 else i - 1) := i, i := h)) \<and>
    vq_used q' = vq_used q \<and> vq_last_used_idx q' = vq_last_used_idx q + 1"
proof -
  define p where "p = (if i = 0 then 3 else i - 1)"
  obtain v where u: "u = Suc v" using assms(2) by (cases u) auto
  define q' where "q' = q\<lparr>vq_free_head := i, vq_num_used := v, vq_descs := (vq_descs q)
    (p := (vq_descs q p)\<lparr>d_next := i\<rparr>, i := (vq_descs q i)\<lparr>d_next := h\<rparr>)\<rparr>"
  have p: "p \<noteq> i" "p < 4" "(if i = 0 then vq_queue_size q - 1 else i - 1) = p"
    using assms(1,5) by (auto simp: p_def view4_def)
  have "recycle_descriptors q i = Some q'"
    unfolding recycle_descriptors_def Let_def p(3) using assms(1,5) u p(1,2) by (simp add: view4_def q'_def)
  moreover have "view4 q' v i (nx(p := i, i := h))"
    using assms(1) by (simp add: view4_def q'_def)
  ultimately show ?thesis
    using assms(3-5) u
    by (intro exI [of _ "(i, ue_len (used_element q))"] exI [of _ "q'\<lparr>vq_last_used_idx := vq_last_used_idx q + 1\<rparr>"])
      (simp add: pop_used_def Let_def p_def q'_def view4_def)
qed

lemma view4_add_many:
  assumes "view4 q u h nx" "u + n \<le> 4" "\<And>k. k < n \<Longrightarrow> (nx ^^ k) h < 4"
  shows "\<exists>q'. add_many kpt n q = Ok (map (\<lambda>k. (nx ^^ k) h) [0..<n], q') \<and> view4 q' (u + n) ((nx ^^ n) h) nx \<and>
    vq_used q' = vq_used q \<and> vq_last_used_idx q' = vq_last_used_idx q"
  using assms
proof (induction n arbitrary: q u h)
  case (Suc n)
  obtain q1 where q1: "add_vm kpt q [one_buffer] [] = Ok (h, q1)" "view4 q1 (Suc u) (nx h) nx"
    "vq_used q1 = vq_used q" "vq_last_used_idx q1 = vq_last_used_idx q"
    using view4_add [OF Suc.prems(1)] Suc.prems(2) Suc.prems(3) [of 0] by fastforce
  have "(nx ^^ k) (nx h) < 4" if "k < n" for k using Suc.prems(3) [of "Suc k"] that by (simp add: funpow_swap1)
  with Suc.IH [OF q1(2)] Suc.prems(2) obtain q2 where q2: "add_many kpt n q1 = Ok (map (\<lambda>k. (nx ^^ k) (nx h)) [0..<n], q2)"
    "view4 q2 (Suc u + n) ((nx ^^ n) (nx h)) nx" "vq_used q2 = vq_used q1" "vq_last_used_idx q2 = vq_last_used_idx q1"
    by auto
  have "map (\<lambda>k. (nx ^^ k) h) [0..<Suc n] = h # map (\<lambda>k. (nx ^^ k) (nx h)) [0..<n]"
    by (simp add: upt_conv_Cons map_Suc_upt [symmetric] funpow_swap1 del: upt_Suc)
  then show ?case using q1 q2 by (simp add: funpow_swap1)
qed simp

text \<open>C24: In-order completion corrupts the free list: in that run the three later requests get the
  tokens 2, 1 and 2, so descriptor 2 is handed out a second time while its request is in flight.\<close>

theorem in_order_completion_double_allocates: "in_order_run kpt = Ok ([0, 1, 2, 3], [2, 1, 2])"
proof -
  define nx where "nx = (\<lambda>i::nat. if i < 3 then i + 1 else 0)"
  have "u16_is_power_of_two 4" by (auto simp: u16_is_power_of_two_def intro: image_eqI [of _ _ 2])
  then obtain q0 where q0: "vq_new 0 4 False True True no_used = Ok q0" "view4 q0 0 0 nx" "vq_last_used_idx q0 = 0"
    by (simp add: vq_new_def view4_def zero_desc_def DESC_NEXT_def nx_def)
  have nx4: "map (\<lambda>k. (nx ^^ k) 0) [0..<4] = [0, 1, 2, 3]" "(nx ^^ 4) 0 = 0" "\<And>k. k < 4 \<Longrightarrow> (nx ^^ k) 0 < 4"
    by (auto simp: nx_def eval_nat_numeral less_Suc_eq)
  obtain q1 where q1: "add_many kpt 4 q0 = Ok ([0, 1, 2, 3], q1)" "view4 q1 4 0 nx" "vq_last_used_idx q1 = 0"
    using view4_add_many [OF q0(2), of 4 kpt] nx4 q0(3) by auto
  define d where "d = device_completes_three q1"
  have d: "view4 d 4 0 nx" "vq_last_used_idx d = 0"
    using q1(2,3) by (simp_all add: d_def device_completes_three_def view4_def)
  have completed: "can_pop q \<and> ue_id (used_element q) = unat (vq_last_used_idx q)"
    if "vq_used q = vq_used d" "vq_queue_size q = 4" "vq_last_used_idx q \<in> {0, 1, 2}" for q
    using that by (auto simp: can_pop_def used_element_def d_def device_completes_three_def)
  obtain r q2 where q2: "pop_used d = Ok (r, q2)" "view4 q2 3 0 (nx(3 := 0, 0 := 0))"
    "vq_used q2 = vq_used d" "vq_last_used_idx q2 = 1"
    using view4_pop [OF d(1), of 0] completed [of d] d by (auto simp: view4_def)
  obtain r' q3 where q3: "pop_used q2 = Ok (r', q3)" "view4 q3 2 1 (nx(3 := 0, 0 := 1, 1 := 0))"
    "vq_used q3 = vq_used d" "vq_last_used_idx q3 = 2"
    using view4_pop [OF q2(2), of 1] completed [of q2] q2 by (auto simp: view4_def)
  obtain r'' q4 where q4: "pop_used q3 = Ok (r'', q4)" "view4 q4 1 2 (nx(3 := 0, 0 := 1, 1 := 2, 2 := 1))"
    using view4_pop [OF q3(2), of 2] completed [of q3] q3 by (auto simp: view4_def)
  have "pop_many 3 d = Ok q4" using q2(1) q3(1) q4(1) by (simp add: eval_nat_numeral)
  moreover obtain q5 where "add_many kpt 3 q4 = Ok ([2, 1, 2], q5)"
  proof -
    define ny where "ny = nx(3 := 0, 0 := 1, 1 := 2, 2 := 1)"
    have "map (\<lambda>k. (ny ^^ k) 2) [0..<3] = [2, 1, 2]" "k < 3 \<Longrightarrow> (ny ^^ k) 2 < 4" for k
      by (auto simp: ny_def eval_nat_numeral less_Suc_eq)
    then show thesis using view4_add_many [OF q4(2) [folded ny_def], of 3 kpt] that by auto
  qed
  ultimately show ?thesis using q0(1) q1(1) by (simp add: in_order_run_def flip: d_def)
qed

section \<open>Witnesses\<close>

lemma demo_queue: "\<exists>q. vq_new 0 4 False True True no_used = Ok q \<and> vq_inv q \<and> free_list q = [0, 1, 2, 3] \<and>
    vq_free_head q = 0 \<and> vq_num_used q = 0 \<and> vq_queue_size q = 4 \<and> vq_last_used_idx q = 0"
proof -
  have "u16_is_power_of_two 4" by (auto simp: u16_is_power_of_two_def intro: image_eqI [of _ _ 2])
  then show ?thesis
    by (auto simp: vq_new_def vq_inv_def free_list_def zero_desc_def eval_nat_numeral)
qed

definition demo_kpt :: page_table where
  "demo_kpt = \<lparr>pm = (\<lambda>_. 0), pt_root = 0, pt_tables = [], pt_width = 4, pt_supply = [], pt_flushes = []\<rparr>"

lemma one_buffer_addr: "vm_vaddr_to_paddr kpt (r_cursor one_buffer) \<noteq> None"
  by (simp add: vm_vaddr_to_paddr_def one_buffer_def KERNEL_OFFSET_def PHYS_OFFSET_def)

theorem add_vm_correct_witness:
  "\<exists>q q'. vq_new 0 4 False True True no_used = Ok q \<and> add_vm demo_kpt q [one_buffer, one_buffer] [] = Ok (0, q') \<and>
     is_chain (vq_descs q') 0 [0, 1] \<and> free_list q' = [2, 3]"
proof -
  obtain q where q: "vq_new 0 4 False True True no_used = Ok q" "vq_inv q" "free_list q = [0, 1, 2, 3]"
    "vq_free_head q = 0" "vq_num_used q = 0" "vq_queue_size q = 4" using demo_queue by blast
  then show ?thesis
    using add_vm_correct [OF q(2), of "[one_buffer, one_buffer]" demo_kpt "[]"] one_buffer_addr
    by (auto simp: available_desc_def)
qed



end
