(* ===== verification/Sig_Queues.thy ===== *)
theory Sig_Queues
  imports Subject "HOL-Library.Word"
begin

text \<open>
  Signal numbers, masks and the queues of pending signals:
  \<^verbatim>\<open>services/libs/aster-std/src/process/signal/\<close>\<^verbatim>\<open>{constants,sig_num,sig_mask,events,sig_queues}.rs\<close>.

  A signal number is a number from 1 to 64; a mask is a 64-bit word. Signals themselves are trait
  objects: the model is polymorphic in their type and takes their number as a function
  (\<open>num\<close>). The queues notify their subject, so \<^verbatim>\<open>enqueue\<close> also yields the observers it calls.
\<close>

section \<open>Numbers\<close>

abbreviation MIN_STD_SIG_NUM :: nat where "MIN_STD_SIG_NUM \<equiv> 1"
abbreviation MAX_STD_SIG_NUM :: nat where "MAX_STD_SIG_NUM \<equiv> 31"
abbreviation MIN_RT_SIG_NUM :: nat where "MIN_RT_SIG_NUM \<equiv> 32"
abbreviation MAX_RT_SIG_NUM :: nat where "MAX_RT_SIG_NUM \<equiv> 64"
abbreviation COUNT_STD_SIGS :: nat where "COUNT_STD_SIGS \<equiv> 31"
abbreviation COUNT_RT_SIGS :: nat where "COUNT_RT_SIGS \<equiv> 33"
abbreviation COUNT_ALL_SIGS :: nat where "COUNT_ALL_SIGS \<equiv> 64"

abbreviation SIGHUP :: nat where "SIGHUP \<equiv> 1"
abbreviation SIGINT :: nat where "SIGINT \<equiv> 2"
abbreviation SIGQUIT :: nat where "SIGQUIT \<equiv> 3"
abbreviation SIGILL :: nat where "SIGILL \<equiv> 4"
abbreviation SIGTRAP :: nat where "SIGTRAP \<equiv> 5"
abbreviation SIGABRT :: nat where "SIGABRT \<equiv> 6"
abbreviation SIGBUS :: nat where "SIGBUS \<equiv> 7"
abbreviation SIGFPE :: nat where "SIGFPE \<equiv> 8"
abbreviation SIGKILL :: nat where "SIGKILL \<equiv> 9"
abbreviation SIGUSR1 :: nat where "SIGUSR1 \<equiv> 10"
abbreviation SIGSEGV :: nat where "SIGSEGV \<equiv> 11"
abbreviation SIGUSR2 :: nat where "SIGUSR2 \<equiv> 12"
abbreviation SIGPIPE :: nat where "SIGPIPE \<equiv> 13"
abbreviation SIGALRM :: nat where "SIGALRM \<equiv> 14"
abbreviation SIGTERM :: nat where "SIGTERM \<equiv> 15"
abbreviation SIGSTKFLT :: nat where "SIGSTKFLT \<equiv> 16"
abbreviation SIGCHLD :: nat where "SIGCHLD \<equiv> 17"
abbreviation SIGCONT :: nat where "SIGCONT \<equiv> 18"
abbreviation SIGSTOP :: nat where "SIGSTOP \<equiv> 19"
abbreviation SIGTSTP :: nat where "SIGTSTP \<equiv> 20"
abbreviation SIGTTIN :: nat where "SIGTTIN \<equiv> 21"
abbreviation SIGTTOU :: nat where "SIGTTOU \<equiv> 22"
abbreviation SIGURG :: nat where "SIGURG \<equiv> 23"
abbreviation SIGXCPU :: nat where "SIGXCPU \<equiv> 24"
abbreviation SIGXFSZ :: nat where "SIGXFSZ \<equiv> 25"
abbreviation SIGVTALRM :: nat where "SIGVTALRM \<equiv> 26"
abbreviation SIGPROF :: nat where "SIGPROF \<equiv> 27"
abbreviation SIGWINCH :: nat where "SIGWINCH \<equiv> 28"
abbreviation SIGIO :: nat where "SIGIO \<equiv> 29"
abbreviation SIGPWR :: nat where "SIGPWR \<equiv> 30"
abbreviation SIGSYS :: nat where "SIGSYS \<equiv> 31"

definition signum_ok :: "nat \<Rightarrow> bool" where
  "signum_ok n \<longleftrightarrow> MIN_STD_SIG_NUM \<le> n \<and> n \<le> MAX_RT_SIG_NUM"

definition signum_try_from :: "nat \<Rightarrow> nat res" where
  "signum_try_from n = (if \<not> signum_ok n then Err EINVAL else Ok n)"

definition signum_from_u8 :: "nat \<Rightarrow> nat option" where
  "signum_from_u8 n = (if n > MAX_RT_SIG_NUM \<or> n < MIN_STD_SIG_NUM then None else Some n)"

definition is_std :: "nat \<Rightarrow> bool" where
  "is_std n \<longleftrightarrow> n \<le> MAX_STD_SIG_NUM"

definition is_real_time :: "nat \<Rightarrow> bool" where
  "is_real_time n \<longleftrightarrow> n \<ge> MIN_RT_SIG_NUM"

definition sig_name :: "nat \<Rightarrow> string" where
  "sig_name n =
     (case map_of
        [(SIGHUP, ''SIGHUP''), (SIGINT, ''SIGINT''), (SIGQUIT, ''SIGQUIT''), (SIGILL, ''SIGILL''),
         (SIGTRAP, ''SIGTRAP''), (SIGABRT, ''SIGABRT''), (SIGBUS, ''SIGBUS''), (SIGFPE, ''SIGFPE''),
         (SIGKILL, ''SIGKILL''), (SIGUSR1, ''SIGUSR1''), (SIGSEGV, ''SIGSEGV''), (SIGUSR2, ''SIGUSR2''),
         (SIGPIPE, ''SIGPIPE''), (SIGALRM, ''SIGALRM''), (SIGTERM, ''SIGTERM''), (SIGSTKFLT, ''SIGSTKFLT''),
         (SIGCHLD, ''SIGCHLD''), (SIGCONT, ''SIGCONT''), (SIGSTOP, ''SIGSTOP''), (SIGTSTP, ''SIGTSTP''),
         (SIGTTIN, ''SIGTTIN''), (SIGTTOU, ''SIGTTOU''), (SIGURG, ''SIGURG''), (SIGXCPU, ''SIGXCPU''),
         (SIGXFSZ, ''SIGXFSZ''), (SIGVTALRM, ''SIGVTALRM''), (SIGPROF, ''SIGPROF''), (SIGWINCH, ''SIGWINCH''),
         (SIGIO, ''SIGIO''), (SIGPWR, ''SIGPWR''), (SIGSYS, ''SIGSYS'')] n of
        Some s \<Rightarrow> s
      | None \<Rightarrow> ''Realtime Signal'')"

section \<open>Masks\<close>

unbundle bit_operations_syntax

definition sm_num_to_idx :: "nat \<Rightarrow> nat" where
  "sm_num_to_idx n = n - MIN_STD_SIG_NUM"

definition sm_of_signum :: "nat \<Rightarrow> 64 word" where
  "sm_of_signum n = push_bit (sm_num_to_idx n) 1"

definition sm_block :: "64 word \<Rightarrow> 64 word \<Rightarrow> 64 word" where
  "sm_block m block_sets = m OR block_sets"

definition sm_unblock :: "64 word \<Rightarrow> 64 word \<Rightarrow> 64 word" where
  "sm_unblock m unblock_sets = m AND NOT unblock_sets"

definition sm_set :: "64 word \<Rightarrow> 64 word \<Rightarrow> 64 word" where
  "sm_set m new_set = new_set"

definition sm_contains :: "64 word \<Rightarrow> nat \<Rightarrow> bool" where
  "sm_contains m n \<longleftrightarrow> m AND push_bit (sm_num_to_idx n) 1 \<noteq> 0"

definition sm_remove_signal :: "64 word \<Rightarrow> nat \<Rightarrow> 64 word" where
  "sm_remove_signal m n = m AND NOT (push_bit (sm_num_to_idx n) 1)"

definition sm_add_signal :: "64 word \<Rightarrow> nat \<Rightarrow> 64 word" where
  "sm_add_signal m n = m OR push_bit (sm_num_to_idx n) 1"

definition sig_events_filter :: "64 word \<Rightarrow> nat \<Rightarrow> bool" where
  "sig_events_filter flt event \<longleftrightarrow> \<not> sm_contains flt event"

section \<open>Queues\<close>

record ('s, 'o) sig_queues =
  sq_count :: nat
  sq_std :: "'s option list"
  sq_rt :: "'s list list"
  sq_subject :: "('o, 64 word) subject"

definition sq_new :: "('s, 'o) sig_queues" where
  "sq_new = \<lparr>sq_count = 0, sq_std = replicate COUNT_STD_SIGS None, sq_rt = replicate COUNT_RT_SIGS [],
             sq_subject = subject_new\<rparr>"

definition sq_is_empty :: "('s, 'o) sig_queues \<Rightarrow> bool" where
  "sq_is_empty q \<longleftrightarrow> sq_count q = 0"

text \<open>An index outside the vector panics (\<open>None\<close>), as does the debug assertion.\<close>

definition std_idx :: "('s, 'o) sig_queues \<Rightarrow> nat \<Rightarrow> nat option" where
  "std_idx q n = (if is_std n \<and> MIN_STD_SIG_NUM \<le> n \<and> n - MIN_STD_SIG_NUM < length (sq_std q)
                  then Some (n - MIN_STD_SIG_NUM) else None)"

definition rt_idx :: "('s, 'o) sig_queues \<Rightarrow> nat \<Rightarrow> nat option" where
  "rt_idx q n = (if is_real_time n \<and> n - MIN_RT_SIG_NUM < length (sq_rt q)
                 then Some (n - MIN_RT_SIG_NUM) else None)"

definition sq_enqueue ::
    "('o::linorder \<Rightarrow> bool) \<Rightarrow> ('s \<Rightarrow> nat) \<Rightarrow> ('s, 'o) sig_queues \<Rightarrow> 's \<Rightarrow> ('o list \<times> ('s, 'o) sig_queues) option" where
  "sq_enqueue alive num q signal =
     (let signum = num signal;
          notify = (\<lambda>q'. case notify_observers alive sig_events_filter (sq_subject q') signum of
                           (calls, subj) \<Rightarrow> (calls, q'\<lparr>sq_subject := subj\<rparr>))
      in if is_std signum then
           Option.bind (std_idx q signum) (\<lambda>i.
             if sq_std q ! i \<noteq> None then Some ([], q)
             else Some (notify (q\<lparr>sq_std := (sq_std q)[i := Some signal], sq_count := sq_count q + 1\<rparr>)))
         else
           Option.bind (rt_idx q signum) (\<lambda>i.
             Some (notify (q\<lparr>sq_rt := (sq_rt q)[i := sq_rt q ! i @ [signal]], sq_count := sq_count q + 1\<rparr>))))"

definition ORDERED_STD_SIGS :: "nat list" where
  "ORDERED_STD_SIGS =
     [SIGKILL, SIGTERM, SIGSTOP, SIGSEGV, SIGILL, SIGHUP, SIGCONT, SIGINT, SIGQUIT, SIGTRAP,
      SIGABRT, SIGBUS, SIGFPE, SIGUSR1, SIGUSR2, SIGPIPE, SIGALRM, SIGSTKFLT, SIGCHLD,
      SIGTSTP, SIGTTIN, SIGTTOU, SIGURG, SIGXCPU, SIGXFSZ, SIGVTALRM, SIGPROF, SIGWINCH,
      SIGIO, SIGPWR, SIGSYS]"

text \<open>The two delivery loops; the counter is decremented with a check for underflow.\<close>

fun dequeue_std ::
    "64 word \<Rightarrow> nat list \<Rightarrow> ('s, 'o) sig_queues \<Rightarrow> ('s option \<times> ('s, 'o) sig_queues) option" where
  "dequeue_std blocked [] q = Some (None, q)"
| "dequeue_std blocked (signum # ns) q =
     (if sm_contains blocked signum then dequeue_std blocked ns q
      else Option.bind (std_idx q signum) (\<lambda>i.
        case sq_std q ! i of
          None \<Rightarrow> dequeue_std blocked ns q
        | Some s \<Rightarrow>
            if sq_count q = 0 then None
            else Some (Some s, q\<lparr>sq_std := (sq_std q)[i := None], sq_count := sq_count q - 1\<rparr>)))"

fun dequeue_rt ::
    "64 word \<Rightarrow> nat list \<Rightarrow> ('s, 'o) sig_queues \<Rightarrow> ('s option \<times> ('s, 'o) sig_queues) option" where
  "dequeue_rt blocked [] q = Some (None, q)"
| "dequeue_rt blocked (signum # ns) q =
     (if sm_contains blocked signum then dequeue_rt blocked ns q
      else Option.bind (rt_idx q signum) (\<lambda>i.
        case sq_rt q ! i of
          [] \<Rightarrow> dequeue_rt blocked ns q
        | s # ss \<Rightarrow>
            if sq_count q = 0 then None
            else Some (Some s, q\<lparr>sq_rt := (sq_rt q)[i := ss], sq_count := sq_count q - 1\<rparr>)))"

definition sq_dequeue :: "64 word \<Rightarrow> ('s, 'o) sig_queues \<Rightarrow> ('s option \<times> ('s, 'o) sig_queues) option" where
  "sq_dequeue blocked q =
     (if sq_is_empty q then Some (None, q)
      else case dequeue_std blocked ORDERED_STD_SIGS q of
             Some (None, q') \<Rightarrow> dequeue_rt blocked [MIN_RT_SIG_NUM..<MAX_RT_SIG_NUM + 1] q'
           | r \<Rightarrow> r)"

definition sq_register_observer ::
    "('s, 'o::linorder) sig_queues \<Rightarrow> 'o \<Rightarrow> 64 word \<Rightarrow> ('s, 'o) sig_queues" where
  "sq_register_observer q ob flt = q\<lparr>sq_subject := register_observer (sq_subject q) ob flt\<rparr>"

definition sq_unregister_observer :: "('s, 'o::linorder) sig_queues \<Rightarrow> 'o \<Rightarrow> ('s, 'o) sig_queues" where
  "sq_unregister_observer q ob = q\<lparr>sq_subject := snd (unregister_observer (sq_subject q) ob)\<rparr>"

section \<open>Mask lemmas\<close>

lemma sm_contains_bit: "signum_ok n \<Longrightarrow> sm_contains m n \<longleftrightarrow> bit m (n - 1)"
proof -
  assume "signum_ok n"
  then have n: "n - 1 < 64" by (auto simp: signum_ok_def)
  have "m AND push_bit (n - 1) 1 = (if bit m (n - 1) then push_bit (n - 1) 1 else 0)"
    by (auto intro!: bit_eqI simp: bit_simps)
  moreover have "bit (push_bit (n - 1) (1::64 word)) (n - 1)" using n by (simp add: bit_simps del: push_bit_of_1)
  then have "push_bit (n - 1) (1::64 word) \<noteq> 0" using n by auto
  ultimately show ?thesis by (simp add: sm_contains_def sm_num_to_idx_def)
qed

lemma sm_bits:
  assumes "signum_ok n" "signum_ok k"
  shows "sm_contains (sm_block m b) n \<longleftrightarrow> sm_contains m n \<or> sm_contains b n"
    "sm_contains (sm_unblock m b) n \<longleftrightarrow> sm_contains m n \<and> \<not> sm_contains b n"
    "sm_contains (sm_remove_signal m k) n \<longleftrightarrow> n \<noteq> k \<and> sm_contains m n"
    "sm_contains (sm_add_signal m k) n \<longleftrightarrow> n = k \<or> sm_contains m n"
    "sm_contains (sm_of_signum k) n \<longleftrightarrow> n = k" "\<not> sm_contains 0 n"
proof -
  have n: "n - 1 < 64" "k - 1 < 64" "n - 1 = k - 1 \<longleftrightarrow> n = k" using assms by (auto simp: signum_ok_def)
  have p: "bit (push_bit (k - 1) (1::64 word)) (n - 1) \<longleftrightarrow> n = k" using n by (auto simp: bit_simps)
  show "sm_contains (sm_block m b) n \<longleftrightarrow> sm_contains m n \<or> sm_contains b n"
    "sm_contains (sm_unblock m b) n \<longleftrightarrow> sm_contains m n \<and> \<not> sm_contains b n"
    "sm_contains (sm_remove_signal m k) n \<longleftrightarrow> n \<noteq> k \<and> sm_contains m n"
    "sm_contains (sm_add_signal m k) n \<longleftrightarrow> n = k \<or> sm_contains m n"
    "sm_contains (sm_of_signum k) n \<longleftrightarrow> n = k" "\<not> sm_contains 0 n"
    using n(1) p by (auto simp: sm_contains_bit [OF assms(1)] sm_block_def sm_unblock_def sm_remove_signal_def
        sm_add_signal_def sm_of_signum_def sm_num_to_idx_def bit_or_iff bit_and_iff bit_not_iff)
qed

section \<open>The contract of a store of pending signals\<close>

text \<open>
  What a thread relies on: the store shows a queue of pending signals per number; \<open>deq\<close> takes the
  head of the first non-empty queue that is not blocked, in the fixed order of priority \<open>prio\<close>.
  From this the client learns that taking signals until there is none delivers every unblocked
  pending signal, in order of priority and, for one number, in the order they were sent.
\<close>

fun drain :: "('q \<Rightarrow> ('s option \<times> 'q) option) \<Rightarrow> nat \<Rightarrow> 'q \<Rightarrow> ('s list \<times> 'q) option" where
  "drain deq 0 q = None"
| "drain deq (Suc fuel) q =
     Option.bind (deq q) (\<lambda>(r, q').
       case r of None \<Rightarrow> Some ([], q')
       | Some s \<Rightarrow> map_option (\<lambda>(ss, q''). (s # ss, q'')) (drain deq fuel q'))"

definition deliverable :: "('q \<Rightarrow> nat \<Rightarrow> 's list) \<Rightarrow> nat list \<Rightarrow> 64 word \<Rightarrow> 'q \<Rightarrow> 's list" where
  "deliverable pend prio blocked q = concat (map (pend q) (filter (\<lambda>n. \<not> sm_contains blocked n) prio))"

locale pending_store =
  fixes inv :: "'q \<Rightarrow> bool"
    and pend :: "'q \<Rightarrow> nat \<Rightarrow> 's list"
    and deq :: "64 word \<Rightarrow> 'q \<Rightarrow> ('s option \<times> 'q) option"
    and prio :: "nat list"
  assumes deq_none:
      "inv q \<Longrightarrow> \<forall>n\<in>set prio. sm_contains blocked n \<or> pend q n = [] \<Longrightarrow> deq blocked q = Some (None, q)"
    and deq_first:
      "inv q \<Longrightarrow> prio = xs @ n # ys \<Longrightarrow> \<forall>k\<in>set xs. sm_contains blocked k \<or> pend q k = [] \<Longrightarrow>
       \<not> sm_contains blocked n \<Longrightarrow> pend q n = s # ss \<Longrightarrow>
       \<exists>q'. deq blocked q = Some (Some s, q') \<and> inv q' \<and> pend q' = (pend q)(n := ss)"
    and prio_distinct: "distinct prio"
begin

lemma deq_cases:
  assumes "inv q"
  obtains (none) "\<forall>n\<in>set prio. sm_contains blocked n \<or> pend q n = []" "deq blocked q = Some (None, q)"
  | (some) xs n ys s ss q' where "prio = xs @ n # ys" "\<forall>k\<in>set xs. sm_contains blocked k \<or> pend q k = []"
      "\<not> sm_contains blocked n" "pend q n = s # ss" "deq blocked q = Some (Some s, q')" "inv q'"
      "pend q' = (pend q)(n := ss)"
proof (cases "\<exists>n\<in>set prio. \<not> sm_contains blocked n \<and> pend q n \<noteq> []")
  case True
  from split_list_first_prop [OF this] obtain xs n ys where
    p: "prio = xs @ n # ys" "\<not> sm_contains blocked n" "pend q n \<noteq> []"
      "\<forall>k\<in>set xs. sm_contains blocked k \<or> pend q k = []" by blast
  obtain s ss where s: "pend q n = s # ss" using p(3) by (cases "pend q n") auto
  show ?thesis using deq_first [OF assms p(1,4,2) s] some p s by blast
next
  case False
  then have f: "\<forall>n\<in>set prio. sm_contains blocked n \<or> pend q n = []" by blast
  show ?thesis by (rule none [OF f deq_none [OF assms f]])
qed

lemma drain_eq:
  "inv q \<Longrightarrow> length (deliverable pend prio blocked q) < fuel \<Longrightarrow>
   \<exists>q'. drain (deq blocked) fuel q = Some (deliverable pend prio blocked q, q') \<and> inv q' \<and>
     (\<forall>n. pend q' n = (if n \<in> set prio \<and> \<not> sm_contains blocked n then [] else pend q n))"
proof (induction fuel arbitrary: q)
  case (Suc fuel)
  show ?case
  proof (rule deq_cases [OF Suc.prems(1), of blocked])
    assume "\<forall>n\<in>set prio. sm_contains blocked n \<or> pend q n = []" "deq blocked q = Some (None, q)"
    then show ?thesis using Suc.prems(1) by (auto simp: deliverable_def)
  next
    fix xs n ys s ss q'
    assume a: "prio = xs @ n # ys" "\<forall>k\<in>set xs. sm_contains blocked k \<or> pend q k = []"
      "\<not> sm_contains blocked n" "pend q n = s # ss" "deq blocked q = Some (Some s, q')" "inv q'"
      "pend q' = (pend q)(n := ss)"
    have n: "n \<notin> set xs" "n \<notin> set ys" using prio_distinct a(1) by auto
    have z: "concat (map (pend q) (filter (\<lambda>n. \<not> sm_contains blocked n) xs)) = []"
      "concat (map ((pend q)(n := ss)) (filter (\<lambda>n. \<not> sm_contains blocked n) xs)) = []"
      using a(2) n(1) by auto
    have "map ((pend q)(n := ss)) (filter (\<lambda>n. \<not> sm_contains blocked n) ys) =
          map (pend q) (filter (\<lambda>n. \<not> sm_contains blocked n) ys)" using n(2) by auto
    then have d: "deliverable pend prio blocked q = s # deliverable pend prio blocked q'"
      using z a(3,4) by (simp add: deliverable_def a(1,7) fun_upd_same del: concat_eq_Nil_conv fun_upd_apply map_eq_conv)
    obtain q'' where q'': "drain (deq blocked) fuel q' = Some (deliverable pend prio blocked q', q'')" "inv q''"
      "\<forall>k. pend q'' k = (if k \<in> set prio \<and> \<not> sm_contains blocked k then [] else pend q' k)"
      using Suc.IH [OF a(6)] Suc.prems(2) d by auto
    then show ?thesis using a d by auto
  qed
qed simp

end

section \<open>The queues implement it\<close>

definition sq_pending :: "('s, 'o) sig_queues \<Rightarrow> nat \<Rightarrow> 's list" where
  "sq_pending q n =
     (if 1 \<le> n \<and> n \<le> 31 then (case sq_std q ! (n - 1) of None \<Rightarrow> [] | Some s \<Rightarrow> [s])
      else if 32 \<le> n \<and> n \<le> 64 then sq_rt q ! (n - 32) else [])"

definition sq_inv :: "('s \<Rightarrow> nat) \<Rightarrow> ('s, 'o) sig_queues \<Rightarrow> bool" where
  "sq_inv num q \<longleftrightarrow> length (sq_std q) = 31 \<and> length (sq_rt q) = 33 \<and>
     sq_count q = (\<Sum>n\<leftarrow>[1..<65]. length (sq_pending q n)) \<and>
     (\<forall>n. \<forall>s\<in>set (sq_pending q n). num s = n)"

abbreviation PRIORITY :: "nat list" where
  "PRIORITY \<equiv> ORDERED_STD_SIGS @ [MIN_RT_SIG_NUM..<MAX_RT_SIG_NUM + 1]"

lemma set_ordered: "set ORDERED_STD_SIGS = {1..31}"
proof -
  have "{1..31::nat} = set [1..<32]" by auto
  also have "\<dots> = set ORDERED_STD_SIGS" unfolding ORDERED_STD_SIGS_def by (auto simp: upt_rec)
  finally show ?thesis ..
qed

lemma distinct_priority: "distinct PRIORITY"
  by (auto simp: ORDERED_STD_SIGS_def)

lemma set_priority: "set PRIORITY = {1..64}"
  unfolding set_append set_ordered set_upt by auto

lemma sum_list_upd:
  fixes f :: "nat \<Rightarrow> 's list"
  shows "distinct ns \<Longrightarrow> n \<in> set ns \<Longrightarrow>
    (\<Sum>k\<leftarrow>ns. length ((f(n := v)) k)) + length (f n) = (\<Sum>k\<leftarrow>ns. length (f k)) + length v"
proof (induction ns)
  case (Cons a ns)
  have "(\<Sum>k\<leftarrow>ns. length ((f(a := v)) k)) = (\<Sum>k\<leftarrow>ns. length (f k))" if "a \<notin> set ns"
    using that by (intro arg_cong [of _ _ sum_list] map_cong) auto
  then show ?case using Cons by (cases "n = a") auto
qed simp

text \<open>The effect on the pending queues of the three updates the operations make.\<close>

lemma sq_pending_std:
  assumes "length (sq_std q) = 31" "1 \<le> n" "n \<le> 31"
  shows "sq_pending (q\<lparr>sq_std := (sq_std q)[n - 1 := v], sq_count := c\<rparr>) =
         (sq_pending q)(n := (case v of None \<Rightarrow> [] | Some s \<Rightarrow> [s]))"
  using assms by (auto simp: sq_pending_def fun_eq_iff nth_list_update)

lemma sq_pending_rt:
  assumes "length (sq_rt q) = 33" "32 \<le> n" "n \<le> 64"
  shows "sq_pending (q\<lparr>sq_rt := (sq_rt q)[n - 32 := v], sq_count := c\<rparr>) = (sq_pending q)(n := v)"
  using assms by (auto simp: sq_pending_def fun_eq_iff nth_list_update)

lemma sq_pending_subject [simp]: "sq_pending (q\<lparr>sq_subject := su\<rparr>) = sq_pending q"
  by (simp add: sq_pending_def fun_eq_iff)

lemma sq_inv_subject [simp]: "sq_inv num (q\<lparr>sq_subject := su\<rparr>) = sq_inv num q"
  by (simp add: sq_inv_def)

lemma sq_invI:
  assumes "sq_inv num q" "length (sq_std q') = 31" "length (sq_rt q') = 33" "signum_ok n"
    "sq_pending q' = (sq_pending q)(n := v)" "\<forall>s\<in>set v. num s = n"
    "sq_count q' + length (sq_pending q n) = sq_count q + length v"
  shows "sq_inv num q'"
proof -
  have "n \<in> set [1..<65]" using assms(4) by (auto simp: signum_ok_def)
  from sum_list_upd [OF distinct_upt this, of "sq_pending q" v]
  have "sq_count q' = (\<Sum>k\<leftarrow>[1..<65]. length (sq_pending q' k))"
    using assms(1,5,7) by (simp add: sq_inv_def del: upt_Suc)
  moreover have "num s = k" if "s \<in> set (sq_pending q' k)" for k s
    using that assms(1,5,6) by (cases "k = n") (auto simp: sq_inv_def)
  ultimately show ?thesis using assms(2,3) by (auto simp: sq_inv_def)
qed

lemma sq_count_ge:
  assumes "sq_inv num q" "signum_ok n"
  shows "length (sq_pending q n) \<le> sq_count q"
proof -
  have "n \<in> set [1..<65]" using assms(2) by (auto simp: signum_ok_def)
  then show ?thesis using assms(1) member_le_sum_list [of "length (sq_pending q n)" "map (\<lambda>n. length (sq_pending q n)) [1..<65]"]
    by (auto simp: sq_inv_def simp del: upt_Suc)
qed

lemma sq_new_inv: "sq_inv num sq_new" "sq_pending sq_new n = []"
proof -
  show p: "sq_pending sq_new n = []" for n :: nat by (auto simp: sq_pending_def sq_new_def)
  show "sq_inv num sq_new" unfolding sq_inv_def p by (simp add: sq_new_def del: upt_Suc)
qed

lemma sq_new_pending: "sq_pending sq_new = (\<lambda>_. [])"
  by (simp add: fun_eq_iff sq_new_inv(2))

text \<open>Enqueueing on the abstract side.\<close>

definition enq_spec :: "nat \<Rightarrow> 's \<Rightarrow> 's list \<Rightarrow> 's list" where
  "enq_spec n s ss = (if is_std n \<and> ss \<noteq> [] then ss else ss @ [s])"

lemma sq_enqueue_std:
  assumes "sq_inv num q" "is_std (num s)" "signum_ok (num s)"
  shows "\<exists>calls q'. sq_enqueue alive num q s = Some (calls, q') \<and> sq_inv num q' \<and>
    sq_pending q' = (sq_pending q)(num s := enq_spec (num s) s (sq_pending q (num s))) \<and>
    (calls, sq_subject q') =
      (if sq_pending q (num s) \<noteq> [] then ([], sq_subject q)
       else notify_observers alive sig_events_filter (sq_subject q) (num s))"
proof -
  have n: "1 \<le> num s" "num s \<le> 31" "length (sq_std q) = 31" "length (sq_rt q) = 33"
    using assms by (auto simp: sq_inv_def signum_ok_def is_std_def)
  have i: "std_idx q (num s) = Some (num s - 1)" using n by (auto simp: std_idx_def is_std_def)
  have pe: "sq_pending q (num s) = (case sq_std q ! (num s - 1) of None \<Rightarrow> [] | Some s \<Rightarrow> [s])"
    using n by (simp add: sq_pending_def)
  show ?thesis
  proof (cases "sq_std q ! (num s - 1)")
    case None
    let ?q = "q\<lparr>sq_std := (sq_std q)[num s - 1 := Some s], sq_count := sq_count q + 1\<rparr>"
    have p: "sq_pending ?q = (sq_pending q)(num s := [s])" using sq_pending_std [OF n(3,1,2)] by simp
    have "sq_inv num ?q" by (rule sq_invI [OF assms(1) _ _ assms(3) p]) (use n pe None in auto)
    then show ?thesis using assms(2) i None pe p
      by (simp add: sq_enqueue_def Let_def enq_spec_def split: prod.split)
  next
    case (Some a)
    then show ?thesis using assms i pe by (simp add: sq_enqueue_def enq_spec_def fun_upd_idem)
  qed
qed

lemma sq_enqueue_rt:
  assumes "sq_inv num q" "\<not> is_std (num s)" "signum_ok (num s)"
  shows "\<exists>calls q'. sq_enqueue alive num q s = Some (calls, q') \<and> sq_inv num q' \<and>
    sq_pending q' = (sq_pending q)(num s := enq_spec (num s) s (sq_pending q (num s))) \<and>
    (calls, sq_subject q') = notify_observers alive sig_events_filter (sq_subject q) (num s)"
proof -
  have n: "32 \<le> num s" "num s \<le> 64" "length (sq_std q) = 31" "length (sq_rt q) = 33"
    using assms by (auto simp: sq_inv_def signum_ok_def is_std_def)
  have i: "rt_idx q (num s) = Some (num s - 32)" using n by (auto simp: rt_idx_def is_real_time_def)
  have pe: "sq_pending q (num s) = sq_rt q ! (num s - 32)" using n by (simp add: sq_pending_def)
  let ?q = "q\<lparr>sq_rt := (sq_rt q)[num s - 32 := sq_rt q ! (num s - 32) @ [s]], sq_count := sq_count q + 1\<rparr>"
  have p: "sq_pending ?q = (sq_pending q)(num s := sq_pending q (num s) @ [s])"
    using sq_pending_rt [OF n(4,1,2)] pe by simp
  have "sq_inv num ?q" by (rule sq_invI [OF assms(1) _ _ assms(3) p])
      (use n assms(1) in \<open>auto simp: sq_inv_def\<close>)
  then show ?thesis using assms(2) i pe p
    by (simp add: sq_enqueue_def Let_def enq_spec_def split: prod.split)
qed

lemma sq_enqueue_ex:
  assumes "sq_inv num (q :: ('s, 'o::linorder) sig_queues)" "signum_ok (num s)"
  shows "\<exists>q' :: ('s, 'o) sig_queues. sq_inv num q' \<and>
    sq_pending q' = (sq_pending q)(num s := enq_spec (num s) s (sq_pending q (num s)))"
  using sq_enqueue_std [OF assms(1) _ assms(2)] sq_enqueue_rt [OF assms(1) _ assms(2)] by blast

text \<open>The loops skip what is blocked or empty.\<close>

lemma std_idx_ok: "sq_inv num q \<Longrightarrow> n \<in> {1..31} \<Longrightarrow> std_idx q n = Some (n - 1)"
  by (auto simp: std_idx_def is_std_def sq_inv_def)

lemma rt_idx_ok: "sq_inv num q \<Longrightarrow> n \<in> {32..64} \<Longrightarrow> rt_idx q n = Some (n - 32)"
  by (auto simp: rt_idx_def is_real_time_def sq_inv_def)

lemma dequeue_std_skip:
  assumes "sq_inv num q" "set xs \<subseteq> {1..31}" "\<forall>k\<in>set xs. sm_contains blocked k \<or> sq_pending q k = []"
  shows "dequeue_std blocked (xs @ ys) q = dequeue_std blocked ys q"
  using assms(2,3)
proof (induction xs)
  case (Cons a xs)
  have a: "a \<in> {1..31}" using Cons.prems(1) by simp
  have "sm_contains blocked a \<or> sq_std q ! (a - 1) = None"
    using Cons.prems(2) a by (auto simp: sq_pending_def split: option.splits)
  then show ?case using Cons std_idx_ok [OF assms(1) a] by auto
qed simp

lemma dequeue_rt_skip:
  assumes "sq_inv num q" "set xs \<subseteq> {32..64}" "\<forall>k\<in>set xs. sm_contains blocked k \<or> sq_pending q k = []"
  shows "dequeue_rt blocked (xs @ ys) q = dequeue_rt blocked ys q"
  using assms(2,3)
proof (induction xs)
  case (Cons a xs)
  have a: "a \<in> {32..64}" using Cons.prems(1) by simp
  have "sm_contains blocked a \<or> sq_rt q ! (a - 32) = []"
    using Cons.prems(2) a by (auto simp: sq_pending_def)
  then show ?case using Cons rt_idx_ok [OF assms(1) a] by auto
qed simp

lemmas dequeue_std_none = dequeue_std_skip [where ys = "[]", unfolded append_Nil2 dequeue_std.simps(1)]
lemmas dequeue_rt_none = dequeue_rt_skip [where ys = "[]", unfolded append_Nil2 dequeue_rt.simps(1)]

lemma dequeue_std_take:
  assumes "sq_inv num q" "n \<in> {1..31}" "\<not> sm_contains blocked n" "sq_pending q n = s # ss"
  shows "\<exists>q'. dequeue_std blocked (n # ns) q = Some (Some s, q') \<and> sq_inv num q' \<and>
    sq_pending q' = (sq_pending q)(n := ss)"
proof -
  have n: "1 \<le> n" "n \<le> 31" "signum_ok n" and l: "length (sq_std q) = 31" "length (sq_rt q) = 33"
    using assms(1,2) by (auto simp: signum_ok_def sq_inv_def)
  have h: "sq_std q ! (n - 1) = Some s" "ss = []" using assms(4) n by (auto simp: sq_pending_def split: option.splits)
  let ?q = "q\<lparr>sq_std := (sq_std q)[n - 1 := None], sq_count := sq_count q - 1\<rparr>"
  have p: "sq_pending ?q = (sq_pending q)(n := ss)" using sq_pending_std [OF l(1) n(1,2)] h by simp
  have c: "1 \<le> sq_count q" using sq_count_ge [OF assms(1) n(3)] assms(4) by simp
  have "sq_inv num ?q" by (rule sq_invI [OF assms(1) _ _ n(3) p]) (use l h c assms(4) in auto)
  then show ?thesis using std_idx_ok [OF assms(1,2)] assms(3) h c p by auto
qed

lemma dequeue_rt_take:
  assumes "sq_inv num q" "n \<in> {32..64}" "\<not> sm_contains blocked n" "sq_pending q n = s # ss"
  shows "\<exists>q'. dequeue_rt blocked (n # ns) q = Some (Some s, q') \<and> sq_inv num q' \<and>
    sq_pending q' = (sq_pending q)(n := ss)"
proof -
  have n: "32 \<le> n" "n \<le> 64" "signum_ok n" and l: "length (sq_std q) = 31" "length (sq_rt q) = 33"
    using assms(1,2) by (auto simp: signum_ok_def sq_inv_def)
  have h: "sq_rt q ! (n - 32) = s # ss" using assms(4) n by (auto simp: sq_pending_def)
  let ?q = "q\<lparr>sq_rt := (sq_rt q)[n - 32 := ss], sq_count := sq_count q - 1\<rparr>"
  have p: "sq_pending ?q = (sq_pending q)(n := ss)" using sq_pending_rt [OF l(2) n(1,2)] by simp
  have c: "1 \<le> sq_count q" using sq_count_ge [OF assms(1) n(3)] assms(4) by simp
  have m: "\<forall>s\<in>set ss. num s = n" using assms(1,4) by (auto simp: sq_inv_def)
  have "sq_inv num ?q" by (rule sq_invI [OF assms(1) _ _ n(3) p m]) (use l c assms(4) in auto)
  then show ?thesis using rt_idx_ok [OF assms(1,2)] assms(3) h c p by auto
qed

lemma sq_dequeue_none:
  assumes "sq_inv num q" "\<forall>n\<in>set PRIORITY. sm_contains blocked n \<or> sq_pending q n = []"
  shows "sq_dequeue blocked q = Some (None, q)"
proof -
  have "dequeue_std blocked ORDERED_STD_SIGS q = Some (None, q)"
    by (rule dequeue_std_none [OF assms(1)]) (use assms(2) in \<open>auto simp: set_ordered\<close>)
  moreover have "dequeue_rt blocked [32..<65] q = Some (None, q)"
    by (rule dequeue_rt_none [OF assms(1)]) (use assms(2) in \<open>auto simp del: upt_Suc\<close>)
  ultimately show ?thesis by (simp add: sq_dequeue_def del: upt_Suc)
qed

lemma append_split_cases:
  assumes "as @ bs = xs @ n # ys"
  obtains zs where "as = xs @ n # zs" "ys = zs @ bs" | zs where "xs = as @ zs" "bs = zs @ n # ys"
  using assms by (auto simp: append_eq_append_conv2 append_eq_Cons_conv)

lemma sq_dequeue_first:
  assumes "sq_inv num q" "PRIORITY = xs @ n # ys" "\<forall>k\<in>set xs. sm_contains blocked k \<or> sq_pending q k = []"
    "\<not> sm_contains blocked n" "sq_pending q n = s # ss"
  shows "\<exists>q'. sq_dequeue blocked q = Some (Some s, q') \<and> sq_inv num q' \<and> sq_pending q' = (sq_pending q)(n := ss)"
proof -
  have "n \<in> set PRIORITY" unfolding assms(2) by simp
  then have "signum_ok n" unfolding set_priority by (auto simp: signum_ok_def)
  then have c: "\<not> sq_is_empty q" using sq_count_ge [OF assms(1)] assms(5) by (force simp: sq_is_empty_def)
  from assms(2) show ?thesis
  proof (rule append_split_cases)
    fix zs assume z: "ORDERED_STD_SIGS = xs @ n # zs"
    have i: "set xs \<subseteq> {1..31}" "n \<in> {1..31}" unfolding set_ordered [symmetric] z by auto
    show ?thesis using dequeue_std_take [OF assms(1) i(2) assms(4,5), of zs] dequeue_std_skip [OF assms(1) i(1) assms(3), of "n # zs"] c
      by (auto simp: sq_dequeue_def z)
  next
    fix zs assume z: "xs = ORDERED_STD_SIGS @ zs" "[32..<64 + 1] = zs @ n # ys"
    have r: "set [32..<64 + 1] = {32..64::nat}" unfolding set_upt by auto
    have i: "set zs \<subseteq> {32..64}" "n \<in> {32..64}" unfolding r [symmetric] z by auto
    have "dequeue_std blocked ORDERED_STD_SIGS q = Some (None, q)"
      by (rule dequeue_std_none [OF assms(1)]) (use assms(3) z in \<open>auto simp: set_ordered\<close>)
    moreover have "\<forall>k\<in>set zs. sm_contains blocked k \<or> sq_pending q k = []" using assms(3) z by auto
    from dequeue_rt_skip [OF assms(1) i(1) this, of "n # ys"]
    have "dequeue_rt blocked [32..<64 + 1] q = dequeue_rt blocked (n # ys) q" unfolding z .
    ultimately show ?thesis using dequeue_rt_take [OF assms(1) i(2) assms(4,5), of ys] c
      by (auto simp: sq_dequeue_def simp del: upt_Suc dequeue_rt.simps)
  qed
qed

interpretation sigq: pending_store "sq_inv num" sq_pending sq_dequeue PRIORITY
  by unfold_locales (rule sq_dequeue_none sq_dequeue_first distinct_priority; assumption?)+

section \<open>Properties\<close>

text \<open>Sending a signal appends it to the pending signals of its number, except that a standard
  signal that is already pending is dropped and the first instance kept (signal(7)); no other
  pending signal changes, the operation never panics, and the observers that are told are those
  the subject selects for the signal number, and none when the signal was dropped.\<close>

theorem sq_enqueue_correct:
  assumes "sq_inv num q" "signum_ok (num s)"
  shows "\<exists>calls q'. sq_enqueue alive num q s = Some (calls, q') \<and> sq_inv num q' \<and>
    sq_pending q' = (sq_pending q)(num s :=
      (if is_std (num s) \<and> sq_pending q (num s) \<noteq> [] then sq_pending q (num s) else sq_pending q (num s) @ [s])) \<and>
    (calls, sq_subject q') =
      (if is_std (num s) \<and> sq_pending q (num s) \<noteq> [] then ([], sq_subject q)
       else notify_observers alive sig_events_filter (sq_subject q) (num s))"
proof (cases "is_std (num s)")
  case True
  show ?thesis using sq_enqueue_std [OF assms(1) True assms(2), of alive] True by (simp add: enq_spec_def)
next
  case False
  show ?thesis using sq_enqueue_rt [OF assms(1) False assms(2), of alive] False by (simp add: enq_spec_def)
qed

theorem sq_enqueue_correct_witness:
  "\<exists>calls q'. sq_enqueue (\<lambda>_::nat. True) fst sq_new (SIGUSR1, ''a'') = Some (calls, q') \<and>
     sq_pending q' SIGUSR1 = [(SIGUSR1, ''a'')]"
  using sq_enqueue_correct [OF sq_new_inv(1) [of fst], of "(SIGUSR1, ''a'')" "\<lambda>_::nat. True"]
  by (auto simp: signum_ok_def sq_new_inv(2))

text \<open>C17: Taking signals until there is none delivers exactly the pending signals that are not
  blocked: standard signals before real-time ones, the standard ones in the kernel's order of
  urgency, the real-time ones by increasing number, and signals of one number in the order they
  were sent. What is blocked stays pending and nothing panics; one call more than there are
  signals to deliver is enough.\<close>

theorem sq_dequeue_all_correct:
  assumes "sq_inv num q"
    and "ds = concat (map (sq_pending q) (filter (\<lambda>n. \<not> sm_contains blocked n) PRIORITY))"
    and "length ds < fuel"
  shows "\<exists>q'. drain (sq_dequeue blocked) fuel q = Some (ds, q') \<and> sq_inv num q' \<and>
     (\<forall>n. sq_pending q' n = (if signum_ok n \<and> \<not> sm_contains blocked n then [] else sq_pending q n))"
proof -
  have "n \<in> set PRIORITY \<longleftrightarrow> signum_ok n" for n unfolding set_priority by (auto simp: signum_ok_def)
  then show ?thesis using sigq.drain_eq [OF assms(1), of blocked fuel] assms(2,3)
    by (simp only: deliverable_def)
qed

theorem sq_dequeue_all_correct_witness:
  "\<exists>q q'. sq_inv fst q \<and> sq_pending q SIGHUP = [(SIGHUP, ''h'')] \<and>
     drain (sq_dequeue (sm_of_signum SIGHUP)) 5 q =
       Some ([(SIGKILL, ''k''), (SIGTERM, ''t''), (34, ''x''), (34, ''y'')], q' :: (nat \<times> string, nat) sig_queues) \<and>
     sq_pending q' SIGHUP = [(SIGHUP, ''h'')]"
proof -
  have ok: "signum_ok 34" "signum_ok 1" "signum_ok 15" "signum_ok 9" by (simp_all add: signum_ok_def)
  obtain q1 :: "(nat \<times> string, nat) sig_queues" where q1: "sq_inv fst q1" "sq_pending q1 = (\<lambda>_. [])(34 := [(34, ''x'')])"
    using sq_enqueue_ex [OF sq_new_inv(1) [of fst], of "(34, ''x'')"] ok
    by (auto simp: is_std_def enq_spec_def sq_new_pending)
  obtain q2 :: "(nat \<times> string, nat) sig_queues" where q2: "sq_inv fst q2" "sq_pending q2 = (sq_pending q1)(1 := [(1, ''h'')])"
    using sq_enqueue_ex [OF q1(1), of "(1, ''h'')"] ok q1(2) by (auto simp: is_std_def enq_spec_def sq_new_pending)
  obtain q3 :: "(nat \<times> string, nat) sig_queues" where q3: "sq_inv fst q3" "sq_pending q3 = (sq_pending q2)(15 := [(15, ''t'')])"
    using sq_enqueue_ex [OF q2(1), of "(15, ''t'')"] ok q1(2) q2(2) by (auto simp: is_std_def enq_spec_def sq_new_pending)
  obtain q4 :: "(nat \<times> string, nat) sig_queues" where q4: "sq_inv fst q4" "sq_pending q4 = (sq_pending q3)(34 := [(34, ''x''), (34, ''y'')])"
    using sq_enqueue_ex [OF q3(1), of "(34, ''y'')"] ok q1(2) q2(2) q3(2) by (auto simp: is_std_def enq_spec_def sq_new_pending)
  obtain q5 :: "(nat \<times> string, nat) sig_queues" where q5: "sq_inv fst q5" "sq_pending q5 = (sq_pending q4)(9 := [(9, ''k'')])"
    using sq_enqueue_ex [OF q4(1), of "(9, ''k'')"] ok q1(2) q2(2) q3(2) q4(2) by (auto simp: is_std_def enq_spec_def sq_new_pending)
  have p: "sq_pending q5 = (\<lambda>n. if n = 9 then [(9, ''k'')] else if n = 34 then [(34, ''x''), (34, ''y'')]
      else if n = 15 then [(15, ''t'')] else if n = 1 then [(1, ''h'')] else [])"
    unfolding q5(2) q4(2) q3(2) q2(2) q1(2) by (auto simp: fun_eq_iff)
  have c: "sm_contains (sm_of_signum 1) n \<longleftrightarrow> n = 1" if "n \<in> set PRIORITY" for n
    using that ok(2) sm_bits(5) [of n 1] unfolding set_priority by (auto simp: signum_ok_def)
  have f: "filter (\<lambda>n. \<not> sm_contains (sm_of_signum 1) n) PRIORITY = filter (\<lambda>n. n \<noteq> 1) PRIORITY"
    by (rule filter_cong [OF refl]) (simp only: c)
  have ds: "[(9, ''k''), (15, ''t''), (34, ''x''), (34, ''y'')] =
      concat (map (sq_pending q5) (filter (\<lambda>n. \<not> sm_contains (sm_of_signum 1) n) PRIORITY))"
    unfolding f p by (simp add: ORDERED_STD_SIGS_def)
  have b: "sm_contains (sm_of_signum 1) 1" using sm_bits(5) [OF ok(2,2)] by simp
  show ?thesis using sq_dequeue_all_correct [OF q5(1) ds, of 5] q5(1) p b by auto
qed

text \<open>A pending \<^verbatim>\<open>SIGKILL\<close> that the mask does not block is taken before anything else, whatever
  other signals are pending.\<close>

theorem sq_dequeue_urgent:
  assumes "sq_inv num q" "sq_pending q SIGKILL \<noteq> []" "\<not> sm_contains blocked SIGKILL"
  shows "\<exists>q'. sq_dequeue blocked q = Some (Some (hd (sq_pending q SIGKILL)), q') \<and> sq_inv num q' \<and>
    sq_pending q' = (sq_pending q)(SIGKILL := [])"
proof -
  obtain s ss where s: "sq_pending q SIGKILL = s # ss" using assms(2) by (cases "sq_pending q SIGKILL") auto
  then have "ss = []" by (auto simp: sq_pending_def split: option.splits)
  moreover have "PRIORITY = [] @ SIGKILL # tl ORDERED_STD_SIGS @ [32..<64 + 1]"
    by (simp add: ORDERED_STD_SIGS_def)
  ultimately show ?thesis using sq_dequeue_first [OF assms(1) _ _ assms(3) s] s by fastforce
qed

theorem sq_dequeue_urgent_witness:
  "\<exists>q q'. sq_pending q SIGKILL = [(SIGKILL, ''k'')] \<and>
     sq_dequeue 0 q = Some (Some (SIGKILL, ''k''), q' :: (nat \<times> string, nat) sig_queues)"
proof -
  have ok: "signum_ok 9" by (simp add: signum_ok_def)
  obtain q :: "(nat \<times> string, nat) sig_queues" where q: "sq_inv fst q" "sq_pending q = (\<lambda>_. [])(9 := [(9, ''k'')])"
    using sq_enqueue_ex [OF sq_new_inv(1) [of fst], of "(9, ''k'')"] ok by (auto simp: is_std_def enq_spec_def sq_new_pending)
  then show ?thesis using sq_dequeue_urgent [OF q(1), of 0] sm_bits(6) [OF ok ok] by - (rule exI [of _ q], auto)
qed

end
