(* ===== verification/Signal_Delivery.thy ===== *)
theory Signal_Delivery
  imports Sig_Queues Align
begin

text \<open>
  What happens to a pending signal: the action tables
  (\<^verbatim>\<open>process/signal/sig_action.rs\<close>, \<^verbatim>\<open>sig_disposition.rs\<close>), the alternate stack
  (\<^verbatim>\<open>sig_stack.rs\<close>), the delivery to a user handler (\<^verbatim>\<open>process/signal/mod.rs\<close>), the return from it
  and the calls that change masks, actions and stacks
  (\<^verbatim>\<open>syscall/rt_sigreturn.rs\<close>, \<^verbatim>\<open>rt_sigprocmask.rs\<close>, \<^verbatim>\<open>rt_sigaction.rs\<close>, \<^verbatim>\<open>sigaltstack.rs\<close>),
  all under \<^verbatim>\<open>services/libs/aster-std/src\<close>.

  An operation gets and returns the state it changes, together with its result, because a failure
  in the middle keeps the changes made so far. User memory is a state of any type with the
  functions that write to and read from it as parameters; the general registers other than the
  ones named here, which belong to the trap library, are one opaque field, and the size of the
  context record that contains them is a parameter too.
\<close>

section \<open>Actions and dispositions\<close>

record sigaction_t =
  handler_ptr :: nat
  sa_flags :: "32 word"
  restorer_ptr :: nat
  sa_mask :: "64 word"

abbreviation SIG_DFL :: nat where "SIG_DFL \<equiv> 0"
abbreviation SIG_IGN :: nat where "SIG_IGN \<equiv> 1"

abbreviation SA_NOCLDSTOP :: "32 word" where "SA_NOCLDSTOP \<equiv> 1"
abbreviation SA_NOCLDWAIT :: "32 word" where "SA_NOCLDWAIT \<equiv> 2"
abbreviation SA_SIGINFO :: "32 word" where "SA_SIGINFO \<equiv> 4"
abbreviation SA_ONSTACK :: "32 word" where "SA_ONSTACK \<equiv> 0x08000000"
abbreviation SA_RESTART :: "32 word" where "SA_RESTART \<equiv> 0x10000000"
abbreviation SA_NODEFER :: "32 word" where "SA_NODEFER \<equiv> 0x40000000"
abbreviation SA_RESETHAND :: "32 word" where "SA_RESETHAND \<equiv> 0x80000000"
abbreviation SA_RESTORER :: "32 word" where "SA_RESTORER \<equiv> 0x04000000"

definition SA_ALL :: "32 word" where
  "SA_ALL = SA_NOCLDSTOP OR SA_NOCLDWAIT OR SA_SIGINFO OR SA_ONSTACK OR SA_RESTART OR SA_NODEFER OR
     SA_RESETHAND OR SA_RESTORER"

definition flags_contains :: "32 word \<Rightarrow> 32 word \<Rightarrow> bool" where
  "flags_contains fl f \<longleftrightarrow> fl AND f = f"

datatype sig_action = Dfl | Ign | User nat "32 word" nat "64 word"

definition sa_try_from :: "sigaction_t \<Rightarrow> sig_action res" where
  "sa_try_from input =
     Ok (if handler_ptr input = SIG_DFL then Dfl
         else if handler_ptr input = SIG_IGN then Ign
         else User (handler_ptr input) (sa_flags input AND SA_ALL) (restorer_ptr input) (sa_mask input))"

definition sa_as_c_type :: "sig_action \<Rightarrow> sigaction_t" where
  "sa_as_c_type a =
     (case a of
        Dfl \<Rightarrow> \<lparr>handler_ptr = SIG_DFL, sa_flags = 0, restorer_ptr = 0, sa_mask = 0\<rparr>
      | Ign \<Rightarrow> \<lparr>handler_ptr = SIG_IGN, sa_flags = 0, restorer_ptr = 0, sa_mask = 0\<rparr>
      | User h fl r m \<Rightarrow> \<lparr>handler_ptr = h, sa_flags = fl, restorer_ptr = r, sa_mask = m\<rparr>)"

definition contains_unsupported_flag :: "32 word \<Rightarrow> bool" where
  "contains_unsupported_flag fl \<longleftrightarrow> fl AND (SA_NOCLDSTOP OR SA_NOCLDWAIT OR SA_RESETHAND) \<noteq> 0"

datatype sig_default_action = DTerm | DIgn | DCore | DStop | DCont

definition default_from_signum :: "nat \<Rightarrow> sig_default_action" where
  "default_from_signum n =
     (if n \<in> {SIGABRT, SIGBUS, SIGFPE, SIGILL, SIGQUIT, SIGSEGV, SIGSYS, SIGTRAP, SIGXCPU, SIGXFSZ} then DCore
      else if n \<in> {SIGCHLD, SIGURG, SIGWINCH} then DIgn
      else if n = SIGCONT then DCont
      else if n \<in> {SIGSTOP, SIGTSTP, SIGTTIN, SIGTTOU} then DStop
      else DTerm)"

definition sd_new :: "sig_action list" where
  "sd_new = replicate COUNT_ALL_SIGS Dfl"

definition sd_get :: "sig_action list \<Rightarrow> nat \<Rightarrow> sig_action res" where
  "sd_get d n = (let idx = sm_num_to_idx n in if idx < length d then Ok (d ! idx) else Panic)"

definition sd_set :: "sig_action list \<Rightarrow> nat \<Rightarrow> sig_action \<Rightarrow> sig_action list res" where
  "sd_set d n sa = (let idx = sm_num_to_idx n in if idx < length d then Ok (d[idx := sa]) else Panic)"

definition sd_set_default :: "sig_action list \<Rightarrow> nat \<Rightarrow> sig_action list res" where
  "sd_set_default d n = (let idx = sm_num_to_idx n in if idx < length d then Ok (d[idx := Dfl]) else Panic)"

definition sd_inherit :: "sig_action list \<Rightarrow> sig_action list" where
  "sd_inherit d = map (\<lambda>a. case a of User _ _ _ _ \<Rightarrow> Dfl | _ \<Rightarrow> a) d"

section \<open>The alternate stack\<close>

record sig_stack =
  ss_base :: nat
  ss_flags :: "32 word"
  ss_size :: nat
  handler_counter :: nat

abbreviation SS_AUTODISARM :: "32 word" where "SS_AUTODISARM \<equiv> 0x80000000"

datatype sig_stack_status = SS_INACTIVE | SS_ONSTACK | SS_DISABLE

definition ss_new :: "nat \<Rightarrow> 32 word \<Rightarrow> nat \<Rightarrow> sig_stack" where
  "ss_new b fl sz = \<lparr>ss_base = b, ss_flags = fl, ss_size = sz, handler_counter = 0\<rparr>"

definition ss_status :: "sig_stack \<Rightarrow> sig_stack_status" where
  "ss_status st =
     (if handler_counter st = 0 then SS_INACTIVE
      else if flags_contains (ss_flags st) SS_AUTODISARM then SS_DISABLE else SS_ONSTACK)"

definition increase_handler_counter :: "sig_stack \<Rightarrow> sig_stack res" where
  "increase_handler_counter st = rmap (\<lambda>c. st\<lparr>handler_counter := c\<rparr>) (usize_add (handler_counter st) 1)"

definition decrease_handler_counter :: "sig_stack \<Rightarrow> sig_stack res" where
  "decrease_handler_counter st = rmap (\<lambda>c. st\<lparr>handler_counter := c\<rparr>) (usize_sub (handler_counter st) 1)"

definition ss_is_active :: "sig_stack \<Rightarrow> bool" where
  "ss_is_active st \<longleftrightarrow> handler_counter st \<noteq> 0 \<and> \<not> flags_contains (ss_flags st) SS_AUTODISARM"

definition ss_is_disabled :: "sig_stack \<Rightarrow> bool" where
  "ss_is_disabled st \<longleftrightarrow> handler_counter st \<noteq> 0 \<and> flags_contains (ss_flags st) SS_AUTODISARM"

section \<open>Threads, registers and user memory\<close>

datatype thread_status = Init | Running | Exited | Stopped

definition set_running :: "thread_status \<Rightarrow> thread_status res" where
  "set_running st = (if st = Exited then Panic else Ok Running)"

definition set_stopped :: "thread_status \<Rightarrow> thread_status res" where
  "set_stopped st = (if st = Exited then Panic else Ok Stopped)"

record ('s, 'o) posix_thread =
  px_status :: thread_status
  px_sig_mask :: "64 word"
  px_sig_queues :: "('s, 'o) sig_queues"
  px_sig_context :: "nat option"
  px_sig_stack :: "sig_stack option"
  px_ruid :: nat
  px_suid :: nat

record 'r general_regs =
  rip :: nat
  rsp :: nat
  rdi :: nat
  rsi :: nat
  rdx :: nat
  other_regs :: 'r

record siginfo_t =
  si_signo :: int
  si_errno :: int
  si_code :: int

definition siginfo_new :: "nat \<Rightarrow> int \<Rightarrow> siginfo_t" where
  "siginfo_new n code = \<lparr>si_signo = int n, si_errno = 0, si_code = code\<rparr>"

abbreviation SIZEOF_SIGINFO :: nat where "SIZEOF_SIGINFO \<equiv> 128"

text \<open>The fields of \<^verbatim>\<open>ucontext_t\<close> that are not set to their defaults.\<close>

record 'r ucontext_t =
  uc_link :: nat
  uc_gp_regs :: "'r general_regs"
  uc_sigmask :: "64 word"

datatype 'r user_val =
  V_u64 "64 word" | V_siginfo siginfo_t | V_ucontext "'r ucontext_t" | V_bytes "8 word list"
  | V_sigaction sigaction_t | V_stack nat "32 word" nat

section \<open>Delivery\<close>

record ('s, 'o, 'r, 'u) delivery =
  d_thread :: "('s, 'o) posix_thread"
  d_ctx :: "'r general_regs"
  d_mem :: 'u

definition d_write ::
    "(nat \<Rightarrow> 'r user_val \<Rightarrow> 'u \<Rightarrow> 'u res) \<Rightarrow> nat \<Rightarrow> 'r user_val \<Rightarrow> (('s, 'o, 'r, 'u) delivery, unit) sres" where
  "d_write wr a v d =
     (case wr a v (d_mem d) of Ok u \<Rightarrow> (Ok (), d\<lparr>d_mem := u\<rparr>) | Err e \<Rightarrow> (Err e, d) | Panic \<Rightarrow> (Panic, d))"

definition use_alternate_signal_stack :: "(('s, 'o, 'r, 'u) delivery, nat option) sres" where
  "use_alternate_signal_stack d =
     (let t = d_thread d in
      case px_sig_stack t of
        None \<Rightarrow> (Ok None, d)
      | Some st \<Rightarrow>
          if ss_is_disabled st then (Ok None, d)
          else if ss_is_active st then
            sbind (slift (increase_handler_counter st))
              (\<lambda>st'. sbind (smod (\<lambda>d. d\<lparr>d_thread := t\<lparr>px_sig_stack := Some st'\<rparr>\<rparr>)) (\<lambda>_. sreturn None)) d
          else
            sbind (slift (increase_handler_counter st))
              (\<lambda>st'. sbind (smod (\<lambda>d. d\<lparr>d_thread := t\<lparr>px_sig_stack := Some st'\<rparr>\<rparr>))
              (\<lambda>_. sbind (slift (usize_add (ss_base st') (ss_size st')))
              (\<lambda>top. slift (rmap Some (unwrap_opt (usize_align_down top 16)))))) d)"

definition write_u64_to_user_stack ::
    "(nat \<Rightarrow> 'r user_val \<Rightarrow> 'u \<Rightarrow> 'u res) \<Rightarrow> nat \<Rightarrow> nat \<Rightarrow> (('s, 'o, 'r, 'u) delivery, nat) sres" where
  "write_u64_to_user_stack wr sp v =
     sbind (slift (usize_sub sp 8)) (\<lambda>sp'. sbind (d_write wr sp' (V_u64 (of_nat v))) (\<lambda>_. sreturn sp'))"

definition alloc_aligned_in_user_stack :: "nat \<Rightarrow> nat \<Rightarrow> nat \<Rightarrow> nat res" where
  "alloc_aligned_in_user_stack sp sz align =
     (if \<not> is_power_of_two (of_nat align :: 64 word) then Err EINVAL
      else rbind (usize_sub sp sz) (\<lambda>x. unwrap_opt (usize_align_down x align)))"

definition TRAMPOLINE :: "8 word list" where
  "TRAMPOLINE = [0xb8, 0x0f, 0x00, 0x00, 0x00, 0x0f, 0x05, 0x90]"

text \<open>The part of \<^verbatim>\<open>handle_user_signal\<close> below the choice of the stack: the frame and the registers.\<close>

definition push_signal_frame ::
    "(nat \<Rightarrow> 'r user_val \<Rightarrow> 'u \<Rightarrow> 'u res) \<Rightarrow> nat \<Rightarrow> nat \<Rightarrow> nat \<Rightarrow> 32 word \<Rightarrow> nat \<Rightarrow> 64 word \<Rightarrow> siginfo_t \<Rightarrow>
      nat \<Rightarrow> (('s, 'o, 'r, 'u) delivery, unit) sres" where
  "push_signal_frame wr sizeof_ucontext sig_num handler_addr flags restorer_addr sig_mask sig_info stack_pointer =
     sbind (slift (usize_sub stack_pointer 128))
     (\<lambda>sp1. sbind (slift (usize_sub sp1 SIZEOF_SIGINFO))
     (\<lambda>siginfo_addr. sbind (d_write wr siginfo_addr (V_siginfo sig_info))
     (\<lambda>_. sbind (slift (alloc_aligned_in_user_stack siginfo_addr sizeof_ucontext 16))
     (\<lambda>ucontext_addr. sbind (sget (\<lambda>d.
           \<lparr>uc_link = (case px_sig_context (d_thread d) of Some a \<Rightarrow> a | None \<Rightarrow> 0),
            uc_gp_regs = d_ctx d, uc_sigmask = sig_mask\<rparr>))
     (\<lambda>ucontext. sbind (d_write wr ucontext_addr (V_ucontext ucontext))
     (\<lambda>_. sbind (smod (\<lambda>d. d\<lparr>d_thread := (d_thread d)\<lparr>px_sig_context := Some ucontext_addr\<rparr>\<rparr>))
     (\<lambda>_. sbind
           (if flags_contains flags SA_RESTORER then write_u64_to_user_stack wr ucontext_addr restorer_addr
            else sbind (slift (usize_sub ucontext_addr (length TRAMPOLINE)))
              (\<lambda>trampoline_rip. sbind (d_write wr trampoline_rip (V_bytes TRAMPOLINE))
              (\<lambda>_. write_u64_to_user_stack wr trampoline_rip trampoline_rip)))
     (\<lambda>sp. smod (\<lambda>d. d\<lparr>d_ctx := (d_ctx d)
           \<lparr>rip := handler_addr, rsp := sp, rdi := sig_num,
            rsi := (if flags_contains flags SA_SIGINFO then siginfo_addr else 0),
            rdx := (if flags_contains flags SA_SIGINFO then ucontext_addr else 0)\<rparr>\<rparr>)))))))))"

definition handle_user_signal ::
    "(nat \<Rightarrow> 'r user_val \<Rightarrow> 'u \<Rightarrow> 'u res) \<Rightarrow> nat \<Rightarrow> nat \<Rightarrow> nat \<Rightarrow> 32 word \<Rightarrow> nat \<Rightarrow> 64 word \<Rightarrow> siginfo_t \<Rightarrow>
      (('s, 'o, 'r, 'u) delivery, unit) sres" where
  "handle_user_signal wr sizeof_ucontext sig_num handler_addr flags restorer_addr mask0 sig_info =
     (if contains_unsupported_flag flags then slift Panic
      else let mask = (if \<not> flags_contains flags SA_NODEFER then sm_block mask0 (sm_of_signum sig_num) else mask0) in
      sbind (smod (\<lambda>d. d\<lparr>d_thread := (d_thread d)\<lparr>px_sig_mask := sm_block (px_sig_mask (d_thread d)) mask\<rparr>\<rparr>))
      (\<lambda>_. sbind use_alternate_signal_stack
      (\<lambda>alt. sbind (sget (\<lambda>d. case alt of Some sp \<Rightarrow> sp | None \<Rightarrow> rsp (d_ctx d)))
      (\<lambda>sp. push_signal_frame wr sizeof_ucontext sig_num handler_addr flags restorer_addr mask sig_info sp))))"

text \<open>Either the thread goes on, or the process exits on the signal and the thread with it.\<close>

datatype pending_outcome = Resumed | Killed nat

definition handle_pending_signal ::
    "('s \<Rightarrow> nat) \<Rightarrow> ('s \<Rightarrow> siginfo_t) \<Rightarrow> (nat \<Rightarrow> 'r user_val \<Rightarrow> 'u \<Rightarrow> 'u res) \<Rightarrow> nat \<Rightarrow> sig_action list \<Rightarrow>
      (('s, 'o, 'r, 'u) delivery, pending_outcome) sres" where
  "handle_pending_signal num to_info wr sizeof_ucontext dispositions d =
     (case sq_dequeue (px_sig_mask (d_thread d)) (px_sig_queues (d_thread d)) of
        None \<Rightarrow> (Panic, d)
      | Some (None, q) \<Rightarrow> (Ok Resumed, d\<lparr>d_thread := (d_thread d)\<lparr>px_sig_queues := q\<rparr>\<rparr>)
      | Some (Some signal, q) \<Rightarrow>
          sbind (slift (sd_get dispositions (num signal)))
            (\<lambda>action. case action of
               Ign \<Rightarrow> sreturn Resumed
             | User handler_addr flags restorer_addr act_mask \<Rightarrow>
                 sbind (handle_user_signal wr sizeof_ucontext (num signal) handler_addr flags restorer_addr act_mask
                   (to_info signal)) (\<lambda>_. sreturn Resumed)
             | Dfl \<Rightarrow>
                 (case default_from_signum (num signal) of
                    DCore \<Rightarrow> sreturn (Killed (num signal))
                  | DTerm \<Rightarrow> sreturn (Killed (num signal))
                  | DIgn \<Rightarrow> sreturn Resumed
                  | DStop \<Rightarrow> (\<lambda>d.
                      if px_status (d_thread d) = Running
                      then sbind (slift (set_stopped (px_status (d_thread d))))
                        (\<lambda>st. sbind (smod (\<lambda>d. d\<lparr>d_thread := (d_thread d)\<lparr>px_status := st\<rparr>\<rparr>)) (\<lambda>_. sreturn Resumed)) d
                      else (Ok Resumed, d))
                  | DCont \<Rightarrow> (\<lambda>d.
                      if px_status (d_thread d) = Stopped
                      then sbind (slift (set_running (px_status (d_thread d))))
                        (\<lambda>st. sbind (smod (\<lambda>d. d\<lparr>d_thread := (d_thread d)\<lparr>px_status := st\<rparr>\<rparr>)) (\<lambda>_. sreturn Resumed)) d
                      else (Ok Resumed, d))))
            (d\<lparr>d_thread := (d_thread d)\<lparr>px_sig_queues := q\<rparr>\<rparr>))"

section \<open>System calls\<close>

text \<open>The alternate stack is released when the handler ran on it.\<close>

definition leave_signal_stack :: "(('s, 'o, 'r, 'u) delivery, unit) sres" where
  "leave_signal_stack d =
     (case px_sig_stack (d_thread d) of
        None \<Rightarrow> (Ok (), d)
      | Some st \<Rightarrow>
          if ss_base st \<le> rsp (d_ctx d) then
            sbind (slift (usize_add (ss_base st) (ss_size st)))
            (\<lambda>stack_end d. if rsp (d_ctx d) \<le> stack_end then
               sbind (slift (decrease_handler_counter st))
               (\<lambda>st'. smod (\<lambda>d. d\<lparr>d_thread := (d_thread d)\<lparr>px_sig_stack := Some st'\<rparr>\<rparr>)) d
             else (Ok (), d)) d
          else (Ok (), d))"

definition sys_rt_sigreturn :: "('u \<Rightarrow> nat \<Rightarrow> 'r ucontext_t res) \<Rightarrow> (('s, 'o, 'r, 'u) delivery, unit) sres" where
  "sys_rt_sigreturn rd d =
     (case px_sig_context (d_thread d) of
        None \<Rightarrow> (Err EINVAL, d)
      | Some sig_context_addr \<Rightarrow>
          sbind (slift (assert_or_panic (sig_context_addr = rsp (d_ctx d))))
          (\<lambda>_. sbind (slift (rd (d_mem d) sig_context_addr))
          (\<lambda>ucontext. sbind leave_signal_stack
          (\<lambda>_. smod (\<lambda>d. d
             \<lparr>d_thread := (d_thread d)
                \<lparr>px_sig_context := (if uc_link ucontext = 0 then None else Some (uc_link ucontext)),
                 px_sig_mask := sm_unblock (px_sig_mask (d_thread d)) (uc_sigmask ucontext)\<rparr>,
              d_ctx := uc_gp_regs ucontext\<rparr>)))) d)"

datatype mask_op = Block | Unblock | SetMask

definition mask_op_try_from :: "nat \<Rightarrow> mask_op option" where
  "mask_op_try_from how =
     (if how = 0 then Some Block else if how = 1 then Some Unblock else if how = 2 then Some SetMask else None)"

definition do_rt_sigprocmask ::
    "(nat \<Rightarrow> 'r user_val \<Rightarrow> 'u \<Rightarrow> 'u res) \<Rightarrow> ('u \<Rightarrow> nat \<Rightarrow> 64 word res) \<Rightarrow> mask_op \<Rightarrow> nat \<Rightarrow> nat \<Rightarrow> nat \<Rightarrow>
      (('s, 'o, 'r, 'u) delivery, unit) sres" where
  "do_rt_sigprocmask wr rd op set_ptr oldset_ptr sigset_size d =
     sbind (if oldset_ptr \<noteq> 0 then d_write wr oldset_ptr (V_u64 (px_sig_mask (d_thread d))) else sreturn ())
     (\<lambda>_ d. if set_ptr \<noteq> 0 then
        sbind (slift (rd (d_mem d) set_ptr))
        (\<lambda>new_set. smod (\<lambda>d. d\<lparr>d_thread := (d_thread d)\<lparr>px_sig_mask :=
           (case op of
              Block \<Rightarrow> sm_block (px_sig_mask (d_thread d)) (sm_remove_signal (sm_remove_signal new_set SIGKILL) SIGSTOP)
            | Unblock \<Rightarrow> sm_unblock (px_sig_mask (d_thread d)) new_set
            | SetMask \<Rightarrow> sm_set (px_sig_mask (d_thread d)) new_set)\<rparr>\<rparr>)) d
        else (Ok (), d)) d"

definition unwrap_res :: "('st, 'a) sres \<Rightarrow> ('st, 'a) sres" where
  "unwrap_res m d = (case m d of (Err e, d') \<Rightarrow> (Panic, d') | r \<Rightarrow> r)"

definition sys_rt_sigprocmask ::
    "(nat \<Rightarrow> 'r user_val \<Rightarrow> 'u \<Rightarrow> 'u res) \<Rightarrow> ('u \<Rightarrow> nat \<Rightarrow> 64 word res) \<Rightarrow> nat \<Rightarrow> nat \<Rightarrow> nat \<Rightarrow> nat \<Rightarrow>
      (('s, 'o, 'r, 'u) delivery, nat) sres" where
  "sys_rt_sigprocmask wr rd how set_ptr oldset_ptr sigset_size =
     sbind (slift (unwrap_opt (mask_op_try_from how)))
     (\<lambda>op. sbind (unwrap_res (do_rt_sigprocmask wr rd op set_ptr oldset_ptr sigset_size)) (\<lambda>_. sreturn 0))"

definition sys_rt_sigaction ::
    "(nat \<Rightarrow> 'r user_val \<Rightarrow> 'u \<Rightarrow> 'u res) \<Rightarrow> ('u \<Rightarrow> nat \<Rightarrow> sigaction_t res) \<Rightarrow> nat \<Rightarrow> nat \<Rightarrow> nat \<Rightarrow> nat \<Rightarrow>
      (sig_action list \<times> 'u, nat) sres" where
  "sys_rt_sigaction wr rd sig_num0 sig_action_addr old_sig_action_addr sigset_size =
     sbind (slift (signum_try_from sig_num0))
     (\<lambda>sig_num. sbind (\<lambda>(disp, u). (sd_get disp sig_num, (disp, u)))
     (\<lambda>old_action. sbind (\<lambda>(disp, u).
        if old_sig_action_addr \<noteq> 0
        then (case wr old_sig_action_addr (V_sigaction (sa_as_c_type old_action)) u of
                Ok u' \<Rightarrow> (Ok (), (disp, u')) | Err e \<Rightarrow> (Err e, (disp, u)) | Panic \<Rightarrow> (Panic, (disp, u)))
        else (Ok (), (disp, u)))
     (\<lambda>_ (disp, u).
        if sig_action_addr \<noteq> 0
        then sbind (slift (rd u sig_action_addr))
          (\<lambda>sig_action_c. sbind (slift (case sa_try_from sig_action_c of Err e \<Rightarrow> Panic | r \<Rightarrow> r))
          (\<lambda>sig_action. sbind (slift (sd_set disp sig_num sig_action))
          (\<lambda>disp'. sbind (smod (\<lambda>_. (disp', u))) (\<lambda>_. sreturn 0)))) (disp, u)
        else (Ok 0, (disp, u)))))"

abbreviation MINSTKSZ :: nat where "MINSTKSZ \<equiv> 2048"

definition status_bits :: "sig_stack_status \<Rightarrow> 32 word" where
  "status_bits st = (case st of SS_INACTIVE \<Rightarrow> 0 | SS_ONSTACK \<Rightarrow> 1 | SS_DISABLE \<Rightarrow> 2)"

definition stack_t_from :: "sig_stack \<Rightarrow> 'r user_val" where
  "stack_t_from st = V_stack (ss_base st) (ss_flags st OR status_bits (ss_status st)) (ss_size st)"

definition sig_stack_try_from :: "nat \<Rightarrow> 32 word \<Rightarrow> nat \<Rightarrow> sig_stack res" where
  "sig_stack_try_from sp flags sz =
     (if sint flags < 0 then Err EINVAL
      else if flags AND NOT SS_AUTODISARM \<noteq> 0 then Err EINVAL
      else if sz < MINSTKSZ then Err ENOMEM
      else Ok (ss_new sp flags sz))"

definition get_old_stack ::
    "(nat \<Rightarrow> 'r user_val \<Rightarrow> 'u \<Rightarrow> 'u res) \<Rightarrow> nat \<Rightarrow> sig_stack option \<Rightarrow> (('s, 'o, 'r, 'u) delivery, unit) sres" where
  "get_old_stack wr old_sig_stack_addr old_stack =
     (if old_sig_stack_addr = 0 then sreturn ()
      else case old_stack of
        None \<Rightarrow> sreturn ()
      | Some st \<Rightarrow> d_write wr old_sig_stack_addr (stack_t_from st))"

definition set_new_stack ::
    "('u \<Rightarrow> nat \<Rightarrow> (nat \<times> 32 word \<times> nat) res) \<Rightarrow> nat \<Rightarrow> sig_stack option \<Rightarrow> (('s, 'o, 'r, 'u) delivery, unit) sres" where
  "set_new_stack rd sig_stack_addr old_stack d =
     (if sig_stack_addr = 0 then (Ok (), d)
      else if (case old_stack of Some st \<Rightarrow> ss_is_active st | None \<Rightarrow> False) then (Err EPERM, d)
      else sbind (slift (rd (d_mem d) sig_stack_addr))
        (\<lambda>(sp, flags, sz). sbind (slift (sig_stack_try_from sp flags sz))
        (\<lambda>new_stack. smod (\<lambda>d. d\<lparr>d_thread := (d_thread d)\<lparr>px_sig_stack := Some new_stack\<rparr>\<rparr>))) d)"

definition sys_sigaltstack ::
    "(nat \<Rightarrow> 'r user_val \<Rightarrow> 'u \<Rightarrow> 'u res) \<Rightarrow> ('u \<Rightarrow> nat \<Rightarrow> (nat \<times> 32 word \<times> nat) res) \<Rightarrow> nat \<Rightarrow> nat \<Rightarrow>
      (('s, 'o, 'r, 'u) delivery, nat) sres" where
  "sys_sigaltstack wr rd sig_stack_addr old_sig_stack_addr d =
     (let old_stack = px_sig_stack (d_thread d) in
      sbind (get_old_stack wr old_sig_stack_addr old_stack)
      (\<lambda>_. sbind (set_new_stack rd sig_stack_addr old_stack) (\<lambda>_. sreturn 0)) d)"

section \<open>The frame of a handler\<close>

lemma usize_align_down_16:
  assumes "x < USIZE_LIMIT"
  shows "usize_align_down x 16 = Some (x - x mod 16)"
  using usize_align_down_Some [of 4 16 x] assms by simp

lemma alloc_aligned_16:
  assumes "sp < USIZE_LIMIT"
  shows "alloc_aligned_in_user_stack sp sz 16 = (if sz \<le> sp then Ok ((sp - sz) - (sp - sz) mod 16) else Panic)"
proof -
  have "is_power_of_two (of_nat 16 :: 64 word)" by (simp add: is_power_of_two_def)
  then show ?thesis
    using assms usize_align_down_16 [of "sp - sz"] by (auto simp: alloc_aligned_in_user_stack_def usize_sub_def)
qed

text \<open>The registered stack after a handler started: its counter grew unless it is disabled.\<close>

definition stack_entered :: "sig_stack option \<Rightarrow> sig_stack option" where
  "stack_entered st = map_option (\<lambda>st. if ss_is_disabled st then st
     else st\<lparr>handler_counter := handler_counter st + 1\<rparr>) st"

definition stack_top :: "sig_stack option \<Rightarrow> nat \<Rightarrow> nat" where
  "stack_top st sp =
     (case st of
        None \<Rightarrow> sp
      | Some st \<Rightarrow> if ss_is_disabled st \<or> ss_is_active st then sp
                   else let top = ss_base st + ss_size st in top - top mod 16)"

lemma use_alternate_signal_stack_Ok:
  assumes "use_alternate_signal_stack d = (Ok alt, d')"
  shows "d' = d\<lparr>d_thread := (d_thread d)\<lparr>px_sig_stack := stack_entered (px_sig_stack (d_thread d))\<rparr>\<rparr>"
    "(case alt of Some sp \<Rightarrow> sp | None \<Rightarrow> rsp (d_ctx d)) = stack_top (px_sig_stack (d_thread d)) (rsp (d_ctx d))"
    "(case alt of Some sp \<Rightarrow> sp < USIZE_LIMIT | None \<Rightarrow> True)"
  using assms
  by (auto simp: use_alternate_signal_stack_def stack_entered_def stack_top_def Let_def result_simps
      increase_handler_counter_def usize_align_down_16 split: option.splits if_splits)

definition handler_mask :: "nat \<Rightarrow> 32 word \<Rightarrow> 64 word \<Rightarrow> 64 word" where
  "handler_mask n flags m = (if \<not> flags_contains flags SA_NODEFER then sm_block m (sm_of_signum n) else m)"

lemma d_write_Ok [result_simps]: "d_write wr a v d = (Ok x, d') \<longleftrightarrow> (\<exists>u. wr a v (d_mem d) = Ok u \<and> d' = d\<lparr>d_mem := u\<rparr>)"
  by (auto simp: d_write_def split: result.splits)

lemma write_u64_Ok [result_simps]:
  "write_u64_to_user_stack wr sp v d = (Ok x, d') \<longleftrightarrow>
    8 \<le> sp \<and> x = sp - 8 \<and> (\<exists>u. wr (sp - 8) (V_u64 (of_nat v)) (d_mem d) = Ok u \<and> d' = d\<lparr>d_mem := u\<rparr>)"
  by (auto simp: write_u64_to_user_stack_def result_simps)

text \<open>The frame below \<open>top\<close>: where its parts are, what memory and registers hold afterwards.\<close>

definition frame_pushed ::
    "(nat \<Rightarrow> 'r user_val \<Rightarrow> 'u \<Rightarrow> 'u res) \<Rightarrow> nat \<Rightarrow> nat \<Rightarrow> nat \<Rightarrow> 32 word \<Rightarrow> nat \<Rightarrow> 64 word \<Rightarrow> siginfo_t \<Rightarrow> nat \<Rightarrow>
      ('s, 'o, 'r, 'u) delivery \<Rightarrow> nat \<Rightarrow> ('s, 'o, 'r, 'u) delivery \<Rightarrow> bool" where
  "frame_pushed wr UC n h flags restorer mk info tp d a d' \<longleftrightarrow>
     256 + UC \<le> tp \<and> a = (tp - 256 - UC) - (tp - 256 - UC) mod 16 \<and> 8 \<le> a \<and>
     (\<exists>u1 u2. wr (tp - 256) (V_siginfo info) (d_mem d) = Ok u1 \<and>
        wr a (V_ucontext \<lparr>uc_link = (case px_sig_context (d_thread d) of Some l \<Rightarrow> l | None \<Rightarrow> 0),
               uc_gp_regs = d_ctx d, uc_sigmask = mk\<rparr>) u1 = Ok u2 \<and>
        (if flags_contains flags SA_RESTORER
         then wr (a - 8) (V_u64 (of_nat restorer)) u2 = Ok (d_mem d')
         else 16 \<le> a \<and>
           (\<exists>u. wr (a - 8) (V_bytes TRAMPOLINE) u2 = Ok u \<and> wr (a - 16) (V_u64 (of_nat (a - 8))) u = Ok (d_mem d')))) \<and>
     d_thread d' = (d_thread d)\<lparr>px_sig_context := Some a\<rparr> \<and>
     d_ctx d' = (d_ctx d)\<lparr>rip := h, rsp := (if flags_contains flags SA_RESTORER then a - 8 else a - 16), rdi := n,
               rsi := (if flags_contains flags SA_SIGINFO then tp - 256 else 0),
               rdx := (if flags_contains flags SA_SIGINFO then a else 0)\<rparr>"

lemma push_signal_frame_Ok:
  assumes "push_signal_frame wr UC n h flags restorer mk info tp d = (Ok x, d')" "tp < USIZE_LIMIT"
  shows "\<exists>a. frame_pushed wr UC n h flags restorer mk info tp d a d'"
proof -
  define a where "a = (tp - 256 - UC) - (tp - 256 - UC) mod 16"
  have al: "alloc_aligned_in_user_stack (tp - 256) UC 16 = (if UC \<le> tp - 256 then Ok a else Panic)"
    unfolding a_def using assms(2) by (intro alloc_aligned_16) simp
  have l: "length TRAMPOLINE = 8" by (simp add: TRAMPOLINE_def)
  from assms(1) have t: "256 \<le> tp" "UC \<le> tp - 256"
    by (auto simp: push_signal_frame_def result_simps al split: if_splits)
  let ?ucx = "\<lparr>uc_link = (case px_sig_context (d_thread d) of Some l \<Rightarrow> l | None \<Rightarrow> 0), uc_gp_regs = d_ctx d, uc_sigmask = mk\<rparr>"
  let ?regs = "\<lambda>sp. (d_ctx d)\<lparr>rip := h, rsp := sp, rdi := n,
      rsi := (if flags_contains flags SA_SIGINFO then tp - 256 else 0),
      rdx := (if flags_contains flags SA_SIGINFO then a else 0)\<rparr>"
  show ?thesis
  proof (cases "flags_contains flags SA_RESTORER")
    case True
    obtain u1 u2 u3 where "wr (tp - 256) (V_siginfo info) (d_mem d) = Ok u1" "wr a (V_ucontext ?ucx) u1 = Ok u2"
      "wr (a - 8) (V_u64 (of_nat restorer)) u2 = Ok u3" "8 \<le> a"
      "d_mem d' = u3" "d_thread d' = (d_thread d)\<lparr>px_sig_context := Some a\<rparr>" "d_ctx d' = ?regs (a - 8)"
      using assms(1) t True by (auto simp: push_signal_frame_def result_simps al)
    then show ?thesis unfolding frame_pushed_def a_def [symmetric] using t True
      by (intro exI [of _ a] exI [of _ u1] exI [of _ u2] conjI) (simp_all add: a_def)
  next
    case False
    obtain u1 u2 u3 u where "wr (tp - 256) (V_siginfo info) (d_mem d) = Ok u1" "wr a (V_ucontext ?ucx) u1 = Ok u2"
      "wr (a - 8) (V_bytes TRAMPOLINE) u2 = Ok u" "wr (a - 16) (V_u64 (of_nat (a - 8))) u = Ok u3" "16 \<le> a"
      "d_mem d' = u3" "d_thread d' = (d_thread d)\<lparr>px_sig_context := Some a\<rparr>" "d_ctx d' = ?regs (a - 16)"
      using assms(1) t False by (auto simp: push_signal_frame_def result_simps al l)
    then show ?thesis unfolding frame_pushed_def a_def [symmetric] using t False
      by (intro exI [of _ a] exI [of _ u1] exI [of _ u2] conjI) (simp_all add: a_def)
  qed
qed

lemma handle_user_signal_Ok:
  assumes "handle_user_signal wr UC n h flags restorer m info d = (Ok x, d')" "rsp (d_ctx d) < USIZE_LIMIT"
  shows "\<exists>a. frame_pushed wr UC n h flags restorer (handler_mask n flags m) info
      (stack_top (px_sig_stack (d_thread d)) (rsp (d_ctx d)))
      (d\<lparr>d_thread := (d_thread d)\<lparr>px_sig_mask := sm_block (px_sig_mask (d_thread d)) (handler_mask n flags m),
               px_sig_stack := stack_entered (px_sig_stack (d_thread d))\<rparr>\<rparr>) a d'"
    "\<not> contains_unsupported_flag flags"
proof -
  let ?d1 = "d\<lparr>d_thread := (d_thread d)\<lparr>px_sig_mask := sm_block (px_sig_mask (d_thread d)) (handler_mask n flags m)\<rparr>\<rparr>"
  let ?st = "px_sig_stack (d_thread d)" and ?top = "stack_top (px_sig_stack (d_thread d)) (rsp (d_ctx d))"
  let ?push = "push_signal_frame wr UC n h flags restorer (handler_mask n flags m) info"
  have us: "\<not> contains_unsupported_flag flags"
    and "sbind use_alternate_signal_stack (\<lambda>alt. sbind (sget (\<lambda>d. case alt of Some sp \<Rightarrow> sp | None \<Rightarrow> rsp (d_ctx d))) ?push)
        ?d1 = (Ok x, d')"
    using assms(1) by (auto simp: handle_user_signal_def handler_mask_def Let_def slift_def split: if_splits)
  then obtain alt d2 where alt: "use_alternate_signal_stack ?d1 = (Ok alt, d2)"
    and push: "?push (case alt of Some sp \<Rightarrow> sp | None \<Rightarrow> rsp (d_ctx d2)) d2 = (Ok x, d')"
    by (auto simp: sbind_Ok sprim_Ok)
  have d2: "d2 = ?d1\<lparr>d_thread := (d_thread ?d1)\<lparr>px_sig_stack := stack_entered ?st\<rparr>\<rparr>"
    and top: "(case alt of Some sp \<Rightarrow> sp | None \<Rightarrow> rsp (d_ctx d)) = ?top" and lt: "?top < USIZE_LIMIT"
    using use_alternate_signal_stack_Ok [OF alt] assms(2) by (auto split: option.splits)
  have "(case alt of Some sp \<Rightarrow> sp | None \<Rightarrow> rsp (d_ctx d2)) = ?top"
    using top unfolding d2 by (simp split: option.splits)
  with push_signal_frame_Ok [of wr UC n h flags restorer _ info ?top d2] push lt
  show "\<exists>a. frame_pushed wr UC n h flags restorer (handler_mask n flags m) info ?top
      (d\<lparr>d_thread := (d_thread d)\<lparr>px_sig_mask := sm_block (px_sig_mask (d_thread d)) (handler_mask n flags m),
               px_sig_stack := stack_entered ?st\<rparr>\<rparr>) a d'" by (simp add: d2)
  show "\<not> contains_unsupported_flag flags" by (rule us)
qed

lemma sm_unblock_block: "sm_unblock (sm_block M k) k = M AND NOT k"
  by (rule bit_eqI) (auto simp: sm_unblock_def sm_block_def bit_simps)

lemma leave_signal_stack_entered:
  assumes "px_sig_stack (d_thread d) = stack_entered st"
    and "\<forall>s. st = Some s \<longrightarrow> ss_base s + ss_size s < USIZE_LIMIT \<and>
      (ss_base s \<le> rsp (d_ctx d) \<and> rsp (d_ctx d) \<le> ss_base s + ss_size s \<longleftrightarrow> \<not> ss_is_disabled s)"
  shows "leave_signal_stack d = (Ok (), d\<lparr>d_thread := (d_thread d)\<lparr>px_sig_stack := st\<rparr>\<rparr>)"
proof -
  have idle: "px_sig_stack (d_thread d) = st \<Longrightarrow> d\<lparr>d_thread := (d_thread d)\<lparr>px_sig_stack := st\<rparr>\<rparr> = d" by auto
  show ?thesis
  proof (cases st)
    case None
    then show ?thesis using assms(1) idle by (simp add: leave_signal_stack_def stack_entered_def)
  next
    case (Some s)
    then show ?thesis using assms idle
      by (cases "ss_is_disabled s") (auto simp: leave_signal_stack_def stack_entered_def usize_add_def
          decrease_handler_counter_def usize_sub_def smod_def)
  qed
qed

section \<open>Properties\<close>

text \<open>C27: Starting a user handler. The signal information and the saved context are written below
  128 free bytes under the stack pointer (or the top of the alternate stack), one below the other
  and disjoint, the context at a multiple of 16; the stack pointer the handler gets is below both,
  and with a restorer it is 8 below a multiple of 16, as the calling convention wants; the handler
  runs with the signal number as its argument and, if it asked for them, the addresses of the two
  records, with the signals of its mask blocked in addition to those blocked before.\<close>

theorem handler_frame_correct:
  assumes "handle_user_signal wr UC n h flags restorer m info d = (Ok (), d')"
    and "rsp (d_ctx d) < USIZE_LIMIT"
  shows "\<exists>siginfo_addr ucontext_addr.
    siginfo_addr + SIZEOF_SIGINFO + 128 = stack_top (px_sig_stack (d_thread d)) (rsp (d_ctx d)) \<and>
    ucontext_addr + UC \<le> siginfo_addr \<and> siginfo_addr < ucontext_addr + UC + 16 \<and> 16 dvd ucontext_addr \<and>
    (\<exists>u. wr siginfo_addr (V_siginfo info) (d_mem d) = Ok u) \<and>
    rsp (d_ctx d') + (if flags_contains flags SA_RESTORER then 8 else 16) = ucontext_addr \<and>
    rip (d_ctx d') = h \<and> rdi (d_ctx d') = n \<and>
    (if flags_contains flags SA_SIGINFO then rsi (d_ctx d') = siginfo_addr \<and> rdx (d_ctx d') = ucontext_addr
     else rsi (d_ctx d') = 0 \<and> rdx (d_ctx d') = 0) \<and>
    px_sig_context (d_thread d') = Some ucontext_addr \<and>
    px_sig_mask (d_thread d') = px_sig_mask (d_thread d) OR handler_mask n flags m"
proof -
  let ?top = "stack_top (px_sig_stack (d_thread d)) (rsp (d_ctx d))"
  obtain a where "frame_pushed wr UC n h flags restorer (handler_mask n flags m) info ?top
      (d\<lparr>d_thread := (d_thread d)\<lparr>px_sig_mask := sm_block (px_sig_mask (d_thread d)) (handler_mask n flags m),
               px_sig_stack := stack_entered (px_sig_stack (d_thread d))\<rparr>\<rparr>) a d'"
    using handle_user_signal_Ok(1) [OF assms] by blast
  then have t: "256 + UC \<le> ?top" "a = (?top - 256 - UC) - (?top - 256 - UC) mod 16" "8 \<le> a"
    and w: "\<exists>u. wr (?top - 256) (V_siginfo info) (d_mem d) = Ok u"
    and r: "flags_contains flags SA_RESTORER \<or> 16 \<le> a"
    and th: "px_sig_context (d_thread d') = Some a" "px_sig_mask (d_thread d') = px_sig_mask (d_thread d) OR handler_mask n flags m"
    and cx: "d_ctx d' = (d_ctx d)\<lparr>rip := h, rsp := (if flags_contains flags SA_RESTORER then a - 8 else a - 16), rdi := n,
               rsi := (if flags_contains flags SA_SIGINFO then ?top - 256 else 0),
               rdx := (if flags_contains flags SA_SIGINFO then a else 0)\<rparr>"
    unfolding frame_pushed_def by (auto simp: sm_block_def split: if_splits)
  have dv: "16 dvd a" unfolding t(2) by (rule dvd_minus_mod)
  have a: "a + UC \<le> ?top - 256" "?top - 256 < a + UC + 16"
    unfolding t(2) using t(1) mod_less_divisor [of 16 "?top - 256 - UC"] mod_less_eq_dividend [of "?top - 256 - UC" 16]
    by simp_all
  have c: "rsp (d_ctx d') = (if flags_contains flags SA_RESTORER then a - 8 else a - 16)" "rip (d_ctx d') = h" "rdi (d_ctx d') = n" "rsi (d_ctx d') = (if flags_contains flags SA_SIGINFO then ?top - 256 else 0)"
     "rdx (d_ctx d') = (if flags_contains flags SA_SIGINFO then a else 0)"
    by (simp_all add: cx)
  show ?thesis
    by (intro exI [of _ "?top - 256"] exI [of _ a] conjI) (use dv a c r th t(1,3) w in \<open>auto split: if_splits\<close>)
qed

text \<open>A concrete thread and memory for the witnesses.\<close>

definition demo_wr :: "nat \<Rightarrow> unit user_val \<Rightarrow> (nat \<rightharpoonup> unit user_val) \<Rightarrow> (nat \<rightharpoonup> unit user_val) res" where
  "demo_wr a v u = Ok (u(a \<mapsto> v))"

definition demo_rd :: "(nat \<rightharpoonup> unit user_val) \<Rightarrow> nat \<Rightarrow> unit ucontext_t res" where
  "demo_rd u a = (case u a of Some (V_ucontext c) \<Rightarrow> Ok c | _ \<Rightarrow> Err EFAULT)"

definition demo_thread :: "(nat \<times> string, nat) posix_thread" where
  "demo_thread = \<lparr>px_status = Running, px_sig_mask = 0, px_sig_queues = sq_new, px_sig_context = None,
     px_sig_stack = None, px_ruid = 1000, px_suid = 1000\<rparr>"

definition demo_delivery :: "(nat \<times> string, nat, unit, nat \<rightharpoonup> unit user_val) delivery" where
  "demo_delivery = \<lparr>d_thread = demo_thread,
     d_ctx = \<lparr>rip = 0x400000, rsp = 0x8000, rdi = 1, rsi = 2, rdx = 3, other_regs = ()\<rparr>, d_mem = Map.empty\<rparr>"

lemma demo_delivers:
  "\<exists>d1. handle_user_signal demo_wr 1000 SIGUSR1 0x401000 SA_RESTORER 0x402000 0 (siginfo_new SIGUSR1 0) demo_delivery = (Ok (), d1) \<and>
     rsp (d_ctx d1) = 31496"
  by (simp add: handle_user_signal_def Let_def contains_unsupported_flag_def flags_contains_def demo_delivery_def demo_thread_def
      use_alternate_signal_stack_def push_signal_frame_def usize_sub_def d_write_def demo_wr_def alloc_aligned_16
      write_u64_to_user_stack_def sbind_def slift_def smod_def sget_def sreturn_def)

theorem handler_frame_correct_witness:
  "\<exists>d1. handle_user_signal demo_wr 1000 SIGUSR1 0x401000 SA_RESTORER 0x402000 0 (siginfo_new SIGUSR1 0) demo_delivery = (Ok (), d1) \<and>
     px_sig_context (d_thread d1) = Some 31504 \<and> rip (d_ctx d1) = 0x401000"
proof -
  obtain d1 where d1: "handle_user_signal demo_wr 1000 SIGUSR1 0x401000 SA_RESTORER 0x402000 0 (siginfo_new SIGUSR1 0) demo_delivery = (Ok (), d1)"
    "rsp (d_ctx d1) = 31496" using demo_delivers by blast
  have "rsp (d_ctx demo_delivery) < USIZE_LIMIT" by (simp add: demo_delivery_def)
  from handler_frame_correct [OF d1(1) this] show ?thesis using d1 by (auto simp: flags_contains_def)
qed

text \<open>C13: Returning from a user handler. If the handler was started with a restorer, came back with
  the stack pointer it was given (after the return address was popped) and left the saved context
  alone, then \<^verbatim>\<open>rt_sigreturn\<close> succeeds and restores every register, the previous saved context and
  the use count of the alternate stack. The signal mask is not restored as it was: the signals of
  the handler's mask are unblocked, whether or not they were blocked before the signal.\<close>

theorem sigreturn_undoes_delivery:
  assumes deliver: "handle_user_signal wr UC n h flags restorer m info d = (Ok (), d1)" "rsp (d_ctx d) < USIZE_LIMIT"
    and restorer: "flags_contains flags SA_RESTORER"
    and wr_rd: "\<And>a c u u'. wr a (V_ucontext c) u = Ok u' \<Longrightarrow> rd u' a = Ok c"
    and wr_frame: "\<And>a v u u'. 8 \<le> a \<Longrightarrow> wr (a - 8) (V_u64 v) u = Ok u' \<Longrightarrow> rd u' a = rd u a"
    and handler: "d_thread d2 = d_thread d1" "rsp (d_ctx d2) = rsp (d_ctx d1) + 8"
      "rd (d_mem d2) (rsp (d_ctx d2)) = rd (d_mem d1) (rsp (d_ctx d2))"
    and link: "px_sig_context (d_thread d) \<noteq> Some 0"
    and stack: "\<forall>s. px_sig_stack (d_thread d) = Some s \<longrightarrow> ss_base s + ss_size s < USIZE_LIMIT \<and>
      (ss_base s \<le> rsp (d_ctx d2) \<and> rsp (d_ctx d2) \<le> ss_base s + ss_size s \<longleftrightarrow> \<not> ss_is_disabled s)"
  shows "sys_rt_sigreturn rd d2 = (Ok (),
    \<lparr>d_thread = (d_thread d)\<lparr>px_sig_mask := px_sig_mask (d_thread d) AND NOT (handler_mask n flags m)\<rparr>,
     d_ctx = d_ctx d, d_mem = d_mem d2\<rparr>)"
proof -
  let ?mk = "handler_mask n flags m" and ?st = "px_sig_stack (d_thread d)"
  let ?ucx = "\<lparr>uc_link = (case px_sig_context (d_thread d) of Some l \<Rightarrow> l | None \<Rightarrow> 0), uc_gp_regs = d_ctx d, uc_sigmask = ?mk\<rparr>"
  obtain a u1 u2 where a: "8 \<le> a" "rsp (d_ctx d1) = a - 8"
    and w: "wr a (V_ucontext ?ucx) u1 = Ok u2" "wr (a - 8) (V_u64 (of_nat restorer)) u2 = Ok (d_mem d1)"
    and th: "d_thread d1 = (d_thread d)\<lparr>px_sig_mask := sm_block (px_sig_mask (d_thread d)) ?mk,
               px_sig_stack := stack_entered ?st, px_sig_context := Some a\<rparr>"
    using handle_user_signal_Ok(1) [OF deliver] restorer unfolding frame_pushed_def by auto
  have sp: "rsp (d_ctx d2) = a" using a handler(2) by simp
  have rd: "rd (d_mem d2) a = Ok ?ucx" using handler(3) wr_rd [OF w(1)] wr_frame [OF a(1) w(2)] sp by simp
  have l: "(if uc_link ?ucx = 0 then None else Some (uc_link ?ucx)) = px_sig_context (d_thread d)"
    using link by (auto split: option.splits)
  have "leave_signal_stack d2 = (Ok (), d2\<lparr>d_thread := (d_thread d2)\<lparr>px_sig_stack := ?st\<rparr>\<rparr>)"
    by (rule leave_signal_stack_entered [OF _ stack]) (simp add: th handler(1))
  then show ?thesis
    using sp rd l th handler(1) by (cases d2) (auto simp: sys_rt_sigreturn_def sbind_def slift_def smod_def sm_unblock_block)
qed

theorem sigreturn_undoes_delivery_witness:
  "\<exists>d1 d2. handle_user_signal demo_wr 1000 SIGUSR1 0x401000 SA_RESTORER 0x402000 0 (siginfo_new SIGUSR1 0) demo_delivery = (Ok (), d1) \<and>
     d_thread d2 = d_thread d1 \<and> d_ctx d1 \<noteq> d_ctx demo_delivery \<and>
     sys_rt_sigreturn demo_rd d2 = (Ok (), demo_delivery\<lparr>d_mem := d_mem d1\<rparr>)"
proof -
  obtain d1 where d1: "handle_user_signal demo_wr 1000 SIGUSR1 0x401000 SA_RESTORER 0x402000 0 (siginfo_new SIGUSR1 0) demo_delivery = (Ok (), d1)"
    "rsp (d_ctx d1) = 31496" using demo_delivers by blast
  let ?d2 = "d1\<lparr>d_ctx := (d_ctx d1)\<lparr>rsp := 31504\<rparr>\<rparr>"
  have "sys_rt_sigreturn demo_rd ?d2 = (Ok (),
    \<lparr>d_thread = (d_thread demo_delivery)\<lparr>px_sig_mask := px_sig_mask (d_thread demo_delivery) AND NOT (handler_mask SIGUSR1 SA_RESTORER 0)\<rparr>,
     d_ctx = d_ctx demo_delivery, d_mem = d_mem ?d2\<rparr>)"
    by (rule sigreturn_undoes_delivery [OF d1(1)])
      (use d1(2) in \<open>auto simp: demo_delivery_def demo_thread_def flags_contains_def demo_wr_def demo_rd_def\<close>)
  then have "sys_rt_sigreturn demo_rd ?d2 = (Ok (), demo_delivery\<lparr>d_mem := d_mem d1\<rparr>)"
    by (simp add: demo_delivery_def demo_thread_def)
  moreover have "d_ctx d1 \<noteq> d_ctx demo_delivery" using d1(2) by (auto simp: demo_delivery_def)
  ultimately show ?thesis using d1(1) by (intro exI [of _ d1] exI [of _ ?d2]) simp
qed

end
