(* ===== verification/Process_Table.thy ===== *)
theory Process_Table
  imports BTree_Map
begin

text \<open>
  Processes, process groups and sessions: \<^verbatim>\<open>process/process_table.rs\<close>,
  \<^verbatim>\<open>process/process/\<close>\<^verbatim>\<open>{mod,process_group,session}.rs\<close>, \<^verbatim>\<open>process/{clone,exit,wait}.rs\<close> and the
  calls \<^verbatim>\<open>setsid\<close>, \<^verbatim>\<open>setpgid\<close>, \<^verbatim>\<open>getsid\<close>, \<^verbatim>\<open>getpgrp\<close> of \<^verbatim>\<open>services/libs/aster-std/src\<close>.

  Groups and sessions are objects with an address, because the tables, the sessions and the
  processes refer to the same object: a strong reference is an address in a table that owns it, a
  weak reference is an address that can be followed only while a strong one is left. Processes are
  referred to by their pid.
\<close>

section \<open>State\<close>

datatype term_status = TExited nat | TKilled nat

datatype process_status = Uninit | Runnable | Zombie term_status

record process =
  p_parent :: "nat option"
  p_children :: "(nat, unit) btree_map"
  p_group :: "nat option"
  p_status :: process_status

record proc_group =
  g_pgid :: nat
  g_processes :: "(nat, unit) btree_map"
  g_leader :: "nat option"
  g_session :: "nat option"

record session =
  s_sid :: nat
  s_groups :: "(nat, nat) btree_map"
  s_leader :: "nat option"
  s_terminal :: "nat option"

record proc_tables =
  procs :: "(nat, process) btree_map"
  groups :: "nat \<rightharpoonup> proc_group"
  group_table :: "(nat, nat) btree_map"
  sessions :: "nat \<rightharpoonup> session"
  session_table :: "(nat, nat) btree_map"
  next_ref :: nat

definition as_u32 :: "term_status \<Rightarrow> nat" where
  "as_u32 ts = (case ts of TExited status \<Rightarrow> (status * 256) mod 2 ^ 32 | TKilled signum \<Rightarrow> signum)"

definition is_zombie :: "process \<Rightarrow> bool" where
  "is_zombie p \<longleftrightarrow> (case p_status p of Zombie _ \<Rightarrow> True | _ \<Rightarrow> False)"

definition exit_code :: "process \<Rightarrow> nat option" where
  "exit_code p = (case p_status p of Zombie ts \<Rightarrow> Some (as_u32 ts) | _ \<Rightarrow> None)"

section \<open>References\<close>

definition get_process :: "proc_tables \<Rightarrow> nat \<Rightarrow> process option" where
  "get_process t pid = map_of (procs t) pid"

definition get_process_group :: "proc_tables \<Rightarrow> nat \<Rightarrow> nat option" where
  "get_process_group t pgid = map_of (group_table t) pgid"

definition contain_process_group :: "proc_tables \<Rightarrow> nat \<Rightarrow> bool" where
  "contain_process_group t pgid \<longleftrightarrow> map_of (group_table t) pgid \<noteq> None"

definition session_alive :: "proc_tables \<Rightarrow> nat \<Rightarrow> bool" where
  "session_alive t sa \<longleftrightarrow> sa \<in> set (btm_values (session_table t))"

definition group_alive :: "proc_tables \<Rightarrow> nat \<Rightarrow> bool" where
  "group_alive t ga \<longleftrightarrow> ga \<in> set (btm_values (group_table t)) \<or>
     (\<exists>sa\<in>set (btm_values (session_table t)).
        case sessions t sa of Some s \<Rightarrow> ga \<in> set (btm_values (s_groups s)) | None \<Rightarrow> False)"

definition upgrade_group :: "proc_tables \<Rightarrow> nat option \<Rightarrow> (nat \<times> proc_group) option" where
  "upgrade_group t w =
     (case w of
        None \<Rightarrow> None
      | Some a \<Rightarrow> if group_alive t a then map_option (\<lambda>g. (a, g)) (groups t a) else None)"

definition upgrade_session :: "proc_tables \<Rightarrow> nat option \<Rightarrow> (nat \<times> session) option" where
  "upgrade_session t w =
     (case w of
        None \<Rightarrow> None
      | Some a \<Rightarrow> if session_alive t a then map_option (\<lambda>s. (a, s)) (sessions t a) else None)"

definition process_group :: "proc_tables \<Rightarrow> nat \<Rightarrow> (nat \<times> proc_group) option" where
  "process_group t pid = Option.bind (get_process t pid) (\<lambda>p. upgrade_group t (p_group p))"

definition pgid_of :: "proc_tables \<Rightarrow> nat \<Rightarrow> nat" where
  "pgid_of t pid = (case process_group t pid of Some (_, g) \<Rightarrow> g_pgid g | None \<Rightarrow> 0)"

definition session_of :: "proc_tables \<Rightarrow> nat \<Rightarrow> (nat \<times> session) option" where
  "session_of t pid = Option.bind (process_group t pid) (\<lambda>(_, g). upgrade_session t (g_session g))"

definition is_group_leader :: "proc_tables \<Rightarrow> nat \<Rightarrow> bool" where
  "is_group_leader t pid \<longleftrightarrow> (case process_group t pid of Some (_, g) \<Rightarrow> g_leader g = Some pid | None \<Rightarrow> False)"

text \<open>\<open>None\<close>: the process has no session and the \<^verbatim>\<open>unwrap\<close> panics.\<close>

definition is_session_leader :: "proc_tables \<Rightarrow> nat \<Rightarrow> bool option" where
  "is_session_leader t pid = map_option (\<lambda>(_, s). s_leader s = Some pid) (session_of t pid)"

section \<open>Groups and sessions\<close>

definition group_remove_process :: "nat \<Rightarrow> proc_group \<Rightarrow> proc_group" where
  "group_remove_process pid g =
     (if map_of (g_processes g) pid = None then g
      else g\<lparr>g_processes := btm_remove pid (g_processes g),
             g_leader := (if g_leader g = Some pid then None else g_leader g)\<rparr>)"

definition group_new :: "nat \<Rightarrow> proc_group" where
  "group_new pid = \<lparr>g_pgid = pid, g_processes = [(pid, ())], g_leader = Some pid, g_session = None\<rparr>"

definition session_new :: "nat \<Rightarrow> nat \<Rightarrow> session" where
  "session_new pgid ga = \<lparr>s_sid = pgid, s_groups = [(pgid, ga)], s_leader = None, s_terminal = None\<rparr>"

definition session_remove_process :: "nat \<Rightarrow> session \<Rightarrow> session" where
  "session_remove_process pid s = (if s_leader s = Some pid then s\<lparr>s_leader := None\<rparr> else s)"

definition session_remove_group :: "nat \<Rightarrow> session \<Rightarrow> session" where
  "session_remove_group pgid s = s\<lparr>s_groups := btm_remove pgid (s_groups s)\<rparr>"

definition contains_process_group :: "session \<Rightarrow> proc_group \<Rightarrow> bool" where
  "contains_process_group s g \<longleftrightarrow> map_of (s_groups s) (g_pgid g) \<noteq> None"

definition upd_process :: "nat \<Rightarrow> (process \<Rightarrow> process) \<Rightarrow> proc_tables \<Rightarrow> proc_tables" where
  "upd_process pid f t =
     (case map_of (procs t) pid of None \<Rightarrow> t | Some p \<Rightarrow> t\<lparr>procs := btm_insert pid (f p) (procs t)\<rparr>)"

definition upd_group :: "nat \<Rightarrow> (proc_group \<Rightarrow> proc_group) \<Rightarrow> proc_tables \<Rightarrow> proc_tables" where
  "upd_group a f t = t\<lparr>groups := (groups t)(a := map_option f (groups t a))\<rparr>"

definition upd_session :: "nat \<Rightarrow> (session \<Rightarrow> session) \<Rightarrow> proc_tables \<Rightarrow> proc_tables" where
  "upd_session a f t = t\<lparr>sessions := (sessions t)(a := map_option f (sessions t a))\<rparr>"

text \<open>
  The block that takes a process out of its group; \<open>drop_session\<close> tells whether an emptied
  session is removed too (\<^verbatim>\<open>to_new_session\<close>) or not (\<^verbatim>\<open>to_new_group\<close>).
\<close>

definition leave_group :: "bool \<Rightarrow> nat \<Rightarrow> nat \<Rightarrow> proc_tables \<Rightarrow> proc_tables res" where
  "leave_group drop_session pid sa t =
     (case process_group t pid of
        None \<Rightarrow> Ok t
      | Some (ga, g) \<Rightarrow>
          let g' = group_remove_process pid g;
              t1 = upd_process pid (\<lambda>p. p\<lparr>p_group := None\<rparr>) (upd_group ga (\<lambda>_. g') t)
          in if g_processes g' \<noteq> [] then Ok t1
             else let t2 = t1\<lparr>group_table := btm_remove (g_pgid g) (group_table t1)\<rparr> in
               case sessions t2 sa of
                 None \<Rightarrow> Panic
               | Some s \<Rightarrow>
                   if map_of (s_groups s) (g_pgid g) = None then Panic
                   else let s' = session_remove_group (g_pgid g) s;
                            t3 = upd_session sa (\<lambda>_. s') t2
                        in if drop_session \<and> s_groups s' = []
                           then Ok (t3\<lparr>session_table := btm_remove (s_sid s) (session_table t3)\<rparr>)
                           else Ok t3)"

definition to_new_session :: "nat \<Rightarrow> proc_tables \<Rightarrow> nat res \<times> proc_tables" where
  "to_new_session pid t =
     (case is_session_leader t pid of
        None \<Rightarrow> (Panic, t)
      | Some True \<Rightarrow> (case session_of t pid of Some (_, s) \<Rightarrow> (Ok (s_sid s), t) | None \<Rightarrow> (Panic, t))
      | Some False \<Rightarrow>
          if is_group_leader t pid then (Err EPERM, t)
          else case session_of t pid of
            None \<Rightarrow> (Panic, t)
          | Some (sa, _) \<Rightarrow>
              if map_of (session_table t) pid \<noteq> None then (Err EPERM, t)
              else if map_of (group_table t) pid \<noteq> None then (Err EPERM, t)
              else case leave_group True pid sa t of
                Err e \<Rightarrow> (Err e, t)
              | Panic \<Rightarrow> (Panic, t)
              | Ok t1 \<Rightarrow>
                  let ga = next_ref t1; na = next_ref t1 + 1;
                      t2 = upd_process pid (\<lambda>p. p\<lparr>p_group := Some ga\<rparr>) t1;
                      t3 = t2\<lparr>groups := (groups t2)(ga \<mapsto> (group_new pid)\<lparr>g_session := Some na\<rparr>),
                              group_table := btm_insert pid ga (group_table t2),
                              sessions := (sessions t2)(na \<mapsto> (session_new pid ga)\<lparr>s_leader := Some pid\<rparr>),
                              session_table := btm_insert pid na (session_table t2),
                              next_ref := next_ref t2 + 2\<rparr>
                  in (Ok pid, upd_session sa (session_remove_process pid) t3))"

definition to_new_group :: "nat \<Rightarrow> proc_tables \<Rightarrow> unit res \<times> proc_tables" where
  "to_new_group pid t =
     (case session_of t pid of
        None \<Rightarrow> (Panic, t)
      | Some (sa, _) \<Rightarrow>
          case leave_group False pid sa t of
            Err e \<Rightarrow> (Err e, t)
          | Panic \<Rightarrow> (Panic, t)
          | Ok t1 \<Rightarrow>
              let ga = next_ref t1;
                  t2 = upd_process pid (\<lambda>p. p\<lparr>p_group := Some ga\<rparr>) t1;
                  t3 = t2\<lparr>groups := (groups t2)(ga \<mapsto> (group_new pid)\<lparr>g_session := Some sa\<rparr>),
                          group_table := btm_insert pid ga (group_table t2),
                          next_ref := next_ref t2 + 1\<rparr>
              in (Ok (), upd_session sa (\<lambda>s. s\<lparr>s_groups := btm_insert pid ga (s_groups s)\<rparr>) t3))"

definition to_specified_group :: "nat \<Rightarrow> nat \<Rightarrow> proc_tables \<Rightarrow> unit res \<times> proc_tables" where
  "to_specified_group pid a t =
     (case groups t a of
        None \<Rightarrow> (Panic, t)
      | Some target \<Rightarrow>
          let join = (\<lambda>t. upd_process pid (\<lambda>p. p\<lparr>p_group := Some a\<rparr>)
                (upd_group a (\<lambda>g. g\<lparr>g_processes := btm_insert pid () (g_processes g)\<rparr>) t))
          in case process_group t pid of
               None \<Rightarrow> (Ok (), join t)
             | Some (ga, g) \<Rightarrow>
                 if g_pgid g = g_pgid target then (Ok (), t)
                 else let g' = group_remove_process pid g;
                          t1 = upd_process pid (\<lambda>p. p\<lparr>p_group := None\<rparr>) (upd_group ga (\<lambda>_. g') t);
                          t2 = (if g_processes g' = []
                                then t1\<lparr>group_table := btm_remove (g_pgid g) (group_table t1)\<rparr> else t1)
                      in (Ok (), join t2))"

definition to_other_group :: "nat \<Rightarrow> nat \<Rightarrow> proc_tables \<Rightarrow> unit res \<times> proc_tables" where
  "to_other_group pid pgid t =
     (if pgid_of t pid = pgid then (Ok (), t)
      else case is_session_leader t pid of
        None \<Rightarrow> (Panic, t)
      | Some True \<Rightarrow> (Err EPERM, t)
      | Some False \<Rightarrow>
          case get_process_group t pgid of
            Some a \<Rightarrow>
              (case (session_of t pid, groups t a) of
                 (Some (_, s), Some g) \<Rightarrow>
                   if \<not> contains_process_group s g then (Err EPERM, t) else to_specified_group pid a t
               | _ \<Rightarrow> (Panic, t))
          | None \<Rightarrow> if pgid \<noteq> pid then (Err EPERM, t) else to_new_group pid t)"

section \<open>Life of a process\<close>

definition process_new :: "nat option \<Rightarrow> process" where
  "process_new parent = \<lparr>p_parent = parent, p_children = [], p_group = None, p_status = Uninit\<rparr>"

definition process_build :: "nat option \<Rightarrow> process" where
  "process_build parent = (process_new parent)\<lparr>p_status := Runnable\<rparr>"

definition create_user_process :: "nat \<Rightarrow> proc_tables \<Rightarrow> proc_tables" where
  "create_user_process pid t =
     (let ga = next_ref t; sa = next_ref t + 1 in
      t\<lparr>procs := btm_insert pid ((process_build None)\<lparr>p_group := Some ga\<rparr>) (procs t),
        groups := (groups t)(ga \<mapsto> (group_new pid)\<lparr>g_session := Some sa\<rparr>),
        group_table := btm_insert pid ga (group_table t),
        sessions := (sessions t)(sa \<mapsto> (session_new pid ga)\<lparr>s_leader := Some pid\<rparr>),
        session_table := btm_insert pid sa (session_table t),
        next_ref := next_ref t + 2\<rparr>)"

definition set_parent_and_group :: "nat \<Rightarrow> nat \<Rightarrow> process \<Rightarrow> proc_tables \<Rightarrow> proc_tables option" where
  "set_parent_and_group parent pid child t =
     map_option (\<lambda>(ga, _).
       let t1 = upd_process parent (\<lambda>p. p\<lparr>p_children := btm_insert pid () (p_children p)\<rparr>) t;
           t2 = upd_group ga (\<lambda>g. g\<lparr>g_processes := btm_insert pid () (g_processes g)\<rparr>) t1
       in t2\<lparr>procs := btm_insert pid (child\<lparr>p_group := Some ga\<rparr>) (procs t2)\<rparr>)
     (process_group t parent)"

abbreviation INIT_PROCESS_PID :: nat where "INIT_PROCESS_PID \<equiv> 1"

text \<open>\<^verbatim>\<open>do_exit_group\<close>, as far as the tree of processes is concerned: the children move to the init
  process. Its result is the parent to notify with \<^verbatim>\<open>SIGCHLD\<close>.\<close>

fun adopt :: "nat \<Rightarrow> (nat \<times> unit) list \<Rightarrow> proc_tables \<Rightarrow> proc_tables" where
  "adopt i [] t = t"
| "adopt i ((c, _) # cs) t =
     adopt i cs
       (upd_process c (\<lambda>p. p\<lparr>p_parent := Some i\<rparr>)
         (upd_process i (\<lambda>p. p\<lparr>p_children := btm_insert c () (p_children p)\<rparr>) t))"

definition do_exit_group :: "nat \<Rightarrow> term_status \<Rightarrow> proc_tables \<Rightarrow> (nat option \<times> proc_tables) option" where
  "do_exit_group pid ts t =
     (case get_process t pid of
        None \<Rightarrow> None
      | Some p \<Rightarrow>
          if is_zombie p then Some (None, t)
          else let t1 = upd_process pid (\<lambda>p. p\<lparr>p_status := Zombie ts\<rparr>) t;
                   t2 = (if pid \<noteq> INIT_PROCESS_PID \<and> get_process t1 INIT_PROCESS_PID \<noteq> None
                         then adopt INIT_PROCESS_PID (p_children p) (upd_process pid (\<lambda>p. p\<lparr>p_children := []\<rparr>) t1)
                         else t1)
               in Some (Option.bind (p_parent p) (\<lambda>q. if get_process t2 q = None then None else Some q), t2))"

definition reap_zombie_child :: "nat \<Rightarrow> nat \<Rightarrow> proc_tables \<Rightarrow> (nat \<times> proc_tables) option" where
  "reap_zombie_child parent pid t =
     (case (get_process t parent, get_process t pid) of
        (Some pp, Some child) \<Rightarrow>
          if map_of (p_children pp) pid = None \<or> \<not> is_zombie child then None
          else (case process_group t pid of
            None \<Rightarrow> None
          | Some (ga, g) \<Rightarrow>
              (case upgrade_session t (g_session g) of
                 None \<Rightarrow> None
               | Some (sa, s) \<Rightarrow>
                   let g' = group_remove_process pid g;
                       s' = session_remove_process pid s;
                       t1 = upd_process parent (\<lambda>p. p\<lparr>p_children := btm_remove pid (p_children p)\<rparr>) t;
                       t2 = upd_session sa (\<lambda>_. s') (upd_group ga (\<lambda>_. g') t1);
                       t3 = (if g_processes g' = []
                             then (let s'' = session_remove_group (g_pgid g) s';
                                       t' = upd_session sa (\<lambda>_. s'')
                                         (t2\<lparr>group_table := btm_remove (g_pgid g) (group_table t2)\<rparr>)
                                   in if s_groups s'' = []
                                      then t'\<lparr>session_table := btm_remove (s_sid s) (session_table t')\<rparr> else t')
                             else t2)
                   in map_option (\<lambda>c. (c, t3\<lparr>procs := btm_remove pid (procs t3)\<rparr>)) (exit_code child)))
      | _ \<Rightarrow> None)"

datatype process_filter = FAny | FWithPid nat | FWithPgid nat

text \<open>\<open>None\<close>: an unknown kind of id, or negating the least \<^verbatim>\<open>i32\<close>, panics.\<close>

definition filter_from_which_and_id :: "nat \<Rightarrow> nat \<Rightarrow> process_filter option" where
  "filter_from_which_and_id which i =
     (if which = 0 then Some FAny else if which = 1 then Some (FWithPid (i mod 2 ^ 32))
      else if which = 2 then Some (FWithPgid (i mod 2 ^ 32)) else None)"

definition filter_from_id :: "proc_tables \<Rightarrow> nat \<Rightarrow> int \<Rightarrow> process_filter option" where
  "filter_from_id t current wait_pid =
     (if wait_pid < -1 then (if wait_pid = - (2 ^ 31) then None else Some (FWithPgid (nat (- wait_pid))))
      else if wait_pid = -1 then Some FAny
      else if wait_pid = 0 then Some (FWithPgid (pgid_of t current))
      else Some (FWithPid (nat wait_pid)))"

definition filter_matches :: "proc_tables \<Rightarrow> process_filter \<Rightarrow> nat \<Rightarrow> bool" where
  "filter_matches t f child =
     (case f of FAny \<Rightarrow> True | FWithPid pid \<Rightarrow> child = pid | FWithPgid pgid \<Rightarrow> pgid_of t child = pgid)"

text \<open>
  One evaluation of the condition of \<^verbatim>\<open>wait_child_exit\<close>: \<open>Ok None\<close> means the caller goes on
  waiting. \<open>wnohang\<close> and \<open>wnowait\<close> are the two flags it tests.
\<close>

definition wait_child_exit ::
    "nat \<Rightarrow> process_filter \<Rightarrow> bool \<Rightarrow> bool \<Rightarrow> proc_tables \<Rightarrow> (nat \<times> nat) option res \<times> proc_tables" where
  "wait_child_exit current f wnohang wnowait t =
     (case get_process t current of
        None \<Rightarrow> (Panic, t)
      | Some p \<Rightarrow>
          let unwaited = filter (filter_matches t f) (btm_keys (p_children p)) in
          if unwaited = [] then (Err ECHILD, t)
          else case List.find (\<lambda>c. case get_process t c of Some q \<Rightarrow> is_zombie q | None \<Rightarrow> False) unwaited of
            Some c \<Rightarrow>
              if wnowait then
                (case Option.bind (get_process t c) exit_code of
                   Some code \<Rightarrow> (Ok (Some (c, code)), t) | None \<Rightarrow> (Panic, t))
              else (case reap_zombie_child current c t of
                   Some (code, t') \<Rightarrow> (Ok (Some (c, code)), t') | None \<Rightarrow> (Panic, t))
          | None \<Rightarrow> if wnohang then (Ok (Some (0, 0)), t) else (Ok None, t))"

section \<open>System calls\<close>

definition sys_setsid :: "nat \<Rightarrow> proc_tables \<Rightarrow> nat res \<times> proc_tables" where
  "sys_setsid current t = to_new_session current t"

definition has_child :: "proc_tables \<Rightarrow> nat \<Rightarrow> nat \<Rightarrow> bool" where
  "has_child t pid c \<longleftrightarrow> (case get_process t pid of Some p \<Rightarrow> map_of (p_children p) c \<noteq> None | None \<Rightarrow> False)"

definition sys_setpgid :: "nat \<Rightarrow> nat \<Rightarrow> nat \<Rightarrow> proc_tables \<Rightarrow> nat res \<times> proc_tables" where
  "sys_setpgid current pid0 pgid0 t =
     (let pid = (if pid0 = 0 then current else pid0);
          pgid = (if pgid0 = 0 then pid else pgid0)
      in if pid \<noteq> current \<and> \<not> has_child t current pid then (Err ESRCH, t)
         else if pgid \<noteq> pid \<and> \<not> contain_process_group t pgid then (Err EPERM, t)
         else if get_process t pid = None then (Err ESRCH, t)
         else (case to_other_group pid pgid t of
                 (Ok _, t') \<Rightarrow> (Ok 0, t') | (Err e, t') \<Rightarrow> (Err e, t') | (Panic, t') \<Rightarrow> (Panic, t')))"

definition sys_getsid :: "nat \<Rightarrow> nat \<Rightarrow> proc_tables \<Rightarrow> nat res" where
  "sys_getsid current pid t =
     (case session_of t current of
        None \<Rightarrow> Panic
      | Some (sa, s) \<Rightarrow>
          if pid = 0 then Ok (s_sid s)
          else if get_process t pid = None then Err ESRCH
          else case session_of t pid of
            None \<Rightarrow> Panic
          | Some (sa', _) \<Rightarrow> if sa \<noteq> sa' then Err EPERM else Ok (s_sid s))"

definition sys_getpgrp :: "nat \<Rightarrow> proc_tables \<Rightarrow> nat" where
  "sys_getpgrp current t = pgid_of t current"

section \<open>The abstract specification\<close>

text \<open>
  What the tables stand for is a map from each process to its group id and session id. A state is
  \<open>consistent\<close> with such a map when the group table and the session table hold exactly the groups
  and sessions that have a process, every object knows its members, its leader is one of them, and
  a group lies in one session. \<open>X\<close> names sessions that may be empty for a moment, in the middle of
  an operation.
\<close>

type_synonym membership = "nat \<rightharpoonup> nat \<times> nat"

definition in_group :: "membership \<Rightarrow> nat \<Rightarrow> nat \<Rightarrow> bool" where
  "in_group A pid g \<longleftrightarrow> (\<exists>s. A pid = Some (g, s))"

definition group_ok :: "proc_tables \<Rightarrow> membership \<Rightarrow> nat \<Rightarrow> nat \<Rightarrow> bool" where
  "group_ok t A g ga \<longleftrightarrow> ga < next_ref t \<and>
     (\<exists>gr s sa. groups t ga = Some gr \<and> g_pgid gr = g \<and> btm_wf (g_processes gr) \<and>
        (\<forall>pid. map_of (g_processes gr) pid \<noteq> None \<longleftrightarrow> in_group A pid g) \<and>
        (\<forall>pid s'. A pid = Some (g, s') \<longrightarrow> s' = s) \<and> (\<exists>pid. A pid = Some (g, s)) \<and>
        g_session gr = Some sa \<and> map_of (session_table t) s = Some sa \<and>
        (\<forall>l. g_leader gr = Some l \<longrightarrow> A l = Some (g, s)))"

definition session_ok :: "nat set \<Rightarrow> proc_tables \<Rightarrow> membership \<Rightarrow> nat \<Rightarrow> nat \<Rightarrow> bool" where
  "session_ok X t A s sa \<longleftrightarrow> sa < next_ref t \<and>
     (\<exists>se. sessions t sa = Some se \<and> s_sid se = s \<and> btm_wf (s_groups se) \<and>
        (\<forall>g. map_of (s_groups se) g = (if \<exists>pid. A pid = Some (g, s) then map_of (group_table t) g else None)) \<and>
        (\<forall>l. s_leader se = Some l \<longrightarrow> (\<exists>g. A l = Some (g, s)))) \<and>
     (s \<in> X \<or> (\<exists>pid g. A pid = Some (g, s)))"

definition proc_ok :: "proc_tables \<Rightarrow> membership \<Rightarrow> nat \<Rightarrow> process \<Rightarrow> bool" where
  "proc_ok t A pid p \<longleftrightarrow>
     (case A pid of None \<Rightarrow> p_group p = None
      | Some (g, s) \<Rightarrow> p_group p \<noteq> None \<and> p_group p = map_of (group_table t) g)"

definition consistent_but :: "nat set \<Rightarrow> proc_tables \<Rightarrow> membership \<Rightarrow> bool" where
  "consistent_but X t A \<longleftrightarrow>
     btm_wf (procs t) \<and> btm_wf (group_table t) \<and> btm_wf (session_table t) \<and>
     (\<forall>pid p. map_of (procs t) pid = Some p \<longrightarrow> proc_ok t A pid p) \<and>
     (\<forall>pid. A pid \<noteq> None \<longrightarrow> map_of (procs t) pid \<noteq> None) \<and>
     (\<forall>g ga. map_of (group_table t) g = Some ga \<longrightarrow> group_ok t A g ga) \<and>
     (\<forall>s sa. map_of (session_table t) s = Some sa \<longrightarrow> session_ok X t A s sa)"

definition consistent :: "proc_tables \<Rightarrow> membership \<Rightarrow> bool" where
  "consistent t A \<longleftrightarrow> consistent_but {} t A \<and> (\<forall>pid. map_of (procs t) pid \<noteq> None \<longrightarrow> A pid \<noteq> None)"

lemma group_okI:
  assumes "ga < next_ref t" "groups t ga = Some gr" "g_pgid gr = g" "btm_wf (g_processes gr)"
    "\<And>pid. map_of (g_processes gr) pid \<noteq> None \<longleftrightarrow> in_group A pid g"
    "\<And>pid s'. A pid = Some (g, s') \<Longrightarrow> s' = s" "A q = Some (g, s)"
    "g_session gr = Some sa" "map_of (session_table t) s = Some sa" "\<And>l. g_leader gr = Some l \<Longrightarrow> A l = Some (g, s)"
  shows "group_ok t A g ga"
  unfolding group_ok_def
proof (rule conjI [OF assms(1)], rule exI [of _ gr], rule exI [of _ s], rule exI [of _ sa], intro conjI allI impI)
  show "\<exists>pid. A pid = Some (g, s)" using assms(7) by blast
qed (rule assms; assumption?)+

lemma group_ok_object:
  assumes "group_ok t A g ga"
  obtains gr pid s where "groups t ga = Some gr" "A pid = Some (g, s)"
  using assms unfolding group_ok_def by blast

lemma group_okD:
  assumes "group_ok t A g ga" "groups t ga = Some gr" "A pid = Some (g, s)"
  shows "ga < next_ref t" "g_pgid gr = g" "btm_wf (g_processes gr)"
    "map_of (g_processes gr) q \<noteq> None \<longleftrightarrow> in_group A q g" "A q = Some (g, s') \<Longrightarrow> s' = s"
    "\<exists>sa. g_session gr = Some sa \<and> map_of (session_table t) s = Some sa" "g_leader gr = Some l \<Longrightarrow> A l = Some (g, s)"
proof -
  obtain gr' s' sa where a: "ga < next_ref t" "groups t ga = Some gr'" "g_pgid gr' = g" "btm_wf (g_processes gr')"
      "\<forall>pid. map_of (g_processes gr') pid \<noteq> None \<longleftrightarrow> in_group A pid g"
      "\<forall>pid s''. A pid = Some (g, s'') \<longrightarrow> s'' = s'" "g_session gr' = Some sa" "map_of (session_table t) s' = Some sa"
      "\<forall>l. g_leader gr' = Some l \<longrightarrow> A l = Some (g, s')"
    using assms(1) unfolding group_ok_def by blast
  have e: "s' = s" using a(6) assms(3) by blast
  have f: "gr' = gr" using a(2) assms(2) by simp
  show "ga < next_ref t" by (rule a(1))
  show "g_pgid gr = g" "btm_wf (g_processes gr)" using a(3,4) f by simp_all
  show "map_of (g_processes gr) q \<noteq> None \<longleftrightarrow> in_group A q g" using a(5) unfolding f by (rule spec)
  show "\<exists>sa. g_session gr = Some sa \<and> map_of (session_table t) s = Some sa" using a(7,8) e f by simp
  show "A q = Some (g, s'') \<Longrightarrow> s'' = s" for q s'' using a(6) unfolding e by blast
  show "g_leader gr = Some l \<Longrightarrow> A l = Some (g, s)" using a(9) unfolding e f by blast
qed

lemma session_okI:
  assumes "sa < next_ref t" "sessions t sa = Some se" "s_sid se = s" "btm_wf (s_groups se)"
    "\<And>g. map_of (s_groups se) g = (if \<exists>pid. A pid = Some (g, s) then map_of (group_table t) g else None)"
    "\<And>l. s_leader se = Some l \<Longrightarrow> \<exists>g. A l = Some (g, s)" "s \<in> X \<or> (\<exists>pid g. A pid = Some (g, s))"
  shows "session_ok X t A s sa"
  unfolding session_ok_def using assms by blast

lemma session_ok_object: "session_ok X t A s sa \<Longrightarrow> \<exists>se. sessions t sa = Some se"
  unfolding session_ok_def by blast

lemma session_okD:
  assumes "session_ok X t A s sa" "sessions t sa = Some se"
  shows "sa < next_ref t" "s_sid se = s" "btm_wf (s_groups se)"
    "map_of (s_groups se) g = (if \<exists>pid. A pid = Some (g, s) then map_of (group_table t) g else None)"
    "s_leader se = Some l \<Longrightarrow> \<exists>g. A l = Some (g, s)" "s \<in> X \<or> (\<exists>pid g. A pid = Some (g, s))"
  using assms unfolding session_ok_def by auto

lemma map_of_nonempty: "m \<noteq> [] \<Longrightarrow> \<exists>k. map_of m k \<noteq> None"
  by (cases m) (auto intro!: exI)

section \<open>Following references\<close>

lemma session_aliveI: "btm_wf (session_table t) \<Longrightarrow> map_of (session_table t) s = Some sa \<Longrightarrow> session_alive t sa"
  by (auto simp: session_alive_def btm_values_def image_iff dest!: map_of_SomeD intro!: bexI)

lemma group_aliveI: "btm_wf (group_table t) \<Longrightarrow> map_of (group_table t) g = Some ga \<Longrightarrow> group_alive t ga"
  by (auto simp: group_alive_def btm_values_def image_iff dest!: map_of_SomeD intro!: bexI)

lemma consistent_member:
  assumes "consistent_but X t A" "A pid = Some (g, s)"
  obtains p ga gr sa se where "map_of (procs t) pid = Some p" "p_group p = Some ga"
    "map_of (group_table t) g = Some ga" "groups t ga = Some gr" "g_pgid gr = g" "g_session gr = Some sa"
    "map_of (session_table t) s = Some sa" "sessions t sa = Some se" "s_sid se = s"
    "map_of (s_groups se) g = Some ga" "process_group t pid = Some (ga, gr)" "session_of t pid = Some (sa, se)"
proof -
  obtain p where p: "map_of (procs t) pid = Some p" "proc_ok t A pid p"
    using assms unfolding consistent_but_def by blast
  then obtain ga where ga: "p_group p = Some ga" "map_of (group_table t) g = Some ga"
    using assms(2) by (cases "p_group p") (auto simp: proc_ok_def)
  then have "group_ok t A g ga" using assms(1) by (auto simp: consistent_but_def)
  then obtain gr sa where gr: "groups t ga = Some gr" "g_pgid gr = g" "g_session gr = Some sa"
    "map_of (session_table t) s = Some sa"
    using assms(2) group_ok_object group_okD by (metis)
  then have "session_ok X t A s sa" using assms(1) by (auto simp: consistent_but_def)
  then obtain se where se': "sessions t sa = Some se" "s_sid se = s"
    "\<forall>g. map_of (s_groups se) g = (if \<exists>pid. A pid = Some (g, s) then map_of (group_table t) g else None)"
    unfolding session_ok_def by blast
  then have se: "sessions t sa = Some se" "s_sid se = s" "map_of (s_groups se) g = Some ga"
    using assms(2) ga(2) by auto
  have wf: "btm_wf (group_table t)" "btm_wf (session_table t)" using assms(1) by (auto simp: consistent_but_def)
  have pg: "process_group t pid = Some (ga, gr)"
    using p(1) ga gr(1) group_aliveI [OF wf(1) ga(2)] by (simp add: process_group_def get_process_def upgrade_group_def)
  have "session_of t pid = Some (sa, se)"
    using pg gr(3) se(1) session_aliveI [OF wf(2) gr(4)] by (simp add: session_of_def upgrade_session_def)
  then show ?thesis using that p(1) ga gr se pg by blast
qed

lemma group_table_inj:
  assumes "consistent_but X t A" "map_of (group_table t) g = Some ga" "map_of (group_table t) g' = Some ga"
  shows "g = g'"
proof -
  have a: "group_ok t A g ga" and b: "group_ok t A g' ga" using assms by (simp_all add: consistent_but_def)
  obtain gr pid s where p: "groups t ga = Some gr" "A pid = Some (g, s)" by (rule group_ok_object [OF a])
  obtain gr' pid' s' where q: "groups t ga = Some gr'" "A pid' = Some (g', s')" by (rule group_ok_object [OF b])
  show ?thesis using group_okD(2) [OF a p] group_okD(2) [OF b q] p(1) q(1) by simp
qed

lemma session_table_inj:
  assumes "consistent_but X t A" "map_of (session_table t) s = Some sa" "map_of (session_table t) s' = Some sa"
  shows "s = s'"
proof -
  have a: "session_ok X t A s sa" and b: "session_ok X t A s' sa" using assms by (simp_all add: consistent_but_def)
  obtain se where se: "sessions t sa = Some se" using session_ok_object [OF a] by (rule exE)
  show ?thesis using session_okD(2) [OF a se] session_okD(2) [OF b se] by simp
qed

section \<open>What an update leaves alone\<close>

lemma group_ok_frame:
  assumes "group_ok t A g ga" "groups t' ga = groups t ga" "next_ref t \<le> next_ref t'"
    "\<And>pid s. A' pid = Some (g, s) \<longleftrightarrow> A pid = Some (g, s)"
    "\<And>pid s sa. A pid = Some (g, s) \<Longrightarrow> map_of (session_table t) s = Some sa \<Longrightarrow> map_of (session_table t') s = Some sa"
  shows "group_ok t' A' g ga"
proof -
  have i: "in_group A' pid g = in_group A pid g" for pid using assms(4) by (simp add: in_group_def)
  obtain gr pid s where p: "groups t ga = Some gr" "A pid = Some (g, s)" by (rule group_ok_object [OF assms(1)])
  note d = group_okD [OF assms(1) p]
  obtain sa where sa: "g_session gr = Some sa" "map_of (session_table t) s = Some sa" using d(6) by blast
  show ?thesis
  proof (rule group_okI [of _ _ gr _ _ s pid sa])
    show "map_of (g_processes gr) q \<noteq> None \<longleftrightarrow> in_group A' q g" for q using d(4) unfolding i .
    show "A' q = Some (g, s') \<Longrightarrow> s' = s" for q s' unfolding assms(4) by (rule d(5))
    show "g_leader gr = Some l \<Longrightarrow> A' l = Some (g, s)" for l unfolding assms(4) by (rule d(7))
    show "ga < next_ref t'" using d(1) assms(3) by simp
    show "map_of (session_table t') s = Some sa" by (rule assms(5) [OF p(2) sa(2)])
  qed (use d(2,3) p sa(1) assms(2,4) in simp_all)
qed

lemma session_ok_frame:
  assumes "session_ok X t A s sa" "sessions t' sa = sessions t sa" "next_ref t \<le> next_ref t'" "X \<subseteq> X'"
    "\<And>pid g. A' pid = Some (g, s) \<longleftrightarrow> A pid = Some (g, s)"
    "\<And>pid g. A pid = Some (g, s) \<Longrightarrow> map_of (group_table t') g = map_of (group_table t) g"
  shows "session_ok X' t' A' s sa"
proof -
  obtain se where se: "sessions t sa = Some se" using session_ok_object [OF assms(1)] by blast
  note d = session_okD [OF assms(1) se]
  have m: "map_of (s_groups se) g = (if \<exists>pid. A' pid = Some (g, s) then map_of (group_table t') g else None)" for g
    using d(4) [of g] assms(5,6) by auto
  have l: "s_leader se = Some l \<Longrightarrow> \<exists>g. A' l = Some (g, s)" for l using d(5) [of l] assms(5) by auto
  show ?thesis
    by (rule session_okI [of _ _ se, OF _ _ _ _ m l]) (use d(1-3,6) se assms(2,3,4) assms(5) in \<open>auto simp del: split_paired_Ex\<close>)
qed

lemma proc_ok_frame:
  assumes "proc_ok t A pid p" "A' pid = A pid" "\<And>g s. A pid = Some (g, s) \<Longrightarrow> map_of (group_table t') g = map_of (group_table t) g"
  shows "proc_ok t' A' pid p"
  using assms by (auto simp: proc_ok_def split: option.splits)

lemma map_of_upd_process [simp]:
  "btm_wf (procs t) \<Longrightarrow> map_of (procs (upd_process pid f t)) q =
     (if q = pid then map_option f (map_of (procs t) pid) else map_of (procs t) q)"
  by (auto simp: upd_process_def map_of_btm_insert split: option.splits)

lemma upd_process_simps [simp]:
  "groups (upd_process pid f t) = groups t" "group_table (upd_process pid f t) = group_table t"
  "sessions (upd_process pid f t) = sessions t" "session_table (upd_process pid f t) = session_table t"
  "next_ref (upd_process pid f t) = next_ref t" "btm_wf (procs t) \<Longrightarrow> btm_wf (procs (upd_process pid f t))"
  by (auto simp: upd_process_def btm_simps split: option.splits)

lemma upd_object_simps [simp]:
  "groups (upd_group a f t) = (groups t)(a := map_option f (groups t a))" "group_table (upd_group a f t) = group_table t"
  "sessions (upd_group a f t) = sessions t" "session_table (upd_group a f t) = session_table t"
  "next_ref (upd_group a f t) = next_ref t" "procs (upd_group a f t) = procs t"
  "sessions (upd_session a h t) = (sessions t)(a := map_option h (sessions t a))" "group_table (upd_session a h t) = group_table t"
  "groups (upd_session a h t) = groups t" "session_table (upd_session a h t) = session_table t"
  "next_ref (upd_session a h t) = next_ref t" "procs (upd_session a h t) = procs t"
  by (simp_all add: upd_group_def upd_session_def)

text \<open>A group that loses a member that is not its last.\<close>

lemma group_ok_lose:
  assumes "group_ok t A g ga" "groups t ga = Some gr" "A pid = Some (g, s)" "A q = Some (g, s')" "q \<noteq> pid"
    "groups t' ga = Some (group_remove_process pid gr)" "next_ref t' = next_ref t"
    "session_table t' = session_table t"
  shows "group_ok t' (A(pid := None)) g ga" "g_processes (group_remove_process pid gr) \<noteq> []"
proof -
  note d = group_okD [OF assms(1-3)]
  obtain sa where sa: "g_session gr = Some sa" "map_of (session_table t) s = Some sa" using d(6) by blast
  have r: "group_remove_process pid gr = gr\<lparr>g_processes := btm_remove pid (g_processes gr),
      g_leader := (if g_leader gr = Some pid then None else g_leader gr)\<rparr>"
    using d(4) [of pid] assms(3) by (auto simp: group_remove_process_def in_group_def)
  have q: "map_of (btm_remove pid (g_processes gr)) q \<noteq> None" using d(4) [of q] assms(4,5) by (auto simp: btm_simps in_group_def)
  then show "g_processes (group_remove_process pid gr) \<noteq> []" unfolding r by auto
  have m: "(map_of (btm_remove pid (g_processes gr)) x \<noteq> None) = in_group (A(pid := None)) x g" for x
    using d(4) [of x] by (auto simp: btm_simps in_group_def)
  have s: "s' = s" by (rule d(5) [OF assms(4)])
  show "group_ok t' (A(pid := None)) g ga"
  proof (rule group_okI [of _ _ "group_remove_process pid gr" _ _ s q sa])
    show "(A(pid := None)) l = Some (g, s)" if "g_leader (group_remove_process pid gr) = Some l" for l
      using that d(7) [of l] by (auto simp: r split: if_splits)
    show "s'' = s" if "(A(pid := None)) x = Some (g, s'')" for x s'' using that d(5) by (auto split: if_splits)
  qed (use d(1-3) m s sa assms(4-8) in \<open>auto simp: r btm_simps\<close>)
qed

section \<open>Leaving a group\<close>

lemma consistent_butI:
  assumes "btm_wf (procs t)" "btm_wf (group_table t)" "btm_wf (session_table t)"
    "\<And>pid p. map_of (procs t) pid = Some p \<Longrightarrow> proc_ok t A pid p"
    "\<And>pid. A pid \<noteq> None \<Longrightarrow> map_of (procs t) pid \<noteq> None"
    "\<And>g ga. map_of (group_table t) g = Some ga \<Longrightarrow> group_ok t A g ga"
    "\<And>s sa. map_of (session_table t) s = Some sa \<Longrightarrow> session_ok X t A s sa"
  shows "consistent_but X t A"
  using assms unfolding consistent_but_def by blast

lemma consistent_butD:
  assumes "consistent_but X t A"
  shows "btm_wf (procs t)" "btm_wf (group_table t)" "btm_wf (session_table t)"
    "map_of (procs t) pid = Some p \<Longrightarrow> proc_ok t A pid p"
    "A pid \<noteq> None \<Longrightarrow> map_of (procs t) pid \<noteq> None"
    "map_of (group_table t) g = Some ga \<Longrightarrow> group_ok t A g ga"
    "map_of (session_table t) s = Some sa \<Longrightarrow> session_ok X t A s sa"
  using assms unfolding consistent_but_def by blast+

lemma proc_ok_same_group:
  assumes "consistent_but X t A" "map_of (procs t') x = Some p"
    "map_option p_group (map_of (procs t') x) = map_option p_group (map_of (procs t) x)"
    "A' x = A x" "\<And>g s. A x = Some (g, s) \<Longrightarrow> map_of (group_table t') g = map_of (group_table t) g"
  shows "proc_ok t' A' x p"
proof -
  obtain p' where p': "map_of (procs t) x = Some p'" "p_group p = p_group p'"
    using assms(2,3) by (cases "map_of (procs t) x") auto
  have "proc_ok t A x p = proc_ok t A x p'" unfolding proc_ok_def p'(2) ..
  then have ok: "proc_ok t A x p" using consistent_butD(4) [OF assms(1) p'(1)] by (rule iffD2)
  show ?thesis by (rule proc_ok_frame [OF ok]) (use assms(4,5) in auto)
qed

definition not_session_leader :: "proc_tables \<Rightarrow> nat \<Rightarrow> bool" where
  "not_session_leader t pid \<longleftrightarrow> (\<forall>sa se. sessions t sa = Some se \<longrightarrow> session_alive t sa \<longrightarrow> s_leader se \<noteq> Some pid)"

lemma session_ok_lose:
  assumes "session_ok X t A s sa" "sessions t sa = Some se" "A pid = Some (g, s)"
    "\<And>l. s_leader se' = Some l \<Longrightarrow> s_leader se = Some l \<and> l \<noteq> pid"
    "sessions t' sa = Some se'" "s_sid se' = s_sid se" "True" "btm_wf (s_groups se')"
    "next_ref t' = next_ref t"
    "\<And>h. h \<noteq> g \<Longrightarrow> map_of (s_groups se') h = map_of (s_groups se) h"
    "\<And>h. h \<noteq> g \<Longrightarrow> map_of (group_table t') h = map_of (group_table t) h"
    "map_of (s_groups se') g = (if \<exists>q. q \<noteq> pid \<and> A q = Some (g, s) then map_of (group_table t') g else None)"
    "s \<in> X' \<or> (\<exists>q h. q \<noteq> pid \<and> A q = Some (h, s))"
  shows "session_ok X' t' (A(pid := None)) s sa"
proof -
  note d = session_okD [OF assms(1,2)]
  have g: "(\<exists>q. (A(pid := None)) q = Some (h, s)) \<longleftrightarrow> (\<exists>q. q \<noteq> pid \<and> A q = Some (h, s))" for h by auto
  have o: "(\<exists>q. q \<noteq> pid \<and> A q = Some (h, s)) \<longleftrightarrow> (\<exists>q. A q = Some (h, s))" if "h \<noteq> g" for h
    using assms(3) that by (metis option.inject prod.inject)
  show ?thesis
  proof (rule session_okI [of _ _ se'])
    show "map_of (s_groups se') h = (if \<exists>q. (A(pid := None)) q = Some (h, s) then map_of (group_table t') h else None)" for h
      unfolding g
    proof (cases "h = g")
      case True
      show "map_of (s_groups se') h = (if \<exists>q. q \<noteq> pid \<and> A q = Some (h, s) then map_of (group_table t') h else None)"
        unfolding True by (rule assms(12))
    next
      case False
      then show "map_of (s_groups se') h = (if \<exists>q. q \<noteq> pid \<and> A q = Some (h, s) then map_of (group_table t') h else None)"
        using assms(10,11) o d(4) [of h] by simp
    qed
    show "\<exists>h. (A(pid := None)) l = Some (h, s)" if "s_leader se' = Some l" for l
      using assms(4) [OF that] d(5) [of l] by auto
    show "s \<in> X' \<or> (\<exists>q h. (A(pid := None)) q = Some (h, s))" using assms(13) by auto
  qed (use d(1-3) assms(5,6,8,9) in simp_all)
qed

lemma leave_keep:
  assumes c: "consistent_but X t A" and m: "A pid = Some (g, s)" "A q = Some (g, s')" "q \<noteq> pid"
    and o: "map_of (group_table t) g = Some ga" "groups t ga = Some gr" "map_of (session_table t) s = Some sa" "sessions t sa = Some se"
    and nl: "\<And>l. s_leader se' = Some l \<Longrightarrow> s_leader se = Some l \<and> l \<noteq> pid"
    and se': "s_sid se' = s_sid se" "s_groups se' = s_groups se"
    and t': "btm_wf (procs t')" "\<And>q. q \<noteq> pid \<Longrightarrow> map_option p_group (map_of (procs t') q) = map_option p_group (map_of (procs t) q)"
      "\<And>p. map_of (procs t') pid = Some p \<Longrightarrow> p_group p = None"
      "group_table t' = group_table t" "groups t' = (groups t)(ga \<mapsto> group_remove_process pid gr)"
      "sessions t' = (sessions t)(sa \<mapsto> se')" "session_table t' = session_table t" "next_ref t' = next_ref t"
  shows "consistent_but X t' (A(pid := None))"
proof -
  note w = consistent_butD [OF c]
  have ok: "group_ok t A g ga" by (rule w(6) [OF o(1)])
  have s: "s' = s" by (rule group_okD(5) [OF ok o(2) m(1) m(2)])
  show ?thesis
  proof (rule consistent_butI)
    show "proc_ok t' (A(pid := None)) x p" if p: "map_of (procs t') x = Some p" for x p
    proof (cases "x = pid")
      case True
      then show ?thesis using p t'(3) by (auto simp: proc_ok_def)
    next
      case False
      show ?thesis by (rule proc_ok_same_group [OF c p t'(2) [OF False]]) (simp_all add: False t'(4))
    qed
    show "map_of (procs t') x \<noteq> None" if "(A(pid := None)) x \<noteq> None" for x
    proof -
      have x: "x \<noteq> pid" "A x \<noteq> None" using that by (auto split: if_splits)
      show ?thesis using t'(2) [OF x(1)] w(5) [OF x(2)] by (cases "map_of (procs t') x") auto
    qed
    show "group_ok t' (A(pid := None)) h a" if h: "map_of (group_table t') h = Some a" for h a
    proof (cases "h = g")
      case True
      have "group_ok t' (A(pid := None)) g ga"
        by (rule group_ok_lose(1) [OF ok o(2) m]) (simp_all add: t')
      then show ?thesis using True h o(1) by (simp add: t'(4))
    next
      case False
      have h': "map_of (group_table t) h = Some a" using h by (simp add: t'(4))
      have "a \<noteq> ga" using group_table_inj [OF c h'] o(1) False by auto
      then show ?thesis using m(1) False
        by (intro group_ok_frame [OF w(6) [OF h']]) (auto simp: t'(5,7,8))
    qed
    show "session_ok X t' (A(pid := None)) x b" if h: "map_of (session_table t') x = Some b" for x b
    proof (cases "x = s")
      case True
      have b: "b = sa" using h True o(3) by (simp add: t'(7))
      note sd = session_okD [OF w(7) [OF o(3)] o(4)]
      have ex: "\<exists>q. q \<noteq> pid \<and> A q = Some (g, s)" "\<exists>q h. q \<noteq> pid \<and> A q = Some (h, s)" using m s by blast+
      show ?thesis unfolding True b
        by (rule session_ok_lose [OF w(7) [OF o(3)] o(4) m(1) nl, of se' t'])
          (use sd(3) sd(4) [of g] m(1) ex in \<open>auto simp: t'(4,6,8) se'\<close>)
    next
      case False
      have h': "map_of (session_table t) x = Some b" using h by (simp add: t'(7))
      have b: "b \<noteq> sa" using session_table_inj [OF c h'] o(3) False by auto
      have a: "(A(pid := None)) q = Some (h, x) \<longleftrightarrow> A q = Some (h, x)" for q h using m(1) False by auto
      show ?thesis by (rule session_ok_frame [OF w(7) [OF h'] _ _ _ a]) (simp_all add: t'(4,6,8) b)
    qed
  qed (use w(2,3) t'(1) in \<open>auto simp: t'(4,7)\<close>)
qed

text \<open>The last member leaves: the group goes, and its session drops it.\<close>

lemma leave_drop:
  assumes c: "consistent_but X t A" and m: "A pid = Some (g, s)" "\<And>q s'. A q = Some (g, s') \<Longrightarrow> q = pid"
    and o: "map_of (group_table t) g = Some ga" "map_of (session_table t) s = Some sa" "sessions t sa = Some se"
    and nl: "\<And>l. s_leader se' = Some l \<Longrightarrow> s_leader se = Some l \<and> l \<noteq> pid"
    and se': "s_sid se' = s_sid se" "s_groups se' = btm_remove g (s_groups se)"
    and t': "btm_wf (procs t')" "\<And>q. q \<noteq> pid \<Longrightarrow> map_option p_group (map_of (procs t') q) = map_option p_group (map_of (procs t) q)"
      "\<And>p. map_of (procs t') pid = Some p \<Longrightarrow> p_group p = None"
      "group_table t' = btm_remove g (group_table t)" "\<And>a. a \<noteq> ga \<Longrightarrow> groups t' a = groups t a"
      "\<And>a. a \<noteq> sa \<Longrightarrow> sessions t' a = sessions t a"
      "sessions t' sa = Some se'" "next_ref t' = next_ref t"
      "session_table t' = (if dr then btm_remove s (session_table t) else session_table t)"
    and dr: "dr = (d \<and> btm_remove g (s_groups se) = [])"
  shows "consistent_but (if d then X else X \<union> {s}) t' (A(pid := None))"
proof -
  note w = consistent_butD [OF c]
  have sok: "session_ok X t A s sa" by (rule w(7) [OF o(2)])
  note sd = session_okD [OF sok o(3)]
  have ns: "\<exists>q h. q \<noteq> pid \<and> A q = Some (h, s)" if ne: "btm_remove g (s_groups se) \<noteq> []"
  proof -
    obtain h a xs where "btm_remove g (s_groups se) = (h, a) # xs" using ne by (cases "btm_remove g (s_groups se)") auto
    then have "map_of (btm_remove g (s_groups se)) h = Some a" by simp
    then have "h \<noteq> g" "\<exists>q. A q = Some (h, s)" using sd(4) [of h] by (auto simp: btm_simps split: if_splits)
    then show ?thesis using m(1) by (metis option.inject prod.inject)
  qed
  have other: "x = g" if x: "A q = Some (x, s)" and e: "btm_remove g (s_groups se) = []" for q x
  proof (rule ccontr)
    assume "x \<noteq> g"
    moreover obtain a where "map_of (group_table t) x = Some a" using consistent_member [OF c x] by blast
    ultimately have "map_of (btm_remove g (s_groups se)) x = Some a" using sd(4) [of x] x by (auto simp: btm_simps)
    then show False using e by simp
  qed
  show ?thesis
  proof (rule consistent_butI)
    show "proc_ok t' (A(pid := None)) x p" if p: "map_of (procs t') x = Some p" for x p
    proof (cases "x = pid")
      case True
      then show ?thesis using p t'(3) by (auto simp: proc_ok_def)
    next
      case False
      show ?thesis by (rule proc_ok_same_group [OF c p t'(2) [OF False]])
          (use False m(2) in \<open>auto simp: t'(4) btm_simps\<close>)
    qed
    show "map_of (procs t') x \<noteq> None" if "(A(pid := None)) x \<noteq> None" for x
    proof -
      have x: "x \<noteq> pid" "A x \<noteq> None" using that by (auto split: if_splits)
      show ?thesis using t'(2) [OF x(1)] w(5) [OF x(2)] by (cases "map_of (procs t') x") auto
    qed
    show "group_ok t' (A(pid := None)) h a" if h: "map_of (group_table t') h = Some a" for h a
    proof -
      have h': "map_of (group_table t) h = Some a" "h \<noteq> g" using h by (auto simp: t'(4) btm_simps split: if_splits)
      have a: "a \<noteq> ga" using group_table_inj [OF c h'(1)] o(1) h'(2) by auto
      have "map_of (session_table t') x = Some b" if "A q = Some (h, x)" "map_of (session_table t) x = Some b" for q x b
        using that h'(2) other [of q h] by (auto simp: t'(9) dr btm_simps)
      then show ?thesis using m(1) h'(2) by (intro group_ok_frame [OF w(6) [OF h'(1)]]) (auto simp: t'(5) [OF a] t'(8))
    qed
    show "session_ok (if d then X else X \<union> {s}) t' (A(pid := None)) x b" if h: "map_of (session_table t') x = Some b" for x b
    proof (cases "x = s")
      case True
      have b: "\<not> dr" "b = sa" using h True o(2) by (auto simp: t'(9) btm_simps split: if_splits)
      have "s \<in> (if d then X else X \<union> {s}) \<or> (\<exists>q h. q \<noteq> pid \<and> A q = Some (h, s))" using b(1) ns dr by auto
      moreover have "btm_wf (btm_remove g (s_groups se))" using sd(3) by (rule btm_wf_remove)
      moreover have "\<not> (\<exists>q. q \<noteq> pid \<and> A q = Some (g, s))" using m(2) by blast
      ultimately show ?thesis unfolding True b(2)
        by (intro session_ok_lose [OF sok o(3) m(1) nl t'(7)]) (simp_all add: t'(4,8) se' btm_simps)
    next
      case False
      have h': "map_of (session_table t) x = Some b" using h False by (auto simp: t'(9) btm_simps split: if_splits)
      have b: "b \<noteq> sa" using session_table_inj [OF c h'] o(2) False by auto
      have "h \<noteq> g" if "A q = Some (h, x)" for q h using that m False by auto
      then show ?thesis using m(1) False
        by (intro session_ok_frame [OF w(7) [OF h']]) (auto simp: t'(4,8) t'(6) [OF b] btm_simps)
    qed
  qed (use w(2,3) t'(1) in \<open>auto simp: t'(4,9) btm_simps\<close>)
qed

text \<open>The block of the code does what the two cases say.\<close>

definition left_state :: "bool \<Rightarrow> nat \<Rightarrow> nat \<Rightarrow> proc_tables \<Rightarrow> membership \<Rightarrow> proc_tables \<Rightarrow> bool" where
  "left_state d pid s t A t1 \<longleftrightarrow> consistent_but (if d then {} else {s}) t1 (A(pid := None)) \<and> next_ref t1 = next_ref t \<and>
     (\<forall>q. map_of (procs t1) q = None \<longleftrightarrow> map_of (procs t) q = None) \<and>
     (\<forall>q p. map_of (procs t1) q = Some p \<longrightarrow>
        (\<exists>p'. map_of (procs t) q = Some p' \<and> p_parent p = p_parent p' \<and> p_children p = p_children p' \<and> p_status p = p_status p')) \<and>
     (\<forall>g. map_of (group_table t) g = None \<longrightarrow> map_of (group_table t1) g = None) \<and>
     (\<forall>x. map_of (session_table t) x = None \<longrightarrow> map_of (session_table t1) x = None) \<and>
     (\<not> d \<longrightarrow> session_table t1 = session_table t) \<and>
     (\<forall>a se. sessions t1 a = Some se \<longrightarrow> (\<exists>se'. sessions t a = Some se' \<and> s_leader se = s_leader se'))"

lemma leave_group_consistent:
  assumes c: "consistent_but {} t A" and m: "A pid = Some (g, s)" and nl: "not_session_leader t pid"
    and sa: "session_of t pid = Some (sa, se)"
  shows "\<exists>t1. leave_group d pid sa t = Ok t1 \<and> left_state d pid s t A t1"
proof -
  note w = consistent_butD [OF c]
  obtain p ga gr sa' se' where o': "map_of (procs t) pid = Some p" "p_group p = Some ga"
    "map_of (group_table t) g = Some ga" "groups t ga = Some gr" "g_pgid gr = g" "g_session gr = Some sa'"
    "map_of (session_table t) s = Some sa'" "sessions t sa' = Some se'" "s_sid se' = s"
    "map_of (s_groups se') g = Some ga" and pg: "process_group t pid = Some (ga, gr)" and so: "session_of t pid = Some (sa', se')"
    by (rule consistent_member [OF c m])
  have e: "sa' = sa" "se' = se" using sa so by simp_all
  note o = o'(1,3,4,5) o'(7-10) [unfolded e]
  let ?g' = "group_remove_process pid gr"
  let ?t1 = "upd_process pid (\<lambda>p. p\<lparr>p_group := None\<rparr>) (upd_group ga (\<lambda>_. ?g') t)"
  note gd = group_okD [OF w(6) [OF o(2)] o(3) m]
  have pr: "?g' = gr\<lparr>g_processes := btm_remove pid (g_processes gr), g_leader := (if g_leader gr = Some pid then None else g_leader gr)\<rparr>"
    using gd(4) [of pid] m by (auto simp: group_remove_process_def in_group_def)
  have nlse: "s_leader se \<noteq> Some pid" using nl o(6) session_aliveI [OF w(3) o(5)] by (auto simp: not_session_leader_def)
  show ?thesis
  proof (cases "g_processes ?g' = []")
    case False
    then have lg: "leave_group d pid sa t = Ok ?t1" by (simp add: leave_group_def pg Let_def)
    obtain q where "map_of (btm_remove pid (g_processes gr)) q \<noteq> None"
      using False map_of_nonempty [of "btm_remove pid (g_processes gr)"] unfolding pr by auto
    then obtain s' where q: "q \<noteq> pid" "A q = Some (g, s')"
      using gd(4) [of q] by (auto simp: btm_simps in_group_def split: if_splits)
    have "consistent_but {} ?t1 (A(pid := None))"
      by (rule leave_keep [OF c m q(2,1) o(2,3,5,6), of se]) (use nlse w(1) o(6) in \<open>auto simp: o(3)\<close>)
    then have "consistent_but (if d then {} else {s}) ?t1 (A(pid := None))"
      by (auto simp: consistent_but_def session_ok_def)
    then have "left_state d pid s t A ?t1" using w(1) by (auto simp: left_state_def split: if_splits)
    then show ?thesis using lg by blast
  next
    case True
    have only: "q = pid" if "A q = Some (g, s')" for q s'
    proof (rule ccontr)
      assume "q \<noteq> pid"
      moreover have "map_of (g_processes gr) q \<noteq> None" using gd(4) [of q] that by (simp add: in_group_def)
      ultimately have "map_of (btm_remove pid (g_processes gr)) q \<noteq> None" by (simp add: map_of_btm_remove)
      then show False using True unfolding pr by simp
    qed
    let ?se' = "session_remove_group g se"
    let ?t2 = "upd_session sa (\<lambda>_. ?se') (?t1\<lparr>group_table := btm_remove g (group_table t)\<rparr>)"
    let ?t3 = "if d \<and> s_groups ?se' = [] then ?t2\<lparr>session_table := btm_remove s (session_table t)\<rparr> else ?t2"
    have lg: "leave_group d pid sa t = Ok ?t3" using True o by (simp add: leave_group_def pg Let_def)
    have "consistent_but (if d then {} else {} \<union> {s}) ?t3 (A(pid := None))"
      by (rule leave_drop [OF c m only o(2,5,6), where dr = "d \<and> s_groups ?se' = []" and se' = ?se'])
        (use o w(1) nlse in \<open>auto simp: session_remove_group_def split: if_splits\<close>)
    then have "left_state d pid s t A ?t3" using w(1) o(6)
      by (auto simp: left_state_def session_remove_group_def btm_simps split: if_splits)
    then show ?thesis using lg by blast
  qed
qed

section \<open>Joining a group\<close>

lemma join_new_group:
  assumes c: "consistent_but X t A" and n: "A pid = None" "map_of (group_table t) pid = None"
    and o: "map_of (session_table t) s = Some sa" "sessions t sa = Some se" "ga = next_ref t"
    and gr: "g_pgid gr = pid" "g_processes gr = [(pid, ())]" "g_leader gr = Some pid" "g_session gr = Some sa"
    and t': "btm_wf (procs t')" "\<And>q. q \<noteq> pid \<Longrightarrow> map_of (procs t') q = map_of (procs t) q"
      "\<exists>p. map_of (procs t') pid = Some p \<and> p_group p = Some ga"
      "group_table t' = btm_insert pid ga (group_table t)" "groups t' = (groups t)(ga \<mapsto> gr)"
      "sessions t' = (sessions t)(sa \<mapsto> se\<lparr>s_groups := btm_insert pid ga (s_groups se)\<rparr>)"
      "next_ref t \<le> next_ref t'" "ga < next_ref t'" "session_table t' = session_table t"
  shows "consistent_but (X - {s}) t' (A(pid \<mapsto> (pid, s)))"
proof -
  note w = consistent_butD [OF c]
  have ng: "A q \<noteq> Some (pid, x)" for q x
  proof
    assume a: "A q = Some (pid, x)"
    obtain ga' where "map_of (group_table t) pid = Some ga'" using consistent_member [OF c a] by blast
    then show False using n(2) by simp
  qed
  have sok: "session_ok X t A s sa" by (rule w(7) [OF o(1)])
  note sd = session_okD [OF sok o(2)]
  show ?thesis
  proof (rule consistent_butI)
    show "proc_ok t' (A(pid \<mapsto> (pid, s))) x p" if "map_of (procs t') x = Some p" for x p
    proof (cases "x = pid")
      case True
      then show ?thesis using that t'(3) w(2) by (auto simp: t'(4) proc_ok_def btm_simps)
    next
      case False
      then show ?thesis using that t'(2) [of x] w(2) ng by (intro proc_ok_frame [OF w(4)]) (auto simp: t'(4) btm_simps)
    qed
    show "map_of (procs t') x \<noteq> None" if "(A(pid \<mapsto> (pid, s))) x \<noteq> None" for x
      using that t'(2) [of x] t'(3) w(5) [of x] by (cases "x = pid") auto
    show "group_ok t' (A(pid \<mapsto> (pid, s))) h a" if h: "map_of (group_table t') h = Some a" for h a
    proof (cases "h = pid")
      case True
      then have a: "a = ga" using h w(2) by (simp add: t'(4) btm_simps)
      show ?thesis unfolding True a
        by (rule group_okI [of _ _ gr _ _ s pid sa]) (use ng gr o t'(8) in \<open>auto simp: t'(5,9) in_group_def btm_wf_def split: if_splits\<close>)
    next
      case False
      then have h': "map_of (group_table t) h = Some a" using h w(2) by (simp add: t'(4) btm_simps)
      have "a \<noteq> ga" using w(6) [OF h'] o(3) by (auto simp: group_ok_def)
      then show ?thesis using False n(1) t'(7)
        by (intro group_ok_frame [OF w(6) [OF h']]) (auto simp: t'(5,9))
    qed
    show "session_ok (X - {s}) t' (A(pid \<mapsto> (pid, s))) x b" if h: "map_of (session_table t') x = Some b" for x b
    proof (cases "x = s")
      case True
      have b: "b = sa" using h True o(1) by (simp add: t'(9))
      have wf: "btm_wf (s_groups se)" by (rule sd(3))
      show ?thesis unfolding True b
      proof (rule session_okI [of _ _ "se\<lparr>s_groups := btm_insert pid ga (s_groups se)\<rparr>"])
        show "map_of (s_groups (se\<lparr>s_groups := btm_insert pid ga (s_groups se)\<rparr>)) g =
            (if \<exists>q. (A(pid \<mapsto> (pid, s))) q = Some (g, s) then map_of (group_table t') g else None)" for g
        proof (cases "g = pid")
          case False
          then have e: "(A(pid \<mapsto> (pid, s))) q = Some (g, s) \<longleftrightarrow> A q = Some (g, s)" for q using n(1) by simp
          show ?thesis unfolding e using False wf w(2) sd(4) [of g] by (simp add: t'(4) btm_simps)
        next
          case True
          then have "(A(pid \<mapsto> (pid, s))) pid = Some (g, s)" by simp
          then have ex: "\<exists>q. (A(pid \<mapsto> (pid, s))) q = Some (g, s)" by (rule exI)
          have "map_of (group_table t') g = Some ga" using True w(2) by (simp add: t'(4) map_of_btm_insert)
          moreover have "map_of (s_groups (se\<lparr>s_groups := btm_insert pid ga (s_groups se)\<rparr>)) g = Some ga"
            using True wf by (simp add: map_of_btm_insert)
          ultimately show ?thesis by (simp only: if_P [OF ex])
        qed
        show "\<exists>g. (A(pid \<mapsto> (pid, s))) l = Some (g, s)" if "s_leader (se\<lparr>s_groups := btm_insert pid ga (s_groups se)\<rparr>) = Some l" for l
          using that sd(5) [of l] by auto
      qed (use sd(1,2) wf t'(7) in \<open>auto simp: t'(6) btm_simps\<close>)
    next
      case False
      have h': "map_of (session_table t) x = Some b" using h by (simp add: t'(9))
      have b: "b \<noteq> sa" using session_table_inj [OF c h'] o(1) False by auto
      have a: "(A(pid \<mapsto> (pid, s))) q = Some (g, x) \<longleftrightarrow> A q = Some (g, x)" for q g using False n(1) by auto
      have k: "session_ok (X - {s}) t A x b" using w(7) [OF h'] False unfolding session_ok_def by simp
      have g: "map_of (group_table t') g = map_of (group_table t) g" if "A q = Some (g, x)" for q g
        using that ng w(2) by (auto simp: t'(4) btm_simps)
      show ?thesis by (rule session_ok_frame [OF k _ _ _ a g]) (use t'(7) in \<open>simp_all add: t'(6) b\<close>)
    qed
  qed (use w(2,3) t'(1) in \<open>auto simp: t'(4,9) btm_simps\<close>)
qed

lemma join_new_session:
  assumes c: "consistent_but X t A" and n: "A pid = None" "map_of (group_table t) pid = None" "map_of (session_table t) pid = None"
    and o: "ga = next_ref t" "sa = next_ref t + 1"
    and gr: "g_pgid gr = pid" "g_processes gr = [(pid, ())]" "g_leader gr = Some pid" "g_session gr = Some sa"
    and se: "s_sid se = pid" "s_groups se = [(pid, ga)]" "s_leader se = Some pid"
    and t': "btm_wf (procs t')" "\<And>q. q \<noteq> pid \<Longrightarrow> map_of (procs t') q = map_of (procs t) q"
      "\<exists>p. map_of (procs t') pid = Some p \<and> p_group p = Some ga"
      "group_table t' = btm_insert pid ga (group_table t)" "groups t' = (groups t)(ga \<mapsto> gr)"
      "sessions t' = (sessions t)(sa \<mapsto> se)" "session_table t' = btm_insert pid sa (session_table t)"
      "next_ref t' = next_ref t + 2"
  shows "consistent_but X t' (A(pid \<mapsto> (pid, pid)))"
proof -
  note w = consistent_butD [OF c]
  have ng: "A q \<noteq> Some (pid, x)" "A q \<noteq> Some (x, pid)" for q x
  proof -
    show "A q \<noteq> Some (pid, x)"
    proof
      assume a: "A q = Some (pid, x)"
      obtain ga' where "map_of (group_table t) pid = Some ga'" using consistent_member [OF c a] by blast
      then show False using n(2) by simp
    qed
    show "A q \<noteq> Some (x, pid)"
    proof
      assume a: "A q = Some (x, pid)"
      obtain sa' where "map_of (session_table t) pid = Some sa'" using consistent_member [OF c a] by blast
      then show False using n(3) by simp
    qed
  qed
  show ?thesis
  proof (rule consistent_butI)
    show "proc_ok t' (A(pid \<mapsto> (pid, pid))) x p" if "map_of (procs t') x = Some p" for x p
    proof (cases "x = pid")
      case True
      then show ?thesis using that t'(3) w(2) by (auto simp: t'(4) proc_ok_def btm_simps)
    next
      case False
      then show ?thesis using that t'(2) [of x] w(2) ng by (intro proc_ok_frame [OF w(4)]) (auto simp: t'(4) btm_simps)
    qed
    show "map_of (procs t') x \<noteq> None" if "(A(pid \<mapsto> (pid, pid))) x \<noteq> None" for x
      using that t'(2) [of x] t'(3) w(5) [of x] by (cases "x = pid") auto
    show "group_ok t' (A(pid \<mapsto> (pid, pid))) h a" if h: "map_of (group_table t') h = Some a" for h a
    proof (cases "h = pid")
      case True
      then have a: "a = ga" using h w(2) by (simp add: t'(4) btm_simps)
      show ?thesis unfolding True a
        by (rule group_okI [of _ _ gr _ _ pid pid sa])
          (use ng gr o w(3) in \<open>auto simp: t'(5,7,8) in_group_def btm_wf_def [of "[_]"] btm_simps split: if_splits\<close>)
    next
      case False
      then have h': "map_of (group_table t) h = Some a" using h w(2) by (simp add: t'(4) btm_simps)
      have "a \<noteq> ga" using w(6) [OF h'] o(1) by (auto simp: group_ok_def)
      then show ?thesis using False n(1) w(3) ng
        by (intro group_ok_frame [OF w(6) [OF h']]) (auto simp: t'(5,7,8) btm_simps)
    qed
    show "session_ok X t' (A(pid \<mapsto> (pid, pid))) x b" if h: "map_of (session_table t') x = Some b" for x b
    proof (cases "x = pid")
      case True
      have b: "b = sa" using h True w(3) by (simp add: t'(7) btm_simps)
      show ?thesis unfolding True b
      proof (rule session_okI [of _ _ se])
        show "map_of (s_groups se) g = (if \<exists>q. (A(pid \<mapsto> (pid, pid))) q = Some (g, pid) then map_of (group_table t') g else None)" for g
        proof -
          have "(A(pid \<mapsto> (pid, pid))) q = Some (g, pid) \<longleftrightarrow> q = pid \<and> g = pid" for q using ng(2) [of q g] by auto
          then show ?thesis using w(2) by (simp add: se(2) t'(4) btm_simps)
        qed
      qed (use se o in \<open>auto simp: t'(6,8) btm_wf_def\<close>)
    next
      case False
      have h': "map_of (session_table t) x = Some b" using h False w(3) by (simp add: t'(7) btm_simps)
      have b: "b \<noteq> sa" using w(7) [OF h'] o(2) by (auto simp: session_ok_def)
      have a: "(A(pid \<mapsto> (pid, pid))) q = Some (g, x) \<longleftrightarrow> A q = Some (g, x)" for q g using False n(1) by auto
      have g: "map_of (group_table t') g = map_of (group_table t) g" if "A q = Some (g, x)" for q g
        using that ng w(2) by (auto simp: t'(4) btm_simps)
      show ?thesis by (rule session_ok_frame [OF w(7) [OF h'] _ _ _ a g]) (simp_all add: t'(6,8) b)
    qed
  qed (use w(2,3) t'(1) in \<open>auto simp: t'(4,7) btm_simps\<close>)
qed

lemma join_group:
  assumes c: "consistent_but X t A" and n: "A pid = None" and m: "A q = Some (g, s)"
    and o: "map_of (group_table t) g = Some ga" "groups t ga = Some gr"
    and t': "btm_wf (procs t')" "\<And>x. x \<noteq> pid \<Longrightarrow> map_option p_group (map_of (procs t') x) = map_option p_group (map_of (procs t) x)"
      "\<exists>p. map_of (procs t') pid = Some p \<and> p_group p = Some ga"
      "group_table t' = group_table t" "groups t' = (groups t)(ga \<mapsto> gr\<lparr>g_processes := btm_insert pid () (g_processes gr)\<rparr>)"
      "sessions t' = sessions t" "session_table t' = session_table t" "next_ref t' = next_ref t"
  shows "consistent_but X t' (A(pid \<mapsto> (g, s)))"
proof -
  note w = consistent_butD [OF c]
  have ok: "group_ok t A g ga" by (rule w(6) [OF o(1)])
  note d = group_okD [OF ok o(2) m]
  obtain sa where sa: "g_session gr = Some sa" "map_of (session_table t) s = Some sa" using d(6) by blast
  show ?thesis
  proof (rule consistent_butI)
    show "proc_ok t' (A(pid \<mapsto> (g, s))) x p" if p: "map_of (procs t') x = Some p" for x p
    proof (cases "x = pid")
      case True
      then show ?thesis using p t'(3) o(1) by (auto simp: t'(4) proc_ok_def)
    next
      case False
      obtain p' where p': "map_of (procs t) x = Some p'" "p_group p = p_group p'" using p t'(2) [OF False]
        by (cases "map_of (procs t) x") auto
      have "proc_ok t A x p = proc_ok t A x p'" unfolding proc_ok_def p'(2) ..
      then have ok: "proc_ok t A x p" using w(4) [OF p'(1)] by (rule iffD2)
      show ?thesis by (rule proc_ok_frame [OF ok]) (simp_all add: t'(4) False)
    qed
    show "map_of (procs t') x \<noteq> None" if a: "(A(pid \<mapsto> (g, s))) x \<noteq> None" for x
    proof (cases "x = pid")
      case False
      then have "map_of (procs t) x \<noteq> None" using a w(5) [of x] by simp
      then show ?thesis using t'(2) [OF False] by (cases "map_of (procs t') x") auto
    qed (use t'(3) in auto)
    show "group_ok t' (A(pid \<mapsto> (g, s))) h a" if h: "map_of (group_table t') h = Some a" for h a
    proof (cases "h = g")
      case True
      have a: "a = ga" using h True o(1) by (simp add: t'(4))
      show ?thesis unfolding True a
      proof (rule group_okI [of _ _ "gr\<lparr>g_processes := btm_insert pid () (g_processes gr)\<rparr>" _ _ s pid sa])
        show "(map_of (g_processes (gr\<lparr>g_processes := btm_insert pid () (g_processes gr)\<rparr>)) x \<noteq> None) =
            in_group (A(pid \<mapsto> (g, s))) x g" for x
          using d(3) d(4) [of x] by (cases "x = pid") (simp_all add: map_of_btm_insert in_group_def)
        show "s' = s" if "(A(pid \<mapsto> (g, s))) x = Some (g, s')" for x s' using that d(5) [of x s'] by (auto split: if_splits)
        show "(A(pid \<mapsto> (g, s))) l = Some (g, s)" if "g_leader (gr\<lparr>g_processes := btm_insert pid () (g_processes gr)\<rparr>) = Some l" for l
          using that d(7) [of l] by simp
      qed (use d(1-3) sa in \<open>simp_all add: t'(5,7,8) btm_wf_insert\<close>)
    next
      case False
      have h': "map_of (group_table t) h = Some a" using h by (simp add: t'(4))
      have a: "a \<noteq> ga" using group_table_inj [OF c h'] o(1) False by auto
      have i: "(A(pid \<mapsto> (g, s))) x = Some (h, y) \<longleftrightarrow> A x = Some (h, y)" for x y using False n by simp
      show ?thesis by (rule group_ok_frame [OF w(6) [OF h'] _ _ i]) (simp_all add: t'(5,7,8) a)
    qed
    show "session_ok X t' (A(pid \<mapsto> (g, s))) x b" if h: "map_of (session_table t') x = Some b" for x b
    proof -
      have h': "map_of (session_table t) x = Some b" using h by (simp add: t'(7))
      obtain se where se: "sessions t b = Some se" using session_ok_object [OF w(7) [OF h']] by (rule exE)
      note sd = session_okD [OF w(7) [OF h'] se]
      have e1: "\<exists>q. A q = Some (h, x)" if "(A(pid \<mapsto> (g, s))) y = Some (h, x)" for y h
        using that m by (cases "y = pid") auto
      have e2: "(A(pid \<mapsto> (g, s))) y = Some (h, x)" if "A y = Some (h, x)" for y h
        using that n by (cases "y = pid") auto
      have e: "(\<exists>q. (A(pid \<mapsto> (g, s))) q = Some (h, x)) \<longleftrightarrow> (\<exists>q. A q = Some (h, x))" for h
        by (rule iffI; elim exE) (erule e1, rule exI, erule e2)
      show ?thesis
      proof (rule session_okI [of _ _ se])
        show "map_of (s_groups se) h = (if \<exists>q. (A(pid \<mapsto> (g, s))) q = Some (h, x) then map_of (group_table t') h else None)" for h
          unfolding e t'(4) by (rule sd(4))
        show "\<exists>h. (A(pid \<mapsto> (g, s))) l = Some (h, x)" if "s_leader se = Some l" for l
          using sd(5) [OF that] by (elim exE) (rule exI, erule e2)
        show "x \<in> X \<or> (\<exists>q h. (A(pid \<mapsto> (g, s))) q = Some (h, x))"
          using sd(6) by (elim disjE exE) (erule disjI1, rule disjI2, intro exI, erule e2)
      qed (use sd(1-3) se in \<open>simp_all add: t'(6,8)\<close>)
    qed
  qed (use w(2,3) t'(1) in \<open>auto simp: t'(4,7)\<close>)
qed

end
