(* ===== verification/Process_Groups.thy ===== *)
theory Process_Groups
  imports Process_Table
begin

text \<open>
  The operations on the process tables implement their abstract meaning on the map from processes
  to group and session ids: \<^verbatim>\<open>setsid\<close> and \<^verbatim>\<open>setpgid\<close> update the entry of one process,
  creating a child copies the entry of its parent, reaping a child removes its entry; exit moves
  the children to the init process. One operation does not keep the tables consistent: moving the
  last process of a group to another group leaves the empty group in its session.
\<close>

section \<open>Operations on groups\<close>

lemma consistentD: "consistent t A \<Longrightarrow> consistent_but {} t A"
  by (simp add: consistent_def)

lemma consistent_not_leader:
  assumes c: "consistent_but {} t A" and m: "A pid = Some (g, s)" and l: "is_session_leader t pid = Some False"
  shows "not_session_leader t pid"
  unfolding not_session_leader_def
proof (intro allI impI notI)
  fix sa se assume se: "sessions t sa = Some se" and al: "session_alive t sa" and ld: "s_leader se = Some pid"
  note w = consistent_butD [OF c]
  obtain x where x: "map_of (session_table t) x = Some sa"
    using al w(3) by (auto simp: session_alive_def btm_values_def btm_mem_iff)
  obtain h where "A pid = Some (h, x)" using session_okD(5) [OF w(7) [OF x] se ld] by blast
  then have "x = s" using m by simp
  obtain sa' se' where o: "map_of (session_table t) s = Some sa'" "sessions t sa' = Some se'" "session_of t pid = Some (sa', se')"
    using consistent_member [OF c m] by blast
  then have "s_leader se' = Some pid" using \<open>x = s\<close> x se ld by simp
  then show False using l o(3) by (simp add: is_session_leader_def)
qed

lemma left_stateD:
  assumes "left_state d pid s t A t1"
  shows "consistent_but (if d then {} else {s}) t1 (A(pid := None))" "next_ref t1 = next_ref t"
    "map_of (procs t1) q = None \<longleftrightarrow> map_of (procs t) q = None"
    "map_of (group_table t) g = None \<Longrightarrow> map_of (group_table t1) g = None"
    "map_of (session_table t) x = None \<Longrightarrow> map_of (session_table t1) x = None"
    "\<not> d \<Longrightarrow> session_table t1 = session_table t"
    "sessions t1 a = Some se \<Longrightarrow> \<exists>se'. sessions t a = Some se' \<and> s_leader se = s_leader se'"
  using assms unfolding left_state_def by blast+

lemma session_remove_process_idle:
  assumes "\<And>se. sessions t a = Some se \<Longrightarrow> s_leader se \<noteq> Some pid"
  shows "upd_session a (session_remove_process pid) t = t"
  using assms by (cases "sessions t a") (auto simp: upd_session_def session_remove_process_def fun_upd_idem)

lemma to_new_session_consistent:
  assumes c: "consistent t A" and m: "A pid = Some (g, s)" and l: "is_session_leader t pid = Some False"
    and e: "\<not> is_group_leader t pid" "map_of (session_table t) pid = None" "map_of (group_table t) pid = None"
  shows "\<exists>t'. to_new_session pid t = (Ok pid, t') \<and> consistent t' (A(pid \<mapsto> (pid, pid)))"
proof -
  note cb = consistentD [OF c]
  obtain sa se where so: "session_of t pid = Some (sa, se)" "map_of (session_table t) s = Some sa" "sessions t sa = Some se"
    using consistent_member [OF cb m] by blast
  have nl: "not_session_leader t pid" by (rule consistent_not_leader [OF cb m l])
  obtain t1 where t1: "leave_group True pid sa t = Ok t1" "left_state True pid s t A t1"
    using leave_group_consistent [OF cb m nl so(1)] by blast
  note d = left_stateD [OF t1(2)]
  let ?ga = "next_ref t1" and ?na = "next_ref t1 + 1"
  let ?t2 = "upd_process pid (\<lambda>p. p\<lparr>p_group := Some ?ga\<rparr>) t1"
  let ?t3 = "?t2\<lparr>groups := (groups ?t2)(?ga \<mapsto> (group_new pid)\<lparr>g_session := Some ?na\<rparr>),
       group_table := btm_insert pid ?ga (group_table ?t2),
       sessions := (sessions ?t2)(?na \<mapsto> (session_new pid ?ga)\<lparr>s_leader := Some pid\<rparr>),
       session_table := btm_insert pid ?na (session_table ?t2), next_ref := next_ref ?t2 + 2\<rparr>"
  have c1: "consistent_but {} t1 (A(pid := None))" using d(1) by simp
  note w1 = consistent_butD [OF c1]
  have mp: "map_of (procs t) pid \<noteq> None" using consistent_butD(5) [OF cb] m by simp
  obtain p where p: "map_of (procs t1) pid = Some p" using d(3) mp by fastforce
  have c3: "consistent_but {} ?t3 ((A(pid := None))(pid \<mapsto> (pid, pid)))"
    by (rule join_new_session [OF c1 _ d(4) [OF e(3)] d(5) [OF e(2)] refl refl])
      (use w1(1) p in \<open>auto simp: group_new_def session_new_def\<close>)
  have "sa < next_ref t" using session_okD(1) [OF consistent_butD(7) [OF cb so(2)] so(3)] .
  then have "sa \<noteq> ?na" using d(2) by simp
  moreover have "s_leader se \<noteq> Some pid" using l so(1) by (simp add: is_session_leader_def)
  ultimately have "s_leader x \<noteq> Some pid" if "sessions ?t3 sa = Some x" for x
  proof -
    have "sessions t1 sa = Some x" using that \<open>sa \<noteq> ?na\<close> by simp
    then show ?thesis using d(7) so(3) \<open>s_leader se \<noteq> Some pid\<close> by fastforce
  qed
  then have "upd_session sa (session_remove_process pid) ?t3 = ?t3" by (rule session_remove_process_idle)
  then have "to_new_session pid t = (Ok pid, ?t3)" using l e so t1(1) by (simp add: to_new_session_def Let_def)
  moreover have "A q \<noteq> None" if "map_of (procs ?t3) q \<noteq> None" "q \<noteq> pid" for q
    using that w1(1) d(3) [of q] c by (auto simp: consistent_def)
  then have "consistent ?t3 (A(pid \<mapsto> (pid, pid)))" using c3 by (auto simp: consistent_def)
  ultimately show ?thesis by blast
qed

lemma to_new_group_consistent:
  assumes c: "consistent t A" and m: "A pid = Some (g, s)" and l: "is_session_leader t pid = Some False"
    and e: "map_of (group_table t) pid = None"
  shows "\<exists>t'. to_new_group pid t = (Ok (), t') \<and> consistent t' (A(pid \<mapsto> (pid, s)))"
proof -
  note cb = consistentD [OF c]
  obtain sa se where so: "session_of t pid = Some (sa, se)" "map_of (session_table t) s = Some sa" "sessions t sa = Some se"
    using consistent_member [OF cb m] by blast
  have nl: "not_session_leader t pid" by (rule consistent_not_leader [OF cb m l])
  obtain t1 where t1: "leave_group False pid sa t = Ok t1" "left_state False pid s t A t1"
    using leave_group_consistent [OF cb m nl so(1)] by blast
  note d = left_stateD [OF t1(2)]
  have c1: "consistent_but {s} t1 (A(pid := None))" using d(1) by simp
  note w1 = consistent_butD [OF c1]
  have st: "map_of (session_table t1) s = Some sa" using d(6) so(2) by simp
  obtain se1 where se1: "sessions t1 sa = Some se1" using session_ok_object [OF w1(7) [OF st]] by blast
  have mp: "map_of (procs t) pid \<noteq> None" using consistent_butD(5) [OF cb] m by simp
  obtain p where p: "map_of (procs t1) pid = Some p" using d(3) mp by fastforce
  let ?ga = "next_ref t1"
  let ?t2 = "upd_process pid (\<lambda>p. p\<lparr>p_group := Some ?ga\<rparr>) t1"
  let ?t3 = "?t2\<lparr>groups := (groups ?t2)(?ga \<mapsto> (group_new pid)\<lparr>g_session := Some sa\<rparr>),
                 group_table := btm_insert pid ?ga (group_table ?t2), next_ref := next_ref ?t2 + 1\<rparr>"
  let ?t4 = "upd_session sa (\<lambda>s. s\<lparr>s_groups := btm_insert pid ?ga (s_groups s)\<rparr>) ?t3"
  have c3: "consistent_but ({s} - {s}) ?t4 ((A(pid := None))(pid \<mapsto> (pid, s)))"
    by (rule join_new_group [OF c1 _ d(4) [OF e] st se1 refl])
      (use w1(1) p se1 in \<open>auto simp: group_new_def\<close>)
  have "to_new_group pid t = (Ok (), ?t4)" using so(1) t1(1) by (simp add: to_new_group_def Let_def)
  moreover have "A q \<noteq> None" if "map_of (procs ?t4) q \<noteq> None" "q \<noteq> pid" for q
    using that w1(1) d(3) [of q] c by (auto simp: consistent_def)
  then have "consistent ?t4 (A(pid \<mapsto> (pid, s)))" using c3 by (auto simp: consistent_def)
  ultimately show ?thesis by blast
qed

lemma to_specified_group_consistent:
  assumes c: "consistent t A" and m: "A pid = Some (g, s)" and q: "A q = Some (h, s)" "h \<noteq> g"
    and k: "A x = Some (g, y)" "x \<noteq> pid" and a: "map_of (group_table t) h = Some a"
    and l: "is_session_leader t pid = Some False"
  shows "\<exists>t'. to_specified_group pid a t = (Ok (), t') \<and> consistent t' (A(pid \<mapsto> (h, s)))"
proof -
  note cb = consistentD [OF c]
  note w = consistent_butD [OF cb]
  obtain p ga gr sa se where o: "map_of (procs t) pid = Some p" "map_of (group_table t) g = Some ga"
    "groups t ga = Some gr" "g_pgid gr = g" "map_of (session_table t) s = Some sa" "sessions t sa = Some se"
    and pg: "process_group t pid = Some (ga, gr)" and so: "session_of t pid = Some (sa, se)"
    using consistent_member [OF cb m] by metis
  obtain tg where tg: "groups t a = Some tg" using group_ok_object [OF w(6) [OF a]] by metis
  have pt: "g_pgid tg = h" by (rule group_okD(2) [OF w(6) [OF a] tg q(1)])
  have na: "a \<noteq> ga" using group_table_inj [OF cb a] o(2) q(2) by auto
  let ?g' = "group_remove_process pid gr"
  let ?t1 = "upd_process pid (\<lambda>p. p\<lparr>p_group := None\<rparr>) (upd_group ga (\<lambda>_. ?g') t)"
  let ?t2 = "upd_process pid (\<lambda>p. p\<lparr>p_group := Some a\<rparr>)
                (upd_group a (\<lambda>g. g\<lparr>g_processes := btm_insert pid () (g_processes g)\<rparr>) ?t1)"
  note gd = group_okD [OF w(6) [OF o(2)] o(3) m]
  have "map_of (g_processes gr) x \<noteq> None" using gd(4) [of x] k(1) by (simp add: in_group_def)
  then have "map_of (g_processes ?g') x \<noteq> None" using k(2) by (simp add: group_remove_process_def map_of_btm_remove)
  then have ne: "g_processes ?g' \<noteq> []" by auto
  have nl: "s_leader se \<noteq> Some pid" using l so by (simp add: is_session_leader_def)
  have c1: "consistent_but {} ?t1 (A(pid := None))"
    by (rule leave_keep [OF cb m k o(2,3,5,6), of se]) (use nl w(1) o(6) in \<open>auto simp: o(3)\<close>)
  have qp: "q \<noteq> pid" using q m by auto
  have "consistent_but {} ?t2 ((A(pid := None))(pid \<mapsto> (h, s)))"
    by (rule join_group [OF c1, where q = q and ga = a and gr = tg])
      (use qp q(1) a tg na w(1) o(1) in \<open>auto simp: btm_wf_insert\<close>)
  then have "consistent ?t2 (A(pid \<mapsto> (h, s)))" using c w(1) by (auto simp: consistent_def)
  moreover have "to_specified_group pid a t = (Ok (), ?t2)"
    using tg pg ne o(4) pt q(2) by (simp add: to_specified_group_def Let_def)
  ultimately show ?thesis by blast
qed

definition may_setpgid :: "proc_tables \<Rightarrow> membership \<Rightarrow> nat \<Rightarrow> nat \<Rightarrow> nat \<Rightarrow> bool" where
  "may_setpgid t A pid pgid s \<longleftrightarrow> is_session_leader t pid = Some False \<and>
     ((\<exists>q. A q = Some (pgid, s)) \<or> pgid = pid \<and> map_of (group_table t) pgid = None)"

lemma group_in_table:
  assumes c: "consistent t A" and q: "A q = Some (h, s)"
  shows "\<exists>a gr. map_of (group_table t) h = Some a \<and> groups t a = Some gr \<and> g_pgid gr = h"
  using consistent_member [OF consistentD [OF c] q] by metis

lemma session_contains_group:
  assumes c: "consistent t A" and m: "A pid = Some (g, s)" and so: "session_of t pid = Some (sa, se)"
    and a: "map_of (group_table t) h = Some a" "groups t a = Some gr"
  shows "contains_process_group se gr \<longleftrightarrow> (\<exists>q. A q = Some (h, s))"
proof -
  note cb = consistentD [OF c]
  note w = consistent_butD [OF cb]
  have o: "map_of (session_table t) s = Some sa" "sessions t sa = Some se"
    using consistent_member [OF cb m] so by (metis option.inject prod.inject)+
  obtain q' s' where q': "A q' = Some (h, s')" using group_ok_object [OF w(6) [OF a(1)]] by metis
  have "g_pgid gr = h" by (rule group_okD(2) [OF w(6) [OF a(1)] a(2) q'])
  then show ?thesis using session_okD(4) [OF w(7) [OF o(1)] o(2), of h] a(1)
    by (simp add: contains_process_group_def)
qed

lemma to_other_group_consistent:
  assumes c: "consistent t A" and m: "A pid = Some (g, s)"
    and k: "\<And>q. A q = Some (pgid, s) \<Longrightarrow> \<exists>x y. A x = Some (g, y) \<and> x \<noteq> pid"
  shows "if pgid = g then to_other_group pid pgid t = (Ok (), t)
         else if may_setpgid t A pid pgid s
         then \<exists>t'. to_other_group pid pgid t = (Ok (), t') \<and> consistent t' (A(pid \<mapsto> (pgid, s)))
         else to_other_group pid pgid t = (Err EPERM, t)"
proof -
  obtain ga gr sa se where o: "process_group t pid = Some (ga, gr)" "g_pgid gr = g" "session_of t pid = Some (sa, se)"
    using consistent_member [OF consistentD [OF c] m] by metis
  have pg: "pgid_of t pid = g" using o by (simp add: pgid_of_def)
  consider "pgid = g" | "pgid \<noteq> g" "is_session_leader t pid = Some True"
    | "pgid \<noteq> g" "is_session_leader t pid = Some False"
    using o(3) by (auto simp: is_session_leader_def)
  then show ?thesis
  proof cases
    case 3
    show ?thesis
    proof (cases "map_of (group_table t) pgid")
      case None
      then have "\<nexists>q. A q = Some (pgid, s)" using group_in_table [OF c] by fastforce
      then show ?thesis using 3 None pg to_new_group_consistent [OF c m 3(2)]
        by (auto simp: may_setpgid_def to_other_group_def get_process_group_def)
    next
      case (Some a)
      obtain tg where tg: "groups t a = Some tg"
        using group_ok_object [OF consistent_butD(6) [OF consistentD [OF c] Some]] by metis
      note cg = session_contains_group [OF c m o(3) Some tg]
      show ?thesis
      proof (cases "\<exists>q. A q = Some (pgid, s)")
        case True
        then obtain q x y where q: "A q = Some (pgid, s)" "A x = Some (g, y)" "x \<noteq> pid" using k by blast
        show ?thesis
          using 3 Some pg o(3) tg cg True to_specified_group_consistent [OF c m q(1) 3(1) q(2,3) Some 3(2)]
          by (auto simp: may_setpgid_def to_other_group_def get_process_group_def)
      next
        case False
        then show ?thesis using 3 Some pg o(3) tg cg
          by (auto simp: may_setpgid_def to_other_group_def get_process_group_def)
      qed
    qed
  qed (use pg in \<open>auto simp: may_setpgid_def to_other_group_def\<close>)
qed

section \<open>Life of a process\<close>

lemma set_parent_and_group_consistent:
  assumes c: "consistent t A" and m: "A parent = Some (g, s)" and n: "map_of (procs t) pid = None"
  shows "\<exists>t' ga. set_parent_and_group parent pid child t = Some t' \<and> consistent t' (A(pid \<mapsto> (g, s))) \<and>
      procs t' = btm_insert pid (child\<lparr>p_group := Some ga\<rparr>)
        (procs (upd_process parent (\<lambda>p. p\<lparr>p_children := btm_insert pid () (p_children p)\<rparr>) t))"
proof -
  note cb = consistentD [OF c]
  note w = consistent_butD [OF cb]
  obtain p ga gr where o: "map_of (procs t) parent = Some p" "map_of (group_table t) g = Some ga" "groups t ga = Some gr"
    and pg: "process_group t parent = Some (ga, gr)"
    using consistent_member [OF cb m] by metis
  let ?t1 = "upd_process parent (\<lambda>p. p\<lparr>p_children := btm_insert pid () (p_children p)\<rparr>) t"
  let ?t2 = "upd_group ga (\<lambda>g. g\<lparr>g_processes := btm_insert pid () (g_processes g)\<rparr>) ?t1"
  let ?t3 = "?t2\<lparr>procs := btm_insert pid (child\<lparr>p_group := Some ga\<rparr>) (procs ?t2)\<rparr>"
  have np: "A pid = None" using w(5) [of pid] n by (cases "A pid") auto
  have w1: "btm_wf (procs ?t2)" using w(1) by simp
  have "consistent_but {} ?t3 (A(pid \<mapsto> (g, s)))"
    by (rule join_group [OF cb np m o(2,3)]) (use w(1) w1 o in \<open>auto simp: btm_wf_insert map_of_btm_insert\<close>)
  moreover have "(A(pid \<mapsto> (g, s))) q \<noteq> None" if "map_of (procs ?t3) q \<noteq> None" for q
    using that c w(1) w1 by (cases "q = pid") (auto simp: consistent_def map_of_btm_insert split: if_splits)
  ultimately have "consistent ?t3 (A(pid \<mapsto> (g, s)))" by (simp add: consistent_def)
  moreover have "set_parent_and_group parent pid child t = Some ?t3"
    by (simp add: set_parent_and_group_def pg Let_def)
  moreover have "procs ?t3 = btm_insert pid (child\<lparr>p_group := Some ga\<rparr>) (procs ?t1)" by simp
  ultimately show ?thesis by blast
qed

lemma reap_zombie_child_consistent:
  assumes c: "consistent t A" and m: "A pid = Some (g, s)"
    and p: "map_of (procs t) parent = Some pp" "map_of (p_children pp) pid \<noteq> None"
    and z: "map_of (procs t) pid = Some child" "p_status child = Zombie ts"
  shows "\<exists>t'. reap_zombie_child parent pid t = Some (as_u32 ts, t') \<and> consistent t' (A(pid := None)) \<and>
     procs t' = btm_remove pid (procs (upd_process parent (\<lambda>p. p\<lparr>p_children := btm_remove pid (p_children p)\<rparr>) t))"
proof -
  note cb = consistentD [OF c]
  note w = consistent_butD [OF cb]
  obtain ga gr sa se where o: "map_of (group_table t) g = Some ga" "groups t ga = Some gr" "g_pgid gr = g"
    "g_session gr = Some sa" "map_of (session_table t) s = Some sa" "sessions t sa = Some se" "s_sid se = s"
    and pg: "process_group t pid = Some (ga, gr)" and so: "session_of t pid = Some (sa, se)"
    using consistent_member [OF cb m] by metis
  have us: "upgrade_session t (g_session gr) = Some (sa, se)" using so pg by (simp add: session_of_def)
  let ?g' = "group_remove_process pid gr" and ?s' = "session_remove_process pid se"
  let ?t1 = "upd_process parent (\<lambda>p. p\<lparr>p_children := btm_remove pid (p_children p)\<rparr>) t"
  let ?t2 = "upd_session sa (\<lambda>_. ?s') (upd_group ga (\<lambda>_. ?g') ?t1)"
  let ?ps = "btm_remove pid (procs ?t1)"
  note gd = group_okD [OF w(6) [OF o(1)] o(2) m]
  have pr: "g_processes ?g' = btm_remove pid (g_processes gr)"
    using gd(4) [of pid] m by (auto simp: group_remove_process_def in_group_def)
  have pt: "btm_wf ?ps" "map_of ?ps q = (if q = pid then None else map_of (procs ?t1) q)" for q
    using w(1) by (simp_all add: btm_wf_remove map_of_btm_remove)
  have gq: "map_option p_group (map_of (procs ?t1) q) = map_option p_group (map_of (procs t) q)" for q
    using w(1) p(1) by auto
  have dom: "(A(pid := None)) q \<noteq> None" if "map_of ?ps q \<noteq> None" for q
    using that c w(1) by (auto simp: consistent_def map_of_btm_remove split: if_splits)
  have r: "reap_zombie_child parent pid t = Some (as_u32 ts, t3\<lparr>procs := ?ps\<rparr>)"
    if "t3 = (if g_processes ?g' = [] then (let s'' = session_remove_group g ?s';
           t' = upd_session sa (\<lambda>_. s'') (?t2\<lparr>group_table := btm_remove g (group_table ?t2)\<rparr>)
         in if s_groups s'' = [] then t'\<lparr>session_table := btm_remove s (session_table t')\<rparr> else t') else ?t2)"
    for t3
    using p z pg us o by (simp add: that reap_zombie_child_def get_process_def is_zombie_def exit_code_def Let_def)
  have main: "consistent_but {} (t3\<lparr>procs := ?ps\<rparr>) (A(pid := None))"
    if t3: "t3 = (if g_processes ?g' = [] then (let s'' = session_remove_group g ?s';
           t' = upd_session sa (\<lambda>_. s'') (?t2\<lparr>group_table := btm_remove g (group_table ?t2)\<rparr>)
         in if s_groups s'' = [] then t'\<lparr>session_table := btm_remove s (session_table t')\<rparr> else t') else ?t2)" for t3
  proof (cases "g_processes ?g' = []")
    case False
    then obtain q where "map_of (btm_remove pid (g_processes gr)) q \<noteq> None" using map_of_nonempty pr by metis
    then obtain s' where q: "q \<noteq> pid" "A q = Some (g, s')"
      using gd(4) [of q] by (auto simp: map_of_btm_remove in_group_def split: if_splits)
    show ?thesis using False t3
      by (intro leave_keep [OF cb m q(2,1) o(1,2,5,6), of ?s'])
        (use pt gq o in \<open>auto simp: session_remove_process_def split: if_splits\<close>)
  next
    case True
    have only: "q = pid" if "A q = Some (g, s')" for q s'
    proof (rule ccontr)
      assume "q \<noteq> pid"
      moreover have "map_of (g_processes gr) q \<noteq> None" using gd(4) [of q] that by (simp add: in_group_def)
      ultimately have "map_of (btm_remove pid (g_processes gr)) q \<noteq> None" by (simp add: map_of_btm_remove)
      then show False using True unfolding pr by simp
    qed
    let ?s'' = "session_remove_group g ?s'"
    have "consistent_but (if True then {} else {} \<union> {s}) (t3\<lparr>procs := ?ps\<rparr>) (A(pid := None))"
      by (rule leave_drop [OF cb m only o(1,5,6), where dr = "True \<and> s_groups ?s'' = []" and se' = ?s''])
        (use True t3 pt gq o in \<open>auto simp: Let_def session_remove_group_def session_remove_process_def split: if_splits\<close>)
    then show ?thesis by simp
  qed
  show ?thesis using r [OF refl] main [OF refl] dom by (auto simp: consistent_def)
qed

end
