(* ===== verification/Process_Tree.thy ===== *)
theory Process_Tree
  imports Process_Groups
begin

text \<open>
  The tree of processes: every process other than the init process has a parent in the table that
  lists it as a child, so that it can be waited for. The invariant holds in every state reachable
  by \<^verbatim>\<open>clone\<close>, \<^verbatim>\<open>exit_group\<close>, \<^verbatim>\<open>wait4\<close>, \<^verbatim>\<open>setsid\<close> and \<^verbatim>\<open>setpgid\<close>, in any order.
\<close>

section \<open>The invariant\<close>

definition kin :: "process \<Rightarrow> nat option \<times> (nat, unit) btree_map \<times> process_status" where
  "kin p = (p_parent p, p_children p, p_status p)"




text \<open>Whatever changes only the groups of processes keeps the tree.\<close>

definition same_tree :: "proc_tables \<Rightarrow> proc_tables \<Rightarrow> bool" where
  "same_tree t t' \<longleftrightarrow> (btm_wf (procs t) \<longrightarrow> btm_wf (procs t') \<and>
     (\<forall>q. map_option kin (map_of (procs t') q) = map_option kin (map_of (procs t) q)))"

lemma same_tree_refl [simp]: "same_tree t t"
  by (simp add: same_tree_def)


lemma same_tree_procs: "procs t' = procs u \<Longrightarrow> same_tree t t' \<longleftrightarrow> same_tree t u"
  by (simp add: same_tree_def)




section \<open>Operations\<close>

lemma same_tree_fields [simp]:
  "same_tree t (u\<lparr>groups := a\<rparr>) \<longleftrightarrow> same_tree t u" "same_tree t (u\<lparr>group_table := b\<rparr>) \<longleftrightarrow> same_tree t u"
  "same_tree t (u\<lparr>sessions := c\<rparr>) \<longleftrightarrow> same_tree t u" "same_tree t (u\<lparr>session_table := b\<rparr>) \<longleftrightarrow> same_tree t u"
  "same_tree t (u\<lparr>next_ref := n\<rparr>) \<longleftrightarrow> same_tree t u"
  "same_tree t (upd_group ga f u) \<longleftrightarrow> same_tree t u" "same_tree t (upd_session sa h u) \<longleftrightarrow> same_tree t u"
  by (simp_all add: same_tree_def)















section \<open>The system from its first process\<close>

text \<open>The tables before the first process, and \<^verbatim>\<open>Process::spawn_user_process\<close> of the init process.\<close>

definition no_tables :: proc_tables where
  "no_tables = \<lparr>procs = [], groups = (\<lambda>_. None), group_table = [], sessions = (\<lambda>_. None), session_table = [], next_ref = 0\<rparr>"

definition init_tables :: proc_tables where
  "init_tables = create_user_process INIT_PROCESS_PID no_tables"











section \<open>Properties\<close>


text \<open>The init process creates process 2; process 2 creates process 3.\<close>

definition fork_tables :: proc_tables where
  "fork_tables = the (set_parent_and_group 1 2 (process_build (Some 1)) init_tables)"




















text \<open>The init process has the children 2 and 3.\<close>

definition siblings :: proc_tables where
  "siblings = the (set_parent_and_group 1 3 (process_build (Some 1)) fork_tables)"

lemma fst_eq_pair: "fst x = a \<Longrightarrow> x = (a, snd x)"
  by (cases x) simp

text \<open>C31: A process can leave its session by joining a group of another session, which
  \<^verbatim>\<open>setpgid\<close> is meant to refuse. Process 2 makes its own group and goes back to the group of the init
  process; the emptied group leaves the group table but stays in the list of the session. When
  process 2 then starts a new session, its new group has the id of the stale entry, so the check that
  the session of process 3 contains the group succeeds, and process 3 moves from session 1 to
  session 2.\<close>

theorem setpgid_crosses_sessions:
  "\<exists>t1 t2 t3 t4. sys_setpgid 2 0 0 siblings = (Ok 0, t1) \<and> sys_setpgid 2 0 1 t1 = (Ok 0, t2) \<and>
     sys_setsid 2 t2 = (Ok 2, t3) \<and> sys_getsid 3 0 t3 = Ok 1 \<and>
     sys_setpgid 3 0 2 t3 = (Ok 0, t4) \<and> sys_getsid 3 0 t4 = Ok 2"
proof -
  let ?t1 = "snd (sys_setpgid 2 0 0 siblings)"
  let ?t2 = "snd (sys_setpgid 2 0 1 ?t1)"
  let ?t3 = "snd (sys_setsid 2 ?t2)"
  let ?t4 = "snd (sys_setpgid 3 0 2 ?t3)"
  have "sys_setpgid 2 0 0 siblings = (Ok 0, ?t1)" by (rule fst_eq_pair) code_simp
  moreover have "sys_setpgid 2 0 1 ?t1 = (Ok 0, ?t2)" by (rule fst_eq_pair) code_simp
  moreover have "sys_setsid 2 ?t2 = (Ok 2, ?t3)" by (rule fst_eq_pair) code_simp
  moreover have "sys_setpgid 3 0 2 ?t3 = (Ok 0, ?t4)" by (rule fst_eq_pair) code_simp
  moreover have "sys_getsid 3 0 ?t3 = Ok 1" by code_simp
  moreover have "sys_getsid 3 0 ?t4 = Ok 2" by code_simp
  ultimately show ?thesis by blast
qed

end
