(* ===== verification/Rw_Lock.thy ===== *)
theory Rw_Lock
  imports Prelude "HOL-Library.Word"
begin

unbundle bit_operations_syntax

text \<open>
  The read-write lock of \<^verbatim>\<open>framework/aster-frame/src/sync/rwlock.rs\<close>, as a machine whose steps are the
  atomic operations on the lock word. Any number of agents below \<open>2 ^ 60\<close> share the lock; an agent
  is one use of the lock, from the call of \<^verbatim>\<open>read\<close>, \<^verbatim>\<open>write\<close> or \<^verbatim>\<open>upread\<close> to the drop of the guard,
  and their operations interleave arbitrarily. A spinning call is an agent that tries again and again.
\<close>

section \<open>The lock word\<close>

abbreviation READER :: "64 word" where "READER \<equiv> 1"
definition WRITER :: "64 word" where "WRITER = push_bit 63 1"
definition UPGRADEABLE_READER :: "64 word" where "UPGRADEABLE_READER = push_bit 62 1"
definition BEING_UPGRADED :: "64 word" where "BEING_UPGRADED = push_bit 61 1"
definition MAX_READER :: "64 word" where "MAX_READER = push_bit 60 1"

lemmas rw_consts = WRITER_def UPGRADEABLE_READER_def BEING_UPGRADED_def MAX_READER_def

datatype inner_guard = IrqGuard | PreemptGuard

text \<open>
  Where an agent stands. \<open>ReadUndo\<close> and \<open>UpreadUndo\<close> have changed the word without getting the lock
  and will take the change back; \<open>Upgraded\<close> owns the write lock and still has to drop its upread guard.
\<close>

datatype rw_pc =
    Idle
  | ReadUndo
  | Reading inner_guard
  | Writing inner_guard
  | UpreadUndo
  | Upreading inner_guard
  | Upgrading inner_guard
  | Upgraded inner_guard

section \<open>Operations\<close>

definition rw_new :: "64 word" where
  "rw_new = 0"

definition try_read_with :: "inner_guard \<Rightarrow> 64 word \<Rightarrow> rw_pc \<times> 64 word" where
  "try_read_with g lock =
     (if lock AND (WRITER OR MAX_READER OR BEING_UPGRADED) = 0 then Reading g else ReadUndo, lock + READER)"

definition try_read :: "64 word \<Rightarrow> rw_pc \<times> 64 word" where
  "try_read = try_read_with PreemptGuard"

definition try_read_irq_disabled :: "64 word \<Rightarrow> rw_pc \<times> 64 word" where
  "try_read_irq_disabled = try_read_with IrqGuard"

definition try_read_undo :: "64 word \<Rightarrow> rw_pc \<times> 64 word" where
  "try_read_undo lock = (Idle, lock - READER)"

definition try_write_with :: "inner_guard \<Rightarrow> 64 word \<Rightarrow> rw_pc \<times> 64 word" where
  "try_write_with g lock = (if lock = 0 then (Writing g, WRITER) else (Idle, lock))"

definition try_write :: "64 word \<Rightarrow> rw_pc \<times> 64 word" where
  "try_write = try_write_with PreemptGuard"

definition try_write_irq_disabled :: "64 word \<Rightarrow> rw_pc \<times> 64 word" where
  "try_write_irq_disabled = try_write_with IrqGuard"

definition try_upread_with :: "inner_guard \<Rightarrow> 64 word \<Rightarrow> rw_pc \<times> 64 word" where
  "try_upread_with g lock =
     (let old = lock AND (WRITER OR UPGRADEABLE_READER) in
      (if old = 0 then Upreading g else if old = WRITER then UpreadUndo else Idle, lock OR UPGRADEABLE_READER))"

definition try_upread :: "64 word \<Rightarrow> rw_pc \<times> 64 word" where
  "try_upread = try_upread_with PreemptGuard"

definition try_upread_irq_disabled :: "64 word \<Rightarrow> rw_pc \<times> 64 word" where
  "try_upread_irq_disabled = try_upread_with IrqGuard"

definition try_upread_undo :: "64 word \<Rightarrow> rw_pc \<times> 64 word" where
  "try_upread_undo lock = (Idle, lock - UPGRADEABLE_READER)"

definition drop_read_guard :: "64 word \<Rightarrow> rw_pc \<times> 64 word" where
  "drop_read_guard lock = (Idle, lock - READER)"

definition drop_write_guard :: "64 word \<Rightarrow> rw_pc \<times> 64 word" where
  "drop_write_guard lock = (Idle, lock AND NOT WRITER)"

definition drop_upgradeable_guard :: "64 word \<Rightarrow> rw_pc \<times> 64 word" where
  "drop_upgradeable_guard lock = (Idle, lock - UPGRADEABLE_READER)"

definition upgrade_start :: "inner_guard \<Rightarrow> 64 word \<Rightarrow> rw_pc \<times> 64 word" where
  "upgrade_start g lock = (Upgrading g, lock OR BEING_UPGRADED)"

text \<open>\<open>back\<close> is where a failed attempt leaves the agent: \<^verbatim>\<open>upgrade\<close> tries again, \<^verbatim>\<open>try_upgrade\<close> returns
  the upread guard.\<close>

definition try_upgrade :: "inner_guard \<Rightarrow> rw_pc \<Rightarrow> 64 word \<Rightarrow> rw_pc \<times> 64 word" where
  "try_upgrade g back lock =
     (if lock = UPGRADEABLE_READER OR BEING_UPGRADED then (Upgraded g, WRITER OR UPGRADEABLE_READER) else (back, lock))"

definition upgraded_drop :: "inner_guard \<Rightarrow> 64 word \<Rightarrow> rw_pc \<times> 64 word" where
  "upgraded_drop g lock = (Writing g, snd (drop_upgradeable_guard lock))"

section \<open>The machine\<close>

text \<open>The atomic operations an agent may perform next.\<close>

fun rw_ops :: "rw_pc \<Rightarrow> (64 word \<Rightarrow> rw_pc \<times> 64 word) list" where
  "rw_ops Idle = [try_read, try_read_irq_disabled, try_write, try_write_irq_disabled, try_upread, try_upread_irq_disabled]"
| "rw_ops ReadUndo = [try_read_undo]"
| "rw_ops (Reading g) = [drop_read_guard]"
| "rw_ops (Writing g) = [drop_write_guard]"
| "rw_ops UpreadUndo = [try_upread_undo]"
| "rw_ops (Upreading g) = [drop_upgradeable_guard, upgrade_start g, try_upgrade g (Upreading g)]"
| "rw_ops (Upgrading g) = [try_upgrade g (Upgrading g)]"
| "rw_ops (Upgraded g) = [upgraded_drop g]"

record rw_state =
  rw_word :: "64 word"
  rw_agents :: "rw_pc list"

inductive rw_step :: "rw_state \<Rightarrow> rw_state \<Rightarrow> bool" where
  "i < length (rw_agents s) \<Longrightarrow> f \<in> set (rw_ops (rw_agents s ! i)) \<Longrightarrow> f (rw_word s) = (pc', w') \<Longrightarrow>
   rw_step s (s\<lparr>rw_word := w', rw_agents := (rw_agents s)[i := pc']\<rparr>)"

definition rw_init :: "nat \<Rightarrow> rw_state" where
  "rw_init n = \<lparr>rw_word = rw_new, rw_agents = replicate n Idle\<rparr>"

inductive rw_reachable :: "nat \<Rightarrow> rw_state \<Rightarrow> bool" for n where
  rw_reach_init: "rw_reachable n (rw_init n)"
| rw_reach_step: "rw_reachable n s \<Longrightarrow> rw_step s s' \<Longrightarrow> rw_reachable n s'"

section \<open>What the word says\<close>

text \<open>A word with the three flags and a count of readers.\<close>

definition enc :: "bool \<Rightarrow> bool \<Rightarrow> bool \<Rightarrow> nat \<Rightarrow> 64 word" where
  "enc w u b r = push_bit 63 (of_bool w) + push_bit 62 (of_bool u) + push_bit 61 (of_bool b) + of_nat r"

lemma enc_unat:
  assumes "r < 2 ^ 60"
  shows "unat (enc w u b r) = (if w then 2 ^ 63 else 0) + (if u then 2 ^ 62 else 0) + (if b then 2 ^ 61 else 0) + r"
proof -
  define x where "x = (if w then 2 ^ 63 else 0) + (if u then 2 ^ 62 else 0) + (if b then 2 ^ 61 else 0) + r"
  have e: "enc w u b r = of_nat x" by (simp add: enc_def x_def push_bit_eq_mult)
  have "x < 2 ^ 64" using assms by (simp add: x_def)
  then have "unat (enc w u b r) = x" unfolding e by (simp add: unat_of_nat)
  then show ?thesis unfolding x_def .
qed

lemma enc_inject:
  assumes "r < 2 ^ 60" "r' < 2 ^ 60"
  shows "enc w u b r = enc w' u' b' r' \<longleftrightarrow> w = w' \<and> u = u' \<and> b = b' \<and> r = r'"
proof -
  have "enc w u b r = enc w' u' b' r' \<longleftrightarrow> unat (enc w u b r) = unat (enc w' u' b' r')"
    using unsigned_word_eqI by metis
  then show ?thesis unfolding enc_unat [OF assms(1)] enc_unat [OF assms(2)] using assms by auto
qed

lemma enc_consts:
  "WRITER = enc True False False 0" "UPGRADEABLE_READER = enc False True False 0" "0 = enc False False False 0"
  "UPGRADEABLE_READER OR BEING_UPGRADED = enc False True True 0" "WRITER OR UPGRADEABLE_READER = enc True True False 0"
  by (simp_all add: enc_def rw_consts)

lemma bit_enc:
  assumes "r < 2 ^ 60"
  shows "bit (enc w u b r) n \<longleftrightarrow> n = 63 \<and> w \<or> n = 62 \<and> u \<or> n = 61 \<and> b \<or> n < 60 \<and> bit r n"
proof -
  have n: "\<not> bit r k" if "k \<ge> 60" for k
    using that take_bit_nat_eq_self [OF assms] by (metis bit_take_bit_iff not_le)
  then have r: "\<not> bit (of_nat r :: 64 word) k" if "k \<ge> 60" for k
    using that by (simp add: bit_simps)
  define A B C D :: "64 word" where "A = push_bit 63 (of_bool w)" and "B = push_bit 62 (of_bool u)"
    and "C = push_bit 61 (of_bool b)" and "D = of_nat r"
  have bits: "bit A k \<longleftrightarrow> k = 63 \<and> w" "bit B k \<longleftrightarrow> k = 62 \<and> u" "bit C k \<longleftrightarrow> k = 61 \<and> b" "bit D k \<longleftrightarrow> k < 60 \<and> bit r k" for k
    using n [of k] by (cases "k < 60"; auto simp: A_def B_def C_def D_def bit_simps)+
  have "A + B = A OR B" by (rule disjunctive_add) (auto simp: bits)
  moreover have "(A OR B) + C = A OR B OR C" by (subst disjunctive_add) (auto simp: bits bit_simps or.assoc)
  moreover have "(A OR B OR C) + D = A OR B OR C OR D" by (subst disjunctive_add) (auto simp: bits bit_simps or.assoc)
  ultimately have "enc w u b r = A OR B OR C OR D" by (simp add: enc_def A_def B_def C_def D_def)
  then show ?thesis by (auto simp: bit_or_iff bits)
qed

lemma enc_flags:
  assumes "r < 2 ^ 60"
  shows "enc w u b r AND (WRITER OR MAX_READER OR BEING_UPGRADED) = 0 \<longleftrightarrow> \<not> w \<and> \<not> b"
    "enc w u b r AND (WRITER OR UPGRADEABLE_READER) = enc w u False 0"
    "enc w u b r OR UPGRADEABLE_READER = enc w True b r" "enc w u b r OR BEING_UPGRADED = enc w u True r"
    "enc w u b r AND NOT WRITER = enc False u b r"
proof -
  have z: "bit (0::nat) n \<longleftrightarrow> False" for n by simp
  have c: "bit WRITER n \<longleftrightarrow> n = 63" "bit UPGRADEABLE_READER n \<longleftrightarrow> n = 62" "bit BEING_UPGRADED n \<longleftrightarrow> n = 61" "bit MAX_READER n \<longleftrightarrow> n = 60" for n
    unfolding rw_consts bit_push_bit_iff by (auto simp: bit_simps)
  have e: "bit (enc w u b r AND (WRITER OR MAX_READER OR BEING_UPGRADED)) n \<longleftrightarrow> n = 63 \<and> w \<or> n = 61 \<and> b" for n
    by (auto simp: bit_and_iff bit_or_iff bit_enc [OF assms] c)
  show "enc w u b r AND (WRITER OR MAX_READER OR BEING_UPGRADED) = 0 \<longleftrightarrow> \<not> w \<and> \<not> b"
  proof
    assume "enc w u b r AND (WRITER OR MAX_READER OR BEING_UPGRADED) = 0"
    then have "\<not> bit (enc w u b r AND (WRITER OR MAX_READER OR BEING_UPGRADED)) n" for n by simp
    then show "\<not> w \<and> \<not> b" unfolding e by blast
  qed (rule bit_eqI, unfold e, simp)
  show "enc w u b r AND (WRITER OR UPGRADEABLE_READER) = enc w u False 0"
    by (rule bit_eqI) (auto simp: bit_and_iff bit_or_iff bit_enc [OF assms] bit_enc [of 0] c)
  show "enc w u b r OR UPGRADEABLE_READER = enc w True b r" "enc w u b r OR BEING_UPGRADED = enc w u True r"
    by (rule bit_eqI, auto simp: bit_or_iff bit_enc [OF assms] c)+
  show "enc w u b r AND NOT WRITER = enc False u b r"
    by (rule bit_eqI) (auto simp: bit_and_iff bit_not_iff bit_enc [OF assms] c)
qed

lemma enc_count:
  "enc w u b r + READER = enc w u b (Suc r)" "enc w u b (Suc r) - READER = enc w u b r"
  "enc w True b r - UPGRADEABLE_READER = enc w False b r"
  by (simp_all add: enc_def UPGRADEABLE_READER_def)

lemma enc_tests:
  assumes "r < 2 ^ 60"
  shows "enc w u b r = 0 \<longleftrightarrow> \<not> w \<and> \<not> u \<and> \<not> b \<and> r = 0"
    "enc w u b r = UPGRADEABLE_READER OR BEING_UPGRADED \<longleftrightarrow> \<not> w \<and> u \<and> b \<and> r = 0"
    "enc w u b r AND (WRITER OR UPGRADEABLE_READER) = 0 \<longleftrightarrow> \<not> w \<and> \<not> u"
    "enc w u b r AND (WRITER OR UPGRADEABLE_READER) = WRITER \<longleftrightarrow> w \<and> \<not> u"
proof -
  have i: "enc w u b' r' = enc w' u' b'' 0 \<longleftrightarrow> w = w' \<and> u = u' \<and> b' = b'' \<and> r' = 0" if "r' < 2 ^ 60" for w' u' b' b'' r'
    using enc_inject [OF that, of 0] by simp
  show "enc w u b r = 0 \<longleftrightarrow> \<not> w \<and> \<not> u \<and> \<not> b \<and> r = 0"
    unfolding enc_consts(3) i [OF assms] by simp
  show "enc w u b r = UPGRADEABLE_READER OR BEING_UPGRADED \<longleftrightarrow> \<not> w \<and> u \<and> b \<and> r = 0"
    unfolding enc_consts(4) i [OF assms] by simp
  have z: "(0::nat) < 2 ^ 60" by simp
  show "enc w u b r AND (WRITER OR UPGRADEABLE_READER) = 0 \<longleftrightarrow> \<not> w \<and> \<not> u"
    unfolding enc_flags(2) [OF assms] unfolding enc_consts(3) i [OF z] by simp
  show "enc w u b r AND (WRITER OR UPGRADEABLE_READER) = WRITER \<longleftrightarrow> w \<and> \<not> u"
    unfolding enc_flags(2) [OF assms] unfolding enc_consts(1) i [OF z] by simp
qed

lemmas enc_simps = enc_flags(1,3,4,5) enc_tests

section \<open>The invariant\<close>

definition is_writer :: "rw_pc \<Rightarrow> bool" where
  "is_writer pc \<longleftrightarrow> (case pc of Writing _ \<Rightarrow> True | Upgraded _ \<Rightarrow> True | _ \<Rightarrow> False)"

definition owns_up :: "rw_pc \<Rightarrow> bool" where
  "owns_up pc \<longleftrightarrow> (case pc of UpreadUndo \<Rightarrow> True | Upreading _ \<Rightarrow> True | Upgrading _ \<Rightarrow> True | Upgraded _ \<Rightarrow> True | _ \<Rightarrow> False)"

definition is_upreader :: "rw_pc \<Rightarrow> bool" where
  "is_upreader pc \<longleftrightarrow> (case pc of Upreading _ \<Rightarrow> True | Upgrading _ \<Rightarrow> True | _ \<Rightarrow> False)"

definition is_upgrading :: "rw_pc \<Rightarrow> bool" where
  "is_upgrading pc \<longleftrightarrow> (case pc of Upgrading _ \<Rightarrow> True | _ \<Rightarrow> False)"

definition is_reader :: "rw_pc \<Rightarrow> bool" where
  "is_reader pc \<longleftrightarrow> (case pc of Reading _ \<Rightarrow> True | _ \<Rightarrow> False)"

definition counts_reader :: "rw_pc \<Rightarrow> bool" where
  "counts_reader pc \<longleftrightarrow> (case pc of Reading _ \<Rightarrow> True | ReadUndo \<Rightarrow> True | _ \<Rightarrow> False)"

lemmas pc_preds = is_writer_def owns_up_def is_upreader_def is_upgrading_def is_reader_def counts_reader_def

definition count :: "(rw_pc \<Rightarrow> bool) \<Rightarrow> rw_pc list \<Rightarrow> nat" where
  "count P xs = length (filter P xs)"

definition rw_inv :: "rw_state \<Rightarrow> bool" where
  "rw_inv s \<longleftrightarrow>
     (let xs = rw_agents s in
      count is_writer xs \<le> 1 \<and> count owns_up xs \<le> 1 \<and>
      (count is_writer xs = 1 \<longrightarrow> count is_reader xs = 0 \<and> count is_upreader xs = 0) \<and>
      rw_word s = enc (count is_writer xs = 1) (count owns_up xs = 1) (count is_upgrading xs = 1) (count counts_reader xs))"

lemma rw_invD:
  assumes "rw_inv s"
  shows "count is_writer (rw_agents s) \<le> 1" "count owns_up (rw_agents s) \<le> 1"
    "count is_writer (rw_agents s) = 1 \<Longrightarrow> count is_reader (rw_agents s) = 0 \<and> count is_upreader (rw_agents s) = 0"
    "rw_word s = enc (count is_writer (rw_agents s) = 1) (count owns_up (rw_agents s) = 1)
       (count is_upgrading (rw_agents s) = 1) (count counts_reader (rw_agents s))"
  using assms by (simp_all add: rw_inv_def Let_def)

lemma count_le: "count P xs \<le> length xs"
  by (simp add: count_def)

text \<open>How a count changes when one agent moves.\<close>

lemma count_update:
  assumes "i < length xs"
  shows "count P (xs[i := y]) + of_bool (P (xs ! i)) = count P xs + of_bool (P y)"
  using assms
proof (induction xs arbitrary: i)
  case (Cons x xs)
  then show ?case by (cases i) (auto simp: count_def)
qed simp

lemma count_pos: "i < length xs \<Longrightarrow> P (xs ! i) \<Longrightarrow> 0 < count P xs"
  by (auto simp: count_def filter_empty_conv intro: nth_mem)

lemma count_mono: "(\<And>x. P x \<Longrightarrow> Q x) \<Longrightarrow> count P xs \<le> count Q xs"
  by (induction xs) (auto simp: count_def)

lemma pc_mono: "is_upgrading x \<Longrightarrow> is_upreader x" "is_upreader x \<Longrightarrow> owns_up x" "is_reader x \<Longrightarrow> counts_reader x"
  by (auto simp: pc_preds split: rw_pc.splits)

lemmas rw_op_defs = try_read_def try_read_irq_disabled_def try_write_def try_write_irq_disabled_def try_upread_def
  try_upread_irq_disabled_def try_read_with_def try_write_with_def try_upread_with_def try_read_undo_def try_upread_undo_def
  drop_read_guard_def drop_write_guard_def drop_upgradeable_guard_def upgrade_start_def try_upgrade_def upgraded_drop_def

text \<open>One move of one agent, in terms of the counts.\<close>

lemma rw_op_counts:
  fixes cw cu cb cr rd up dw du db dr rd' up' :: nat
  assumes f: "f \<in> set (rw_ops pc)" "f (enc (cw = 1) (cu = 1) (cb = 1) cr) = (pc', w')"
    and u: "dw + of_bool (is_writer pc) = cw + of_bool (is_writer pc')"
      "du + of_bool (owns_up pc) = cu + of_bool (owns_up pc')" "db + of_bool (is_upgrading pc) = cb + of_bool (is_upgrading pc')"
      "dr + of_bool (counts_reader pc) = cr + of_bool (counts_reader pc')"
      "rd' + of_bool (is_reader pc) = rd + of_bool (is_reader pc')" "up' + of_bool (is_upreader pc) = up + of_bool (is_upreader pc')"
    and p: "is_writer pc \<Longrightarrow> 0 < cw" "owns_up pc \<Longrightarrow> 0 < cu" "is_upgrading pc \<Longrightarrow> 0 < cb" "is_upreader pc \<Longrightarrow> 0 < up"
      "counts_reader pc \<Longrightarrow> 0 < cr" "is_reader pc \<Longrightarrow> 0 < rd"
    and le: "cr < 2 ^ 60" "cb \<le> up" "up \<le> cu" "rd \<le> cr" "cw \<le> 1" "cu \<le> 1" "cw = 1 \<Longrightarrow> rd = 0 \<and> up = 0"
      "is_upreader pc \<Longrightarrow> \<not> is_upgrading pc \<Longrightarrow> cb < up"
  shows "dw \<le> 1 \<and> du \<le> 1 \<and> (dw = 1 \<longrightarrow> rd' = 0 \<and> up' = 0) \<and> w' = enc (dw = 1) (du = 1) (db = 1) dr"
proof -
  note e = enc_simps [OF le(1)]
  show ?thesis
  proof (cases pc)
    case Idle
    then consider g where "f = try_read_with g" | g where "f = try_write_with g" | g where "f = try_upread_with g"
      using f(1) by (auto simp: try_read_def try_read_irq_disabled_def try_write_def try_write_irq_disabled_def
          try_upread_def try_upread_irq_disabled_def)
    then show ?thesis
    proof cases
      case (1 g)
      then have w: "w' = enc (cw = 1) (cu = 1) (cb = 1) (Suc cr)" using f(2) by (simp add: try_read_with_def enc_count)
      show ?thesis
      proof (cases "cw = 1 \<or> cb = 1")
        case True
        then have "pc' = ReadUndo" using f(2) 1 by (auto simp: try_read_with_def e)
        then show ?thesis using w u le(5-7) Idle by (simp add: pc_preds)
      next
        case False
        then have "pc' = Reading g" using f(2) 1 by (auto simp: try_read_with_def e)
        then show ?thesis using w u le(5-7) Idle False by (simp add: pc_preds)
      qed
    next
      case (2 g)
      show ?thesis
      proof (cases "cw = 0 \<and> cu = 0 \<and> cb = 0 \<and> cr = 0")
        case True
        then have "pc' = Writing g" "w' = enc True False False 0"
          using f(2) 2 e(5) by (auto simp: try_write_with_def enc_consts(1))
        then show ?thesis using True u le Idle by (simp add: pc_preds)
      next
        case False
        then have "pc' = Idle" "w' = enc (cw = 1) (cu = 1) (cb = 1) cr"
          using f(2) 2 e(5) le by (auto simp: try_write_with_def)
        then show ?thesis using u le(5-7) Idle by (simp add: pc_preds)
      qed
    next
      case (3 g)
      then have w: "w' = enc (cw = 1) True (cb = 1) cr"
        using f(2) by (simp add: try_upread_with_def e Let_def)
      consider "cu = 1" "pc' = Idle" | "cu = 0" "cw = 0" "pc' = Upreading g" | "cu = 0" "cw = 1" "pc' = UpreadUndo"
        using f(2) 3 le(5,6) by (cases "cu = 1"; cases "cw = 1") (auto simp: try_upread_with_def e Let_def)
      then show ?thesis using w u le(5-7) Idle by cases (simp_all add: pc_preds)
    qed
  next
    case ReadUndo
    then obtain k where k: "cr = Suc k" using p(5) by (cases cr) (auto simp: pc_preds)
    have "pc' = Idle" "w' = enc (cw = 1) (cu = 1) (cb = 1) k"
      using ReadUndo f k by (simp_all add: try_read_undo_def enc_count)
    then show ?thesis using ReadUndo u k le(5-7) by (simp add: pc_preds)
  next
    case (Reading g)
    then obtain k where k: "cr = Suc k" using p(5) by (cases cr) (auto simp: pc_preds)
    have "pc' = Idle" "w' = enc (cw = 1) (cu = 1) (cb = 1) k"
      using Reading f k by (simp_all add: drop_read_guard_def enc_count)
    then show ?thesis using Reading u k le(5-7) by (auto simp: pc_preds)
  next
    case (Writing g)
    then have "pc' = Idle" "w' = enc False (cu = 1) (cb = 1) cr" "cw = 1"
      using f e p(1) le(5) by (simp_all add: drop_write_guard_def pc_preds)
    then show ?thesis using Writing u le(5-7) by (simp add: pc_preds)
  next
    case UpreadUndo
    then have c: "cu = 1" using p(2) le(6) by (simp add: pc_preds)
    then have "pc' = Idle" "w' = enc (cw = 1) False (cb = 1) cr"
      using UpreadUndo f by (simp_all add: try_upread_undo_def enc_count)
    then show ?thesis using UpreadUndo u c le(5-7) by (simp add: pc_preds)
  next
    case (Upreading g)
    then have c: "cu = 1" "up = 1" "cw = 0" "cb = 0" using p(2,4) le(3,5-8) by (cases "cw = 1"; simp add: pc_preds)+
    from f(1) Upreading consider "f = drop_upgradeable_guard" | "f = upgrade_start g" | "f = try_upgrade g (Upreading g)" by auto
    then show ?thesis
    proof cases
      case 1
      then have "pc' = Idle" "w' = enc False False (cb = 1) cr" using f(2) c by (simp_all add: drop_upgradeable_guard_def enc_count)
      then show ?thesis using Upreading u c le by (simp add: pc_preds)
    next
      case 2
      then have "pc' = Upgrading g" "w' = enc False True True cr" using f(2) c e by (simp_all add: upgrade_start_def)
      then show ?thesis using Upreading u c le by (simp add: pc_preds)
    next
      case 3
      then have "pc' = Upreading g" "w' = enc (cw = 1) (cu = 1) (cb = 1) cr"
        using f(2) c e by (simp_all add: try_upgrade_def)
      then show ?thesis using Upreading u c le by (simp add: pc_preds)
    qed
  next
    case (Upgrading g)
    then have c: "cu = 1" "up = 1" "cw = 0" "cb = 1" using p(2-4) le(2,3,5-7) by (cases "cw = 1"; simp add: pc_preds)+
    show ?thesis
    proof (cases "cr = 0")
      case True
      then have "pc' = Upgraded g" "w' = enc True True False 0"
        using f Upgrading c e by (simp_all add: try_upgrade_def enc_consts(5))
      then show ?thesis using Upgrading True u c le by (simp add: pc_preds)
    next
      case False
      then have "pc' = Upgrading g" "w' = enc (cw = 1) (cu = 1) (cb = 1) cr"
        using f Upgrading c e by (simp_all add: try_upgrade_def)
      then show ?thesis using Upgrading u c le by (simp add: pc_preds)
    qed
  next
    case (Upgraded g)
    then have c: "cw = 1" "cu = 1" using p(1,2) le(5,6) by (auto simp: pc_preds)
    then have "pc' = Writing g" "w' = enc True False (cb = 1) cr"
      using Upgraded f by (simp_all add: upgraded_drop_def drop_upgradeable_guard_def enc_count)
    then show ?thesis using Upgraded u c le(5-7) by (simp add: pc_preds)
  qed
qed

lemma count_less:
  assumes "i < length xs" "Q (xs ! i)" "\<not> P (xs ! i)" "\<And>x. P x \<Longrightarrow> Q x"
  shows "count P xs < count Q xs"
  using assms
proof (induction xs arbitrary: i)
  case (Cons x xs)
  have m: "count P xs \<le> count Q xs" by (rule count_mono) (rule Cons.prems(4))
  show ?case
  proof (cases i)
    case 0
    then show ?thesis using Cons.prems m by (simp add: count_def)
  next
    case (Suc k)
    then have "count P xs < count Q xs" using Cons.IH [of k] Cons.prems by simp
    then show ?thesis using Cons.prems(4) [of x] by (auto simp: count_def)
  qed
qed simp

lemma rw_inv_step:
  assumes "rw_step s s'" "rw_inv s" "length (rw_agents s) < 2 ^ 60"
  shows "rw_inv s' \<and> length (rw_agents s') = length (rw_agents s)"
  using assms(1)
proof cases
  case (1 i f pc' w')
  let ?xs = "rw_agents s" and ?pc = "rw_agents s ! i"
  note I = rw_invD [OF assms(2)]
  have r: "count counts_reader ?xs < 2 ^ 60" using count_le [of counts_reader ?xs] assms(3) by simp
  note cu = count_update [OF 1(2), of _ pc']
  note cp = count_pos [OF 1(2)]
  have "rw_inv s'"
    using rw_op_counts [OF 1(3) 1(4) [unfolded I(4)] cu cu cu cu cu cu cp cp cp cp cp cp r
        count_mono [OF pc_mono(1)] count_mono [OF pc_mono(2)] count_mono [OF pc_mono(3)] I(1-3)
        count_less [OF 1(2) _ _ pc_mono(1)]]
    by (simp add: 1(1) rw_inv_def Let_def)
  then show ?thesis using 1(1) by simp
qed

lemma rw_inv_init: "rw_inv (rw_init n)"
  by (simp add: rw_inv_def rw_init_def rw_new_def count_def pc_preds Let_def enc_consts(3) [symmetric])

lemma rw_reachable_inv: "rw_reachable n s \<Longrightarrow> n < 2 ^ 60 \<Longrightarrow> rw_inv s \<and> length (rw_agents s) = n"
proof (induction rule: rw_reachable.induct)
  case rw_reach_init
  then show ?case using rw_inv_init by (simp add: rw_init_def)
next
  case (rw_reach_step s s')
  then show ?case using rw_inv_step [of s s'] by simp
qed

lemma count_unique:
  assumes "count P xs \<le> 1" "i < length xs" "j < length xs" "P (xs ! i)" "P (xs ! j)"
  shows "i = j"
  using assms
proof (induction xs arbitrary: i j)
  case (Cons x xs)
  have z: "\<not> P (xs ! k)" if "P x" "k < length xs" for k
    using Cons.prems(1) that count_pos [of k xs P] by (auto simp: count_def)
  have l: "count P xs \<le> 1" using Cons.prems(1) by (auto simp: count_def split: if_splits)
  show ?case using Cons.prems(2-) z Cons.IH [OF l] by (cases i; cases j) auto
qed simp

lemma count_zero: "count P xs = 0 \<longleftrightarrow> (\<forall>i<length xs. \<not> P (xs ! i))"
  by (auto simp: count_def filter_empty_conv all_set_conv_all_nth)

lemma rw_exclusion:
  assumes "rw_reachable n s" "n < 2 ^ 60" "i < n" "j < n" "i \<noteq> j"
  shows "\<not> (is_writer (rw_agents s ! i) \<and> (is_writer (rw_agents s ! j) \<or> is_reader (rw_agents s ! j) \<or> is_upreader (rw_agents s ! j)))
    \<and> \<not> (is_upreader (rw_agents s ! i) \<and> is_upreader (rw_agents s ! j))"
proof
  have l: "length (rw_agents s) = n" and I: "rw_inv s" using rw_reachable_inv [OF assms(1,2)] by auto
  let ?xs = "rw_agents s"
  note c = rw_invD [OF I]
  show "\<not> (is_upreader (?xs ! i) \<and> is_upreader (?xs ! j))"
    using count_unique [OF c(2), of i j] pc_mono(2) assms l by blast
  show "\<not> (is_writer (?xs ! i) \<and> (is_writer (?xs ! j) \<or> is_reader (?xs ! j) \<or> is_upreader (?xs ! j)))"
  proof
    assume a: "is_writer (?xs ! i) \<and> (is_writer (?xs ! j) \<or> is_reader (?xs ! j) \<or> is_upreader (?xs ! j))"
    then have "count is_writer ?xs = 1" using count_pos [of i ?xs is_writer] c(1) assms l by simp
    then show False using a c(3) count_unique [OF c(1), of i j] assms l by (auto simp: count_zero)
  qed
qed

section \<open>Properties\<close>

text \<open>C2: Mutual exclusion of the read-write lock, under any interleaving of the atomic operations of any
  number of agents below \<open>2 ^ 60\<close>: a write guard excludes every other write, read and upread guard; an
  upread guard excludes other upread guards and admits readers.\<close>

theorem rwlock_mutual_exclusion:
  assumes "rw_reachable n s" "n < 2 ^ 60" "i < n" "j < n" "i \<noteq> j"
  shows "\<not> (is_writer (rw_agents s ! i) \<and> (is_writer (rw_agents s ! j) \<or> is_reader (rw_agents s ! j) \<or> is_upreader (rw_agents s ! j)))
    \<and> \<not> (is_upreader (rw_agents s ! i) \<and> is_upreader (rw_agents s ! j))"
  by (rule rw_exclusion [OF assms])

text \<open>Agent 0 has an upread guard and agent 1 a read guard.\<close>

definition rw_shared :: rw_state where
  "rw_shared = \<lparr>rw_word = snd (try_read (snd (try_upread rw_new))), rw_agents = [Upreading PreemptGuard, Reading PreemptGuard]\<rparr>"

lemma rw_shared_reachable: "rw_reachable 2 rw_shared"
proof -
  have 1: "rw_step (rw_init 2) \<lparr>rw_word = snd (try_upread rw_new), rw_agents = [Upreading PreemptGuard, Idle]\<rparr>"
    using rw_step.intros [of 0 "rw_init 2" try_upread "Upreading PreemptGuard" "snd (try_upread rw_new)"]
    by (simp add: rw_init_def rw_new_def try_upread_def try_upread_with_def numeral_2_eq_2)
  have 2: "rw_step \<lparr>rw_word = snd (try_upread rw_new), rw_agents = [Upreading PreemptGuard, Idle]\<rparr> rw_shared"
    using rw_step.intros [of 1 "\<lparr>rw_word = snd (try_upread rw_new), rw_agents = [Upreading PreemptGuard, Idle]\<rparr>" try_read "Reading PreemptGuard"
        "snd (try_read (snd (try_upread rw_new)))"]
    by (simp add: rw_shared_def rw_new_def try_upread_def try_upread_with_def try_read_def try_read_with_def rw_consts)
  show ?thesis by (rule rw_reach_step [OF rw_reach_step [OF rw_reach_init 1] 2])
qed

theorem rwlock_mutual_exclusion_witness:
  "\<not> (is_upreader (rw_agents rw_shared ! 0) \<and> is_upreader (rw_agents rw_shared ! 1)) \<and> is_upreader (rw_agents rw_shared ! 0)"
  using rwlock_mutual_exclusion [OF rw_shared_reachable, of 0 1] by (simp add: rw_shared_def is_upreader_def)

section \<open>Progress\<close>

definition rw_todo :: "rw_pc \<Rightarrow> nat" where
  "rw_todo pc = (case pc of Idle \<Rightarrow> 0 | Upgrading _ \<Rightarrow> 3 | Upgraded _ \<Rightarrow> 2 | _ \<Rightarrow> 1)"

lemma sum_list_update_less:
  assumes "i < length xs" "f y < f (xs ! i)"
  shows "sum_list (map f (xs[i := y])) < (sum_list (map f xs) :: nat)"
  using assms
proof (induction xs arbitrary: i)
  case (Cons x xs)
  then show ?case by (cases i) auto
qed simp

text \<open>Unless every agent is idle, some agent can go on towards giving the lock back.\<close>

lemma rw_next:
  assumes I: "rw_inv s" and n: "length (rw_agents s) < 2 ^ 60" and x: "i < length (rw_agents s)" "rw_agents s ! i \<noteq> Idle"
  shows "\<exists>s'. rw_step s s' \<and> sum_list (map rw_todo (rw_agents s')) < sum_list (map rw_todo (rw_agents s))"
proof -
  have go: ?thesis if "j < length (rw_agents s)" "f \<in> set (rw_ops (rw_agents s ! j))" "rw_todo (fst (f (rw_word s))) < rw_todo (rw_agents s ! j)" for j f
  proof -
    let ?s' = "s\<lparr>rw_word := snd (f (rw_word s)), rw_agents := (rw_agents s)[j := fst (f (rw_word s))]\<rparr>"
    have "rw_step s ?s'" by (rule rw_step.intros [OF that(1,2)]) simp
    moreover have "sum_list (map rw_todo (rw_agents ?s')) < sum_list (map rw_todo (rw_agents s))"
      using sum_list_update_less [OF that(1,3)] by simp
    ultimately show ?thesis by blast
  qed
  show ?thesis
  proof (cases "\<exists>j<length (rw_agents s). rw_agents s ! j \<noteq> Idle \<and> \<not> is_upgrading (rw_agents s ! j)")
    case True
    then obtain j where j: "j < length (rw_agents s)" "rw_agents s ! j \<noteq> Idle" "\<not> is_upgrading (rw_agents s ! j)" by blast
    then show ?thesis
      by (cases "rw_agents s ! j")
        (auto intro: go [OF j(1)] simp: rw_todo_def is_upgrading_def try_read_undo_def try_upread_undo_def drop_read_guard_def
          drop_write_guard_def drop_upgradeable_guard_def upgraded_drop_def)
  next
    case False
    then have "is_upgrading (rw_agents s ! i)" using x by blast
    then obtain g where g: "rw_agents s ! i = Upgrading g" by (cases "rw_agents s ! i") (auto simp: is_upgrading_def)
    have "\<not> is_writer (rw_agents s ! j) \<and> \<not> counts_reader (rw_agents s ! j)" if "j < length (rw_agents s)" for j
      using False that by (cases "rw_agents s ! j") (auto simp: pc_preds)
    then have z: "count is_writer (rw_agents s) = 0" "count counts_reader (rw_agents s) = 0" by (auto simp: count_zero)
    have p: "0 < count is_upgrading (rw_agents s)" "0 < count owns_up (rw_agents s)"
      using count_pos [OF x(1), of is_upgrading] count_pos [OF x(1), of owns_up] g by (simp_all add: pc_preds)
    moreover have "count is_upgrading (rw_agents s) \<le> count owns_up (rw_agents s)" by (rule count_mono) (rule pc_mono(2) [OF pc_mono(1)])
    ultimately have "rw_word s = enc False True True 0" using rw_invD(2,4) [OF I] z by simp
    then have "fst (try_upgrade g (Upgrading g) (rw_word s)) = Upgraded g" by (simp add: try_upgrade_def enc_tests)
    then show ?thesis by (intro go [OF x(1), of "try_upgrade g (Upgrading g)"]) (simp_all add: g rw_todo_def)
  qed
qed

text \<open>C32: The lock cannot deadlock or leak: from every reachable state some sequence of steps, in which
  the agents that hold or try to get a guard go on, ends with every agent idle, and then the lock word
  is zero, so that any kind of guard can be had at the first attempt.\<close>

theorem rwlock_deadlock_free:
  assumes "rw_reachable n s" "n < 2 ^ 60"
  shows "\<exists>s'. rw_step\<^sup>*\<^sup>* s s' \<and> rw_agents s' = replicate n Idle \<and> rw_word s' = 0"
  using assms(1)
proof (induction "sum_list (map rw_todo (rw_agents s))" arbitrary: s rule: less_induct)
  case less
  have I: "rw_inv s" "length (rw_agents s) = n" using rw_reachable_inv [OF less.prems assms(2)] by auto
  show ?case
  proof (cases "\<exists>i<n. rw_agents s ! i \<noteq> Idle")
    case True
    then obtain s1 where s1: "rw_step s s1" "sum_list (map rw_todo (rw_agents s1)) < sum_list (map rw_todo (rw_agents s))"
      using rw_next [OF I(1)] I(2) assms(2) by blast
    obtain s' where "rw_step\<^sup>*\<^sup>* s1 s'" "rw_agents s' = replicate n Idle" "rw_word s' = 0"
      using less.hyps [OF s1(2) rw_reach_step [OF less.prems s1(1)]] by blast
    then show ?thesis using s1(1) by (meson converse_rtranclp_into_rtranclp)
  next
    case False
    then have e: "rw_agents s = replicate n Idle" using I(2) by (intro nth_equalityI) auto
    have "rw_word s = 0" using rw_invD(4) [OF I(1)] by (simp add: e count_def pc_preds enc_consts(3) [symmetric])
    then show ?thesis using e by blast
  qed
qed

theorem rwlock_deadlock_free_witness:
  "\<exists>s'. rw_step\<^sup>*\<^sup>* rw_shared s' \<and> rw_agents s' = [Idle, Idle] \<and> rw_word s' = 0"
proof -
  have "(2::nat) < 2 ^ 60" by simp
  then show ?thesis using rwlock_deadlock_free [OF rw_shared_reachable] by (simp add: numeral_2_eq_2)
qed

text \<open>\<^verbatim>\<open>try_upgrade\<close>, called on an upread guard, never succeeds, not even when the guard is the
  only one: it compares the word with one in which an upgrade is announced, and only \<^verbatim>\<open>upgrade\<close>
  announces it.\<close>

theorem try_upgrade_always_fails:
  assumes "rw_reachable n s" "n < 2 ^ 60" "i < n" "rw_agents s ! i = Upreading g"
  shows "try_upgrade g back (rw_word s) = (back, rw_word s)"
proof -
  have I: "rw_inv s" "length (rw_agents s) = n" using rw_reachable_inv [OF assms(1,2)] by auto
  have c: "count counts_reader (rw_agents s) < 2 ^ 60" using count_le [of counts_reader "rw_agents s"] I(2) assms(2) by simp
  have "count is_upgrading (rw_agents s) < count owns_up (rw_agents s)"
    by (rule count_less [of i]) (use assms I(2) in \<open>auto simp: pc_preds split: rw_pc.splits\<close>)
  then have "count is_upgrading (rw_agents s) \<noteq> 1" using rw_invD(2) [OF I(1)] by simp
  then show ?thesis using rw_invD(4) [OF I(1)] enc_tests(2) [OF c] by (simp add: try_upgrade_def)
qed

theorem try_upgrade_always_fails_witness:
  "try_upgrade PreemptGuard (Upreading PreemptGuard) (rw_word rw_shared) = (Upreading PreemptGuard, rw_word rw_shared)"
  using try_upgrade_always_fails [OF rw_shared_reachable, of 0 PreemptGuard] by (simp add: rw_shared_def)

end
