(* ===== verification/Sleep_Lock.thy ===== *)
theory Sleep_Lock
  imports Prelude
begin

text \<open>
  The wait queue and the sleeping mutex of \<^verbatim>\<open>framework/aster-frame/src/sync/\<close>\<^verbatim>\<open>{wait,mutex}.rs\<close>, as a
  machine whose steps are the atomic operations. An agent is one call of \<^verbatim>\<open>lock\<close> with the life of its
  guard; the agents interleave arbitrarily. A waiter belongs to one agent and is named by it.
\<close>

section \<open>The wait queue\<close>

record waiter =
  w_agent :: nat
  w_exclusive :: bool

text \<open>\<^verbatim>\<open>Waiter::new\<close> has no flags, so it is not exclusive.\<close>

definition waiter_new :: "nat \<Rightarrow> waiter" where
  "waiter_new i = \<lparr>w_agent = i, w_exclusive = False\<rparr>"

record wait_queue =
  wq_waiters :: "waiter list"
  wq_woken :: "nat \<Rightarrow> bool"

definition wq_new :: wait_queue where
  "wq_new = \<lparr>wq_waiters = [], wq_woken = (\<lambda>_. False)\<rparr>"

definition wq_enqueue :: "waiter \<Rightarrow> wait_queue \<Rightarrow> wait_queue" where
  "wq_enqueue w q =
     (if w_exclusive w then q\<lparr>wq_waiters := wq_waiters q @ [w]\<rparr> else q\<lparr>wq_waiters := w # wq_waiters q\<rparr>)"

definition wq_dequeue :: "nat \<Rightarrow> wait_queue \<Rightarrow> wait_queue" where
  "wq_dequeue i q = q\<lparr>wq_waiters := filter (\<lambda>w. w_agent w \<noteq> i) (wq_waiters q)\<rparr>"

definition wq_is_empty :: "wait_queue \<Rightarrow> bool" where
  "wq_is_empty q \<longleftrightarrow> wq_waiters q = []"

definition wake_up :: "waiter \<Rightarrow> wait_queue \<Rightarrow> wait_queue" where
  "wake_up w q = q\<lparr>wq_woken := (wq_woken q)(w_agent w := True)\<rparr>"

definition wake_one :: "wait_queue \<Rightarrow> wait_queue" where
  "wake_one q = (case wq_waiters q of [] \<Rightarrow> q | w # _ \<Rightarrow> wake_up w q)"

fun wake_loop :: "waiter list \<Rightarrow> wait_queue \<Rightarrow> wait_queue" where
  "wake_loop [] q = q"
| "wake_loop (w # ws) q = (let q' = wake_up w q in if w_exclusive w then q' else wake_loop ws q')"

definition wake_all :: "wait_queue \<Rightarrow> wait_queue" where
  "wake_all q = wake_loop (wq_waiters q) q"

section \<open>The mutex\<close>

record mutex =
  mx_lock :: bool
  mx_queue :: wait_queue

definition mutex_new :: mutex where
  "mutex_new = \<lparr>mx_lock = False, mx_queue = wq_new\<rparr>"

definition acquire_lock :: "mutex \<Rightarrow> bool \<times> mutex" where
  "acquire_lock m = (if mx_lock m then (False, m) else (True, m\<lparr>mx_lock := True\<rparr>))"

definition mx_try_lock :: "mutex \<Rightarrow> bool \<times> mutex" where
  "mx_try_lock m = acquire_lock m"

definition release_lock :: "mutex \<Rightarrow> mutex" where
  "release_lock m = m\<lparr>mx_lock := False\<rparr>"

text \<open>
  Where an agent stands in \<^verbatim>\<open>lock\<close>, that is in \<^verbatim>\<open>do_wait\<close> without a timeout, or in \<^verbatim>\<open>unlock\<close>:
  about to enqueue its waiter, about to test the condition in the loop, in \<^verbatim>\<open>Waiter::wait\<close>, about to
  reset the woken flag, about to dequeue with the lock taken, in the critical section, about to wake
  the next waiter.
\<close>

datatype mx_pc = MIdle | MEnqueue | MCheck | MWait | MClear | MDequeue | MHold | MWake

definition on_queue :: "(wait_queue \<Rightarrow> wait_queue) \<Rightarrow> mutex \<Rightarrow> mutex" where
  "on_queue f m = m\<lparr>mx_queue := f (mx_queue m)\<rparr>"

text \<open>The next atomic operation of an agent; \<open>None\<close>: the agent sleeps.\<close>

fun mx_act :: "nat \<Rightarrow> mx_pc \<Rightarrow> mutex \<Rightarrow> (mx_pc \<times> mutex) option" where
  "mx_act i MIdle m = (case mx_try_lock m of (ok, m') \<Rightarrow> Some (if ok then MHold else MEnqueue, m'))"
| "mx_act i MEnqueue m = Some (MCheck, on_queue (\<lambda>q. wq_enqueue (waiter_new i) (q\<lparr>wq_woken := (wq_woken q)(i := False)\<rparr>)) m)"
| "mx_act i MCheck m = (case mx_try_lock m of (ok, m') \<Rightarrow> Some (if ok then MDequeue else MWait, m'))"
| "mx_act i MWait m = (if wq_woken (mx_queue m) i then Some (MClear, m) else None)"
| "mx_act i MClear m = Some (MCheck, on_queue (\<lambda>q. q\<lparr>wq_woken := (wq_woken q)(i := False)\<rparr>) m)"
| "mx_act i MDequeue m = Some (MHold, on_queue (wq_dequeue i) m)"
| "mx_act i MHold m = Some (MWake, release_lock m)"
| "mx_act i MWake m = Some (MIdle, on_queue wake_one m)"

record mx_state =
  mx_mutex :: mutex
  mx_agents :: "mx_pc list"

inductive mx_step :: "mx_state \<Rightarrow> mx_state \<Rightarrow> bool" where
  mx_stepI: "i < length (mx_agents s) \<Longrightarrow> mx_act i (mx_agents s ! i) (mx_mutex s) = Some (pc', m') \<Longrightarrow>
   mx_step s (s\<lparr>mx_mutex := m', mx_agents := (mx_agents s)[i := pc']\<rparr>)"

definition mx_init :: "nat \<Rightarrow> mx_state" where
  "mx_init n = \<lparr>mx_mutex = mutex_new, mx_agents = replicate n MIdle\<rparr>"

inductive mx_reachable :: "nat \<Rightarrow> mx_state \<Rightarrow> bool" for n where
  mx_reach_init: "mx_reachable n (mx_init n)"
| mx_reach_step: "mx_reachable n s \<Longrightarrow> mx_step s s' \<Longrightarrow> mx_reachable n s'"

section \<open>The invariant\<close>

definition holds_lock :: "mx_pc \<Rightarrow> bool" where
  "holds_lock pc \<longleftrightarrow> pc = MHold \<or> pc = MDequeue"

definition queued :: "mx_pc \<Rightarrow> bool" where
  "queued pc \<longleftrightarrow> pc = MCheck \<or> pc = MWait \<or> pc = MClear \<or> pc = MDequeue"

definition asleep :: "mx_state \<Rightarrow> nat \<Rightarrow> bool" where
  "asleep s i \<longleftrightarrow> i < length (mx_agents s) \<and> mx_agents s ! i = MWait \<and> \<not> wq_woken (mx_queue (mx_mutex s)) i"

abbreviation mx_waiters :: "mx_state \<Rightarrow> nat list" where
  "mx_waiters s \<equiv> map w_agent (wq_waiters (mx_queue (mx_mutex s)))"

text \<open>
  The lock is taken exactly when an agent has it; the queue holds exactly the agents that wait; and if
  the lock is free while agents wait, either somebody is about to wake the first of them, or the first
  of them is awake and will look at the lock.
\<close>

definition mx_inv :: "mx_state \<Rightarrow> bool" where
  "mx_inv s \<longleftrightarrow>
     (\<forall>i<length (mx_agents s). \<forall>j<length (mx_agents s). holds_lock (mx_agents s ! i) \<longrightarrow> holds_lock (mx_agents s ! j) \<longrightarrow> i = j) \<and>
     (mx_lock (mx_mutex s) \<longleftrightarrow> (\<exists>i<length (mx_agents s). holds_lock (mx_agents s ! i))) \<and>
     distinct (mx_waiters s) \<and> (\<forall>w\<in>set (wq_waiters (mx_queue (mx_mutex s))). \<not> w_exclusive w) \<and>
     (\<forall>i. i \<in> set (mx_waiters s) \<longleftrightarrow> i < length (mx_agents s) \<and> queued (mx_agents s ! i)) \<and>
     (\<not> mx_lock (mx_mutex s) \<longrightarrow> mx_waiters s \<noteq> [] \<longrightarrow>
        (\<exists>i<length (mx_agents s). mx_agents s ! i = MWake) \<or> \<not> asleep s (hd (mx_waiters s)))"

lemma mx_invI:
  assumes "\<And>i j. i < length (mx_agents s) \<Longrightarrow> j < length (mx_agents s) \<Longrightarrow> holds_lock (mx_agents s ! i) \<Longrightarrow> holds_lock (mx_agents s ! j) \<Longrightarrow> i = j"
    "mx_lock (mx_mutex s) \<longleftrightarrow> (\<exists>i<length (mx_agents s). holds_lock (mx_agents s ! i))"
    "distinct (mx_waiters s)" "\<And>w. w \<in> set (wq_waiters (mx_queue (mx_mutex s))) \<Longrightarrow> \<not> w_exclusive w"
    "\<And>i. i \<in> set (mx_waiters s) \<longleftrightarrow> i < length (mx_agents s) \<and> queued (mx_agents s ! i)"
    "\<not> mx_lock (mx_mutex s) \<Longrightarrow> mx_waiters s \<noteq> [] \<Longrightarrow>
        (\<exists>i<length (mx_agents s). mx_agents s ! i = MWake) \<or> \<not> asleep s (hd (mx_waiters s))"
  shows "mx_inv s"
  unfolding mx_inv_def by (intro conjI allI ballI impI) (rule assms; assumption)+

lemma mx_invD:
  assumes "mx_inv s"
  shows "i < length (mx_agents s) \<Longrightarrow> j < length (mx_agents s) \<Longrightarrow> holds_lock (mx_agents s ! i) \<Longrightarrow> holds_lock (mx_agents s ! j) \<Longrightarrow> i = j"
    "mx_lock (mx_mutex s) \<longleftrightarrow> (\<exists>i<length (mx_agents s). holds_lock (mx_agents s ! i))"
    "distinct (mx_waiters s)" "w \<in> set (wq_waiters (mx_queue (mx_mutex s))) \<Longrightarrow> \<not> w_exclusive w"
    "i \<in> set (mx_waiters s) \<longleftrightarrow> i < length (mx_agents s) \<and> queued (mx_agents s ! i)"
    "\<not> mx_lock (mx_mutex s) \<Longrightarrow> mx_waiters s \<noteq> [] \<Longrightarrow>
        (\<exists>i<length (mx_agents s). mx_agents s ! i = MWake) \<or> \<not> asleep s (hd (mx_waiters s))"
  using assms unfolding mx_inv_def by blast+

lemma wq_simps [simp]:
  "mx_lock (on_queue f m) = mx_lock m" "mx_queue (on_queue f m) = f (mx_queue m)"
  "wq_waiters (wake_up w q) = wq_waiters q" "wq_woken (wake_up w q) = (wq_woken q)(w_agent w := True)"
  "wq_waiters (wake_one q) = wq_waiters q"
  "wq_waiters (wq_dequeue i q) = filter (\<lambda>w. w_agent w \<noteq> i) (wq_waiters q)" "wq_woken (wq_dequeue i q) = wq_woken q"
  "mx_lock (release_lock m) \<longleftrightarrow> False" "mx_queue (release_lock m) = mx_queue m"
  by (simp_all add: on_queue_def wake_up_def wake_one_def wq_dequeue_def release_lock_def split: list.splits)

lemma wq_enqueue_new [simp]:
  "wq_waiters (wq_enqueue (waiter_new i) q) = waiter_new i # wq_waiters q" "wq_woken (wq_enqueue (waiter_new i) q) = wq_woken q"
  by (simp_all add: wq_enqueue_def waiter_new_def)

lemma waiter_new_simps [simp]: "w_agent (waiter_new i) = i" "\<not> w_exclusive (waiter_new i)"
  by (simp_all add: waiter_new_def)

lemmas pc_defs = holds_lock_def queued_def

text \<open>A step that changes neither the lock nor the queue, nor takes an agent into or out of them.\<close>

lemma mx_inv_same:
  assumes I: "mx_inv s" and i: "i < length (mx_agents s)"
    and pc: "holds_lock pc' = holds_lock (mx_agents s ! i)" "queued pc' = queued (mx_agents s ! i)"
    and m: "mx_lock m' = mx_lock (mx_mutex s)" "wq_waiters (mx_queue m') = wq_waiters (mx_queue (mx_mutex s))"
    and j: "\<not> mx_lock (mx_mutex s) \<Longrightarrow> mx_waiters s \<noteq> [] \<Longrightarrow>
        (\<exists>k<length (mx_agents s). ((mx_agents s)[i := pc']) ! k = MWake) \<or>
        \<not> asleep (s\<lparr>mx_mutex := m', mx_agents := (mx_agents s)[i := pc']\<rparr>) (hd (mx_waiters s))"
  shows "mx_inv (s\<lparr>mx_mutex := m', mx_agents := (mx_agents s)[i := pc']\<rparr>)"
proof -
  note d = mx_invD [OF I]
  have h: "holds_lock (((mx_agents s)[i := pc']) ! k) = holds_lock (mx_agents s ! k)"
    "queued (((mx_agents s)[i := pc']) ! k) = queued (mx_agents s ! k)" for k
    using i pc by (cases "k = i"; simp)+
  show ?thesis
    by (rule mx_invI) (use d(1-5) j in \<open>auto simp: h m\<close>)
qed

lemma mx_inv_take:
  assumes I: "mx_inv s" and i: "i < length (mx_agents s)" "\<not> mx_lock (mx_mutex s)"
    and pc: "holds_lock pc'" "queued pc' = queued (mx_agents s ! i)"
  shows "mx_inv (s\<lparr>mx_mutex := (mx_mutex s)\<lparr>mx_lock := True\<rparr>, mx_agents := (mx_agents s)[i := pc']\<rparr>)"
proof -
  note d = mx_invD [OF I]
  have n: "\<not> holds_lock (mx_agents s ! k)" if "k < length (mx_agents s)" for k using d(2) i that by blast
  have h: "queued (((mx_agents s)[i := pc']) ! k) = queued (mx_agents s ! k)"
    "k < length (mx_agents s) \<Longrightarrow> holds_lock (((mx_agents s)[i := pc']) ! k) \<longleftrightarrow> k = i" for k
    using i pc n [of k] by (cases "k = i"; simp)+
  have "\<exists>k<length (mx_agents s). holds_lock (((mx_agents s)[i := pc']) ! k)" using i h(2) by blast
  then show ?thesis by (intro mx_invI) (use d(3-5) h(2) in \<open>auto simp: h(1)\<close>)
qed

lemma mx_inv_act:
  assumes I: "mx_inv s" and i: "i < length (mx_agents s)" and a: "mx_act i (mx_agents s ! i) (mx_mutex s) = Some (pc', m')"
  shows "mx_inv (s\<lparr>mx_mutex := m', mx_agents := (mx_agents s)[i := pc']\<rparr>)"
proof -
  note d = mx_invD [OF I]
  let ?s' = "s\<lparr>mx_mutex := m', mx_agents := (mx_agents s)[i := pc']\<rparr>"
  show ?thesis
  proof (cases "mx_agents s ! i")
    case MIdle
    show ?thesis
    proof (cases "mx_lock (mx_mutex s)")
      case True
      then show ?thesis using a MIdle by (intro mx_inv_same [OF I i]) (auto simp: mx_try_lock_def acquire_lock_def pc_defs)
    next
      case False
      then show ?thesis using a MIdle mx_inv_take [OF I i False, of MHold] by (auto simp: mx_try_lock_def acquire_lock_def pc_defs)
    qed
  next
    case MCheck
    show ?thesis
    proof (cases "mx_lock (mx_mutex s)")
      case True
      then show ?thesis using a MCheck by (intro mx_inv_same [OF I i]) (auto simp: mx_try_lock_def acquire_lock_def pc_defs)
    next
      case False
      then show ?thesis using a MCheck mx_inv_take [OF I i False, of MDequeue] by (auto simp: mx_try_lock_def acquire_lock_def pc_defs)
    qed
  next
    case MWait
    then have e: "pc' = MClear" "m' = mx_mutex s" "wq_woken (mx_queue (mx_mutex s)) i" using a by (auto split: if_splits)
    have "asleep ?s' k \<longrightarrow> asleep s k" for k using e i by (cases "k = i") (auto simp: asleep_def)
    moreover have "((mx_agents s)[i := pc']) ! k = MWake \<longleftrightarrow> mx_agents s ! k = MWake" for k using MWait e i by (cases "k = i") auto
    ultimately show ?thesis using MWait e d(6) by (intro mx_inv_same [OF I i]) (auto simp: pc_defs)
  next
    case MClear
    then have e: "pc' = MCheck" "m' = on_queue (\<lambda>q. q\<lparr>wq_woken := (wq_woken q)(i := False)\<rparr>) (mx_mutex s)" using a by auto
    have "asleep ?s' k \<longrightarrow> asleep s k" for k using e i by (cases "k = i") (auto simp: asleep_def)
    moreover have "((mx_agents s)[i := pc']) ! k = MWake \<longleftrightarrow> mx_agents s ! k = MWake" for k using MClear e i by (cases "k = i") auto
    ultimately show ?thesis using MClear e d(6) by (intro mx_inv_same [OF I i]) (auto simp: pc_defs)
  next
    case MWake
    then have e: "pc' = MIdle" "m' = on_queue wake_one (mx_mutex s)" using a by auto
    have "\<not> asleep ?s' (hd (mx_waiters s))" if "mx_waiters s \<noteq> []"
      using that e by (cases "wq_waiters (mx_queue (mx_mutex s))") (auto simp: asleep_def wake_one_def)
    then show ?thesis using MWake e by (intro mx_inv_same [OF I i]) (auto simp: pc_defs)
  next
    case MEnqueue
    have n: "i \<notin> set (mx_waiters s)" using d(5) [of i] MEnqueue by (simp add: pc_defs)
    have e: "pc' = MCheck" "mx_lock m' = mx_lock (mx_mutex s)" "wq_waiters (mx_queue m') = waiter_new i # wq_waiters (mx_queue (mx_mutex s))"
      using a MEnqueue by auto
    have h: "holds_lock (((mx_agents s)[i := pc']) ! k) = holds_lock (mx_agents s ! k)"
      "queued (((mx_agents s)[i := pc']) ! k) \<longleftrightarrow> k = i \<or> queued (mx_agents s ! k)" for k
      using i e MEnqueue by (cases "k = i"; simp add: pc_defs)+
    have "\<not> asleep ?s' i" using e i by (simp add: asleep_def)
    then show ?thesis by (intro mx_invI) (use d(1-5) n i in \<open>auto simp: h e(2,3)\<close>)
  next
    case MDequeue
    have e: "pc' = MHold" "m' = on_queue (wq_dequeue i) (mx_mutex s)" using a MDequeue by auto
    have h: "holds_lock (((mx_agents s)[i := pc']) ! k) = holds_lock (mx_agents s ! k)"
      "queued (((mx_agents s)[i := pc']) ! k) \<longleftrightarrow> k \<noteq> i \<and> queued (mx_agents s ! k)" for k
      using i e MDequeue by (cases "k = i"; simp add: pc_defs)+
    have lk: "mx_lock (mx_mutex s)" using d(2) i MDequeue by (auto simp: pc_defs)
    have f: "map w_agent (filter (\<lambda>w. w_agent w \<noteq> i) ws) = filter (\<lambda>k. k \<noteq> i) (map w_agent ws)" for ws by (simp add: filter_map comp_def)
    show ?thesis by (rule mx_invI) (use d(1-5) lk in \<open>auto simp: h e(2) f simp del: set_map filter_map\<close>)
  next
    case MHold
    have e: "pc' = MWake" "m' = release_lock (mx_mutex s)" using a MHold by auto
    have n: "\<not> holds_lock (((mx_agents s)[i := pc']) ! k)" if "k < length (mx_agents s)" for k
      using d(1) [OF that i] i e MHold by (cases "k = i") (auto simp: pc_defs)
    have h: "queued (((mx_agents s)[i := pc']) ! k) = queued (mx_agents s ! k)" for k
      using i e MHold by (cases "k = i") (simp_all add: pc_defs)
    have "\<exists>k<length (mx_agents s). ((mx_agents s)[i := pc']) ! k = MWake" using e i by (intro exI [of _ i]) simp
    then show ?thesis by (intro mx_invI) (use d(3-5) n i in \<open>auto simp: h e(2)\<close>)
  qed
qed

lemma mx_reachable_inv: "mx_reachable n s \<Longrightarrow> mx_inv s \<and> length (mx_agents s) = n"
proof (induction rule: mx_reachable.induct)
  case mx_reach_init
  have "mx_inv (mx_init n)" by (rule mx_invI) (auto simp: mx_init_def mutex_new_def wq_new_def pc_defs)
  then show ?case by (simp add: mx_init_def)
next
  case (mx_reach_step s s')
  from mx_reach_step.hyps(2) show ?case
    by cases (use mx_reach_step.IH mx_inv_act in auto)
qed

section \<open>Properties\<close>

text \<open>At most one agent is inside the mutex, under any interleaving of any number of agents, and the
  lock flag tells whether one is.\<close>

theorem mutex_exclusion:
  assumes "mx_reachable n s" "i < n" "j < n" "holds_lock (mx_agents s ! i)" "holds_lock (mx_agents s ! j)"
  shows "i = j \<and> mx_lock (mx_mutex s)"
  using mx_reachable_inv [OF assms(1)] mx_invD(1,2) assms(2-) by blast

text \<open>Agent 0 is in the critical section and agent 1 sleeps.\<close>

definition mx_contended :: mx_state where
  "mx_contended = \<lparr>mx_mutex = \<lparr>mx_lock = True, mx_queue = \<lparr>wq_waiters = [waiter_new 1], wq_woken = (\<lambda>_. False)\<rparr>\<rparr>,
     mx_agents = [MHold, MWait]\<rparr>"

lemma mx_stepI':
  "i < length (mx_agents s) \<Longrightarrow> mx_act i (mx_agents s ! i) (mx_mutex s) = Some (pc', m') \<Longrightarrow>
   s' = s\<lparr>mx_mutex := m', mx_agents := (mx_agents s)[i := pc']\<rparr> \<Longrightarrow> mx_step s s'"
  by (auto intro: mx_stepI)

lemma mx_contended_reachable: "mx_reachable 2 mx_contended"
proof -
  let ?m = "\<lparr>mx_lock = True, mx_queue = wq_new\<rparr>"
  have 1: "mx_step (mx_init 2) \<lparr>mx_mutex = ?m, mx_agents = [MHold, MIdle]\<rparr>"
    by (rule mx_stepI' [of 0]) (simp_all add: mx_init_def mutex_new_def mx_try_lock_def acquire_lock_def numeral_2_eq_2)
  have 2: "mx_step \<lparr>mx_mutex = ?m, mx_agents = [MHold, MIdle]\<rparr> \<lparr>mx_mutex = ?m, mx_agents = [MHold, MEnqueue]\<rparr>"
    by (rule mx_stepI' [of 1]) (simp_all add: mx_try_lock_def acquire_lock_def)
  have 3: "mx_step \<lparr>mx_mutex = ?m, mx_agents = [MHold, MEnqueue]\<rparr> (mx_contended\<lparr>mx_agents := [MHold, MCheck]\<rparr>)"
    by (rule mx_stepI' [of 1]) (auto simp: mx_contended_def on_queue_def wq_enqueue_def waiter_new_def wq_new_def)
  have 4: "mx_step (mx_contended\<lparr>mx_agents := [MHold, MCheck]\<rparr>) mx_contended"
    by (rule mx_stepI' [of 1]) (auto simp: mx_contended_def mx_try_lock_def acquire_lock_def)
  show ?thesis by (rule mx_reach_step [OF mx_reach_step [OF mx_reach_step [OF mx_reach_step [OF mx_reach_init 1] 2] 3] 4])
qed

theorem mutex_exclusion_witness: "(0::nat) = 0 \<and> mx_lock (mx_mutex mx_contended)"
  using mutex_exclusion [OF mx_contended_reachable, of 0 0] by (simp add: mx_contended_def pc_defs)

section \<open>No lost wake-up\<close>

text \<open>A step of an agent that has called \<^verbatim>\<open>lock\<close> already.\<close>

inductive mx_onward :: "mx_state \<Rightarrow> mx_state \<Rightarrow> bool" where
  mx_onwardI: "i < length (mx_agents s) \<Longrightarrow> mx_agents s ! i \<noteq> MIdle \<Longrightarrow> mx_act i (mx_agents s ! i) (mx_mutex s) = Some (pc', m') \<Longrightarrow>
   mx_onward s (s\<lparr>mx_mutex := m', mx_agents := (mx_agents s)[i := pc']\<rparr>)"

lemma mx_onward_step: "mx_onward s s' \<Longrightarrow> mx_step s s'"
  by (auto elim!: mx_onward.cases intro: mx_stepI)

definition mx_todo :: "mx_state \<Rightarrow> nat \<Rightarrow> nat" where
  "mx_todo s i = (case mx_agents s ! i of MIdle \<Rightarrow> 0 | MWake \<Rightarrow> 1 | MHold \<Rightarrow> 2 | MDequeue \<Rightarrow> 3 | MCheck \<Rightarrow> 4
     | MClear \<Rightarrow> 5 | MEnqueue \<Rightarrow> 5 | MWait \<Rightarrow> if wq_woken (mx_queue (mx_mutex s)) i then 6 else 7)"

lemma sum_less_one:
  fixes f g :: "nat \<Rightarrow> nat"
  assumes "i < n" "f i < g i" "\<And>k. k < n \<Longrightarrow> f k \<le> g k"
  shows "sum f {..<n} < sum g {..<n}"
  by (rule sum_strict_mono_ex1) (use assms in auto)

text \<open>An agent that gets on without having to wait for the lock.\<close>

lemma mx_progress:
  assumes i: "i < length (mx_agents s)" and a: "mx_act i (mx_agents s ! i) (mx_mutex s) = Some (pc', m')"
    and pc: "mx_agents s ! i \<noteq> MIdle" "mx_agents s ! i = MCheck \<Longrightarrow> \<not> mx_lock (mx_mutex s)"
  shows "\<exists>s'. mx_onward s s' \<and> sum (mx_todo s') {..<length (mx_agents s')} < sum (mx_todo s) {..<length (mx_agents s)}"
proof -
  let ?s' = "s\<lparr>mx_mutex := m', mx_agents := (mx_agents s)[i := pc']\<rparr>"
  have st: "mx_onward s ?s'" by (rule mx_onwardI [OF i pc(1) a])
  have w: "wq_woken (mx_queue (mx_mutex s)) k \<Longrightarrow> wq_woken (mx_queue m') k" if "k \<noteq> i" for k
    using a that by (cases "mx_agents s ! i")
      (auto simp: mx_try_lock_def acquire_lock_def wake_one_def split: if_splits list.splits)
  have le: "mx_todo ?s' k \<le> mx_todo s k" if "k \<noteq> i" for k
    using w [OF that] that by (auto simp: mx_todo_def split: mx_pc.splits)
  moreover have "mx_todo ?s' i < mx_todo s i"
    using a i pc by (cases "mx_agents s ! i")
      (auto simp: mx_todo_def mx_try_lock_def acquire_lock_def split: if_splits)
  ultimately have "sum (mx_todo ?s') {..<length (mx_agents s)} < sum (mx_todo s) {..<length (mx_agents s)}"
    by (intro sum_less_one [OF i]) (metis less_imp_le le)+
  then show ?thesis using st by (intro exI [of _ ?s']) simp
qed

lemma mx_next:
  assumes I: "mx_inv s" and b: "b < length (mx_agents s)" "mx_agents s ! b \<noteq> MIdle"
  shows "\<exists>s'. mx_onward s s' \<and> sum (mx_todo s') {..<length (mx_agents s')} < sum (mx_todo s) {..<length (mx_agents s)}"
proof (cases "\<exists>i<length (mx_agents s). mx_agents s ! i \<in> {MHold, MDequeue, MWake}")
  case True
  then obtain i where "i < length (mx_agents s)" "mx_agents s ! i \<in> {MHold, MDequeue, MWake}" by blast
  then show ?thesis by (cases "mx_agents s ! i") (auto intro!: mx_progress [of i])
next
  case False
  note d = mx_invD [OF I]
  have free: "\<not> mx_lock (mx_mutex s)" using d(2) False by (auto simp: pc_defs)
  show ?thesis
  proof (cases "\<exists>i<length (mx_agents s). mx_agents s ! i \<noteq> MIdle \<and> \<not> asleep s i")
    case True
    then obtain i where i: "i < length (mx_agents s)" "mx_agents s ! i \<noteq> MIdle" "\<not> asleep s i" by blast
    show ?thesis using i False free
      by (cases "mx_agents s ! i") (auto simp: asleep_def mx_try_lock_def acquire_lock_def intro!: mx_progress [of i])
  next
    case all: False
    then have "asleep s b" using b by blast
    then have "b \<in> set (mx_waiters s)" using d(5) [of b] by (simp add: asleep_def queued_def)
    then have ne: "mx_waiters s \<noteq> []" by auto
    then have "\<not> asleep s (hd (mx_waiters s))" using d(6) [OF free] False by auto
    moreover have "hd (mx_waiters s) \<in> set (mx_waiters s)" using ne by (rule hd_in_set)
    then have "hd (mx_waiters s) < length (mx_agents s) \<and> queued (mx_agents s ! hd (mx_waiters s))" unfolding d(5) .
    ultimately show ?thesis using all by (auto simp: queued_def)
  qed
qed

text \<open>C10: No wake-up is lost: from every reachable state, whatever agents hold the mutex, sleep on it or are
  about to sleep, the agents can run on, without a new call of \<^verbatim>\<open>lock\<close>, until all of them are out of the
  mutex, the lock is free and the queue is empty. So nobody sleeps for want of a wake-up.\<close>

theorem mutex_no_lost_wakeup:
  assumes "mx_reachable n s"
  shows "\<exists>s'. mx_onward\<^sup>*\<^sup>* s s' \<and> mx_agents s' = replicate n MIdle \<and> \<not> mx_lock (mx_mutex s') \<and> wq_is_empty (mx_queue (mx_mutex s'))"
  using assms
proof (induction "sum (mx_todo s) {..<length (mx_agents s)}" arbitrary: s rule: less_induct)
  case less
  have I: "mx_inv s" "length (mx_agents s) = n" using mx_reachable_inv [OF less.prems] by auto
  show ?case
  proof (cases "\<exists>i<n. mx_agents s ! i \<noteq> MIdle")
    case True
    then obtain s1 where s1: "mx_onward s s1" "sum (mx_todo s1) {..<length (mx_agents s1)} < sum (mx_todo s) {..<length (mx_agents s)}"
      using mx_next [OF I(1)] I(2) by blast
    show ?thesis using less.hyps [OF s1(2) mx_reach_step [OF less.prems mx_onward_step [OF s1(1)]]] s1(1)
      by (meson converse_rtranclp_into_rtranclp)
  next
    case False
    then have e: "mx_agents s = replicate n MIdle" using I(2) by (intro nth_equalityI) auto
    have "\<not> mx_lock (mx_mutex s)" using mx_invD(2) [OF I(1)] by (simp add: e pc_defs)
    moreover have "i \<notin> set (mx_waiters s)" for i using mx_invD(5) [OF I(1), of i] by (auto simp: e pc_defs)
    then have "set (mx_waiters s) = {}" by (metis equals0I)
    ultimately show ?thesis using e by (auto simp: wq_is_empty_def)
  qed
qed

theorem mutex_no_lost_wakeup_witness:
  "\<exists>s'. mx_onward\<^sup>*\<^sup>* mx_contended s' \<and> mx_agents s' = [MIdle, MIdle] \<and> \<not> mx_lock (mx_mutex s') \<and> wq_is_empty (mx_queue (mx_mutex s'))"
  using mutex_no_lost_wakeup [OF mx_contended_reachable] by (simp add: numeral_2_eq_2)

end
