(* ===== verification/Rw_Mutex.thy ===== *)
theory Rw_Mutex
  imports Rw_Lock Sleep_Lock
begin

unbundle bit_operations_syntax

text \<open>
  The sleeping read-write lock of \<^verbatim>\<open>framework/aster-frame/src/sync/rwmutex.rs\<close>. Its word follows the
  protocol of the spinning lock, which is shown by a simulation; in addition the agents sleep on a wait
  queue. Mutual exclusion carries over. A wake-up is missing: dropping an upread guard wakes nobody.
\<close>

section \<open>Operations\<close>














section \<open>The machine\<close>













section \<open>The simulation\<close>








section \<open>Properties\<close>







end
