(* ===== verification/Credentials.thy ===== *)
theory Credentials
  imports BTree_Map
begin

text \<open>
  The credentials of a thread: \<^verbatim>\<open>process/credentials/credentials_.rs\<close>, \<^verbatim>\<open>user.rs\<close> and \<^verbatim>\<open>group.rs\<close>
  of \<^verbatim>\<open>services/libs/aster-std/src\<close>, with the system calls that read and set user and group ids.

  The code for users and the code for groups have the same shape, with the privilege of the effective
  user in both; the definitions are made once over the four ids and used twice.
\<close>

section \<open>Ids\<close>

record ids =
  id_r :: nat
  id_e :: nat
  id_s :: nat
  id_fs :: nat

definition ids_new :: "nat \<Rightarrow> ids" where
  "ids_new i = \<lparr>id_r = i, id_e = i, id_s = i, id_fs = i\<rparr>"

definition check_id_perm :: "bool \<Rightarrow> ids \<Rightarrow> nat option \<Rightarrow> nat option \<Rightarrow> nat option \<Rightarrow> bool \<Rightarrow> unit res" where
  "check_id_perm privileged i r e s r_may_be_old_s =
     (if privileged then Ok ()
      else if (case r of Some x \<Rightarrow> x \<noteq> id_r i \<and> x \<noteq> id_e i \<and> (\<not> r_may_be_old_s \<or> x \<noteq> id_s i) | None \<Rightarrow> False) then Err EPERM
      else if (case e of Some x \<Rightarrow> x \<noteq> id_r i \<and> x \<noteq> id_e i \<and> x \<noteq> id_s i | None \<Rightarrow> False) then Err EPERM
      else if (case s of Some x \<Rightarrow> x \<noteq> id_r i \<and> x \<noteq> id_e i \<and> x \<noteq> id_s i | None \<Rightarrow> False) then Err EPERM
      else Ok ())"

definition set_res_unchecked :: "nat option \<Rightarrow> nat option \<Rightarrow> nat option \<Rightarrow> ids \<Rightarrow> ids" where
  "set_res_unchecked r e s i =
     i\<lparr>id_r := (case r of Some x \<Rightarrow> x | None \<Rightarrow> id_r i), id_e := (case e of Some x \<Rightarrow> x | None \<Rightarrow> id_e i),
       id_s := (case s of Some x \<Rightarrow> x | None \<Rightarrow> id_s i)\<rparr>"

definition set_id :: "bool \<Rightarrow> nat \<Rightarrow> ids \<Rightarrow> ids" where
  "set_id privileged x i = (if privileged then i\<lparr>id_r := x, id_e := x, id_s := x\<rparr> else i\<lparr>id_e := x\<rparr>)"

definition set_re :: "bool \<Rightarrow> nat option \<Rightarrow> nat option \<Rightarrow> ids \<Rightarrow> ids res" where
  "set_re privileged r e i =
     rbind (check_id_perm privileged i r e None False) (\<lambda>_.
       let should_set_s = (r \<noteq> None \<or> (case e of Some x \<Rightarrow> x \<noteq> id_r i | None \<Rightarrow> False));
           i1 = set_res_unchecked r e None i;
           i2 = (if should_set_s then i1\<lparr>id_s := id_e i1\<rparr> else i1)
       in Ok (i2\<lparr>id_fs := id_e i2\<rparr>))"

definition set_res :: "bool \<Rightarrow> nat option \<Rightarrow> nat option \<Rightarrow> nat option \<Rightarrow> ids \<Rightarrow> ids res" where
  "set_res privileged r e s i =
     rbind (check_id_perm privileged i r e s True) (\<lambda>_.
       let i1 = set_res_unchecked r e s i in Ok (i1\<lparr>id_fs := id_e i1\<rparr>))"

definition set_fs :: "bool \<Rightarrow> nat option \<Rightarrow> ids \<Rightarrow> (nat \<times> ids) res" where
  "set_fs privileged fs i =
     (case fs of
        None \<Rightarrow> Ok (id_fs i, i)
      | Some x \<Rightarrow>
          if \<not> privileged \<and> x \<noteq> id_r i \<and> x \<noteq> id_e i \<and> x \<noteq> id_s i then Err EPERM
          else Ok (id_fs i, i\<lparr>id_fs := x\<rparr>))"

section \<open>Credentials\<close>

record credentials =
  c_uid :: ids
  c_gid :: ids
  c_groups :: "(nat, unit) btree_map"

definition cred_new :: "nat \<Rightarrow> nat \<Rightarrow> credentials" where
  "cred_new uid gid = \<lparr>c_uid = ids_new uid, c_gid = ids_new gid, c_groups = btm_insert gid () []\<rparr>"

definition ROOT_UID :: nat where "ROOT_UID = 0"

definition cred_new_root :: credentials where
  "cred_new_root = cred_new ROOT_UID 0"

definition is_privileged :: "credentials \<Rightarrow> bool" where
  "is_privileged c \<longleftrightarrow> id_e (c_uid c) = ROOT_UID"

definition set_uid :: "nat \<Rightarrow> credentials \<Rightarrow> credentials" where
  "set_uid uid c = c\<lparr>c_uid := set_id (is_privileged c) uid (c_uid c)\<rparr>"

definition set_reuid :: "nat option \<Rightarrow> nat option \<Rightarrow> credentials \<Rightarrow> credentials res" where
  "set_reuid ruid euid c = rmap (\<lambda>i. c\<lparr>c_uid := i\<rparr>) (set_re (is_privileged c) ruid euid (c_uid c))"

definition set_resuid :: "nat option \<Rightarrow> nat option \<Rightarrow> nat option \<Rightarrow> credentials \<Rightarrow> credentials res" where
  "set_resuid ruid euid suid c = rmap (\<lambda>i. c\<lparr>c_uid := i\<rparr>) (set_res (is_privileged c) ruid euid suid (c_uid c))"

definition set_fsuid :: "nat option \<Rightarrow> credentials \<Rightarrow> (nat \<times> credentials) res" where
  "set_fsuid fsuid c = rmap (\<lambda>(old, i). (old, c\<lparr>c_uid := i\<rparr>)) (set_fs (is_privileged c) fsuid (c_uid c))"

definition set_gid :: "nat \<Rightarrow> credentials \<Rightarrow> credentials" where
  "set_gid gid c = c\<lparr>c_gid := set_id (is_privileged c) gid (c_gid c)\<rparr>"

definition set_regid :: "nat option \<Rightarrow> nat option \<Rightarrow> credentials \<Rightarrow> credentials res" where
  "set_regid rgid egid c = rmap (\<lambda>i. c\<lparr>c_gid := i\<rparr>) (set_re (is_privileged c) rgid egid (c_gid c))"

definition set_resgid :: "nat option \<Rightarrow> nat option \<Rightarrow> nat option \<Rightarrow> credentials \<Rightarrow> credentials res" where
  "set_resgid rgid egid sgid c = rmap (\<lambda>i. c\<lparr>c_gid := i\<rparr>) (set_res (is_privileged c) rgid egid sgid (c_gid c))"

definition set_fsgid :: "nat option \<Rightarrow> credentials \<Rightarrow> (nat \<times> credentials) res" where
  "set_fsgid fsgid c = rmap (\<lambda>(old, i). (old, c\<lparr>c_gid := i\<rparr>)) (set_fs (is_privileged c) fsgid (c_gid c))"

text \<open>\<^verbatim>\<open>set_euid\<close>, \<^verbatim>\<open>reset_suid\<close> and their counterparts for groups are what \<^verbatim>\<open>execve\<close> of a program
  with the set-user-id or set-group-id bit uses.\<close>

definition set_euid :: "nat \<Rightarrow> credentials \<Rightarrow> credentials" where
  "set_euid euid c = c\<lparr>c_uid := (c_uid c)\<lparr>id_e := euid\<rparr>\<rparr>"

definition reset_suid :: "credentials \<Rightarrow> credentials" where
  "reset_suid c = c\<lparr>c_uid := (c_uid c)\<lparr>id_s := id_e (c_uid c)\<rparr>\<rparr>"

definition set_egid :: "nat \<Rightarrow> credentials \<Rightarrow> credentials" where
  "set_egid egid c = c\<lparr>c_gid := (c_gid c)\<lparr>id_e := egid\<rparr>\<rparr>"

definition reset_sgid :: "credentials \<Rightarrow> credentials" where
  "reset_sgid c = c\<lparr>c_gid := (c_gid c)\<lparr>id_s := id_e (c_gid c)\<rparr>\<rparr>"

definition set_uid_from_elf :: "nat option \<Rightarrow> credentials \<Rightarrow> credentials" where
  "set_uid_from_elf owner c = reset_suid (case owner of Some uid \<Rightarrow> set_euid uid c | None \<Rightarrow> c)"

definition set_gid_from_elf :: "nat option \<Rightarrow> credentials \<Rightarrow> credentials" where
  "set_gid_from_elf owner c = reset_sgid (case owner of Some gid \<Rightarrow> set_egid gid c | None \<Rightarrow> c)"

section \<open>System calls\<close>

text \<open>The arguments are \<^verbatim>\<open>i32\<close>; a positive one is taken as an id, the others as ``do not change''.\<close>

definition arg_id :: "int \<Rightarrow> nat option" where
  "arg_id x = (if x > 0 then Some (nat x) else None)"

definition cred_ret :: "credentials \<Rightarrow> credentials res \<Rightarrow> nat res \<times> credentials" where
  "cred_ret c r = (case r of Ok c' \<Rightarrow> (Ok 0, c') | Err e \<Rightarrow> (Err e, c) | Panic \<Rightarrow> (Panic, c))"

definition cred_ret_old :: "credentials \<Rightarrow> (nat \<times> credentials) res \<Rightarrow> nat res \<times> credentials" where
  "cred_ret_old c r = (case r of Ok (old, c') \<Rightarrow> (Ok old, c') | Err e \<Rightarrow> (Err e, c) | Panic \<Rightarrow> (Panic, c))"

definition sys_setuid :: "int \<Rightarrow> credentials \<Rightarrow> nat res \<times> credentials" where
  "sys_setuid uid c = (if uid < 0 then (Err EINVAL, c) else (Ok 0, set_uid (nat uid) c))"

definition sys_setreuid :: "int \<Rightarrow> int \<Rightarrow> credentials \<Rightarrow> nat res \<times> credentials" where
  "sys_setreuid ruid euid c = cred_ret c (set_reuid (arg_id ruid) (arg_id euid) c)"

definition sys_setresuid :: "int \<Rightarrow> int \<Rightarrow> int \<Rightarrow> credentials \<Rightarrow> nat res \<times> credentials" where
  "sys_setresuid ruid euid suid c = cred_ret c (set_resuid (arg_id ruid) (arg_id euid) (arg_id suid) c)"

definition sys_setfsuid :: "int \<Rightarrow> credentials \<Rightarrow> nat res \<times> credentials" where
  "sys_setfsuid uid c = cred_ret_old c (set_fsuid (if uid < 0 then None else Some (nat uid)) c)"

definition sys_setgid :: "int \<Rightarrow> credentials \<Rightarrow> nat res \<times> credentials" where
  "sys_setgid gid c = (if gid < 0 then (Err EINVAL, c) else (Ok 0, set_gid (nat gid) c))"

definition sys_setregid :: "int \<Rightarrow> int \<Rightarrow> credentials \<Rightarrow> nat res \<times> credentials" where
  "sys_setregid rgid egid c = cred_ret c (set_regid (arg_id rgid) (arg_id egid) c)"

definition sys_setresgid :: "int \<Rightarrow> int \<Rightarrow> int \<Rightarrow> credentials \<Rightarrow> nat res \<times> credentials" where
  "sys_setresgid rgid egid sgid c = cred_ret c (set_resgid (arg_id rgid) (arg_id egid) (arg_id sgid) c)"

definition sys_setfsgid :: "int \<Rightarrow> credentials \<Rightarrow> nat res \<times> credentials" where
  "sys_setfsgid gid c = cred_ret_old c (set_fsgid (if gid < 0 then None else Some (nat gid)) c)"

definition sys_getuid :: "credentials \<Rightarrow> nat" where "sys_getuid c = id_r (c_uid c)"
definition sys_geteuid :: "credentials \<Rightarrow> nat" where "sys_geteuid c = id_e (c_uid c)"
definition sys_getgid :: "credentials \<Rightarrow> nat" where "sys_getgid c = id_r (c_gid c)"
definition sys_getegid :: "credentials \<Rightarrow> nat" where "sys_getegid c = id_e (c_gid c)"

text \<open>\<open>rd\<close> reads a group id from user memory, \<open>wr\<close> writes one.\<close>

abbreviation NGROUPS_MAX :: nat where "NGROUPS_MAX \<equiv> 65536"

fun read_groups :: "(nat \<Rightarrow> nat res) \<Rightarrow> nat \<Rightarrow> nat list \<Rightarrow> (nat, unit) btree_map \<Rightarrow> (nat, unit) btree_map res" where
  "read_groups rd addr [] acc = Ok acc"
| "read_groups rd addr (idx # is) acc =
     rbind (usize_add addr (idx * 4)) (\<lambda>a. rbind (rd a) (\<lambda>gid. read_groups rd addr is (btm_insert gid () acc)))"

definition sys_setgroups :: "(nat \<Rightarrow> nat res) \<Rightarrow> nat \<Rightarrow> nat \<Rightarrow> credentials \<Rightarrow> nat res \<times> credentials" where
  "sys_setgroups rd n group_list_addr c =
     (if n > NGROUPS_MAX then (Err EINVAL, c)
      else cred_ret c (rmap (\<lambda>gs. c\<lparr>c_groups := gs\<rparr>) (read_groups rd group_list_addr [0..<n] [])))"

fun write_groups :: "('u \<Rightarrow> nat \<Rightarrow> nat \<Rightarrow> 'u res) \<Rightarrow> nat \<Rightarrow> nat \<Rightarrow> nat list \<Rightarrow> 'u \<Rightarrow> unit res \<times> 'u" where
  "write_groups wr addr idx [] u = (Ok (), u)"
| "write_groups wr addr idx (gid # gids) u =
     (case rbind (usize_add addr (idx * 4)) (\<lambda>a. wr u a gid) of
        Ok u' \<Rightarrow> write_groups wr addr (idx + 1) gids u' | Err e \<Rightarrow> (Err e, u) | Panic \<Rightarrow> (Panic, u))"

definition sys_getgroups :: "('u \<Rightarrow> nat \<Rightarrow> nat \<Rightarrow> 'u res) \<Rightarrow> int \<Rightarrow> nat \<Rightarrow> credentials \<Rightarrow> 'u \<Rightarrow> nat res \<times> 'u" where
  "sys_getgroups wr n group_list_addr c u =
     (let groups = btm_keys (c_groups c) in
      if n < 0 then (Err EINVAL, u)
      else if n = 0 then (Ok (length groups), u)
      else if length groups > nat n then (Err EINVAL, u)
      else case write_groups wr group_list_addr 0 groups u of
             (Ok _, u') \<Rightarrow> (Ok (length groups), u') | (Err e, u') \<Rightarrow> (Err e, u') | (Panic, u') \<Rightarrow> (Panic, u'))"

section \<open>What unprivileged callers can reach\<close>

definition id_set :: "ids \<Rightarrow> nat set" where
  "id_set i = {id_r i, id_e i, id_s i}"

text \<open>The ids of \<open>j\<close> are among those of \<open>i\<close>.\<close>

definition confined :: "ids \<Rightarrow> ids \<Rightarrow> bool" where
  "confined i j \<longleftrightarrow> id_set j \<subseteq> id_set i \<and> id_fs j \<in> insert (id_fs i) (id_set i)"

lemma ids_confined_refl [simp]: "confined i i"
  by (simp add: confined_def)

lemma ids_confined_trans: "confined i j \<Longrightarrow> confined j k \<Longrightarrow> confined i k"
  by (auto simp: confined_def)

lemma check_id_perm_Ok:
  "check_id_perm False i r e s b = Ok () \<Longrightarrow>
     (\<forall>x. r = Some x \<longrightarrow> x \<in> id_set i) \<and> (\<forall>x. e = Some x \<longrightarrow> x \<in> id_set i) \<and> (\<forall>x. s = Some x \<longrightarrow> x \<in> id_set i)"
  by (auto simp: check_id_perm_def id_set_def split: option.splits if_splits)

lemma set_res_unchecked_confined:
  assumes "\<And>x. r = Some x \<Longrightarrow> x \<in> id_set i" "\<And>x. e = Some x \<Longrightarrow> x \<in> id_set i" "\<And>x. s = Some x \<Longrightarrow> x \<in> id_set i"
  shows "confined i (set_res_unchecked r e s i)"
  using assms by (auto simp: set_res_unchecked_def confined_def id_set_def split: option.splits)

lemma confined_sync: "confined i j \<Longrightarrow> confined i (j\<lparr>id_s := id_e j\<rparr>)" "confined i j \<Longrightarrow> confined i (j\<lparr>id_fs := id_e j\<rparr>)"
  by (auto simp: confined_def id_set_def)

lemma rbind_OkD: "rbind x f = Ok y \<Longrightarrow> \<exists>z. x = Ok z \<and> f z = Ok y"
  by (cases x) auto

lemma set_re_confined:
  assumes "set_re False r e i = Ok j"
  shows "confined i j"
proof -
  have ok: "check_id_perm False i r e None False = Ok ()" using assms unfolding set_re_def by (auto dest!: rbind_OkD)
  have c: "confined i (set_res_unchecked r e None i)"
    by (rule set_res_unchecked_confined) (use check_id_perm_Ok [OF ok] in auto)
  define i1 where "i1 = set_res_unchecked r e None i"
  have "\<exists>b. j = (let i2 = (if b then i1\<lparr>id_s := id_e i1\<rparr> else i1) in i2\<lparr>id_fs := id_e i2\<rparr>)"
    using assms unfolding set_re_def ok rbind.simps Let_def i1_def [symmetric] by blast
  then obtain b where b: "j = (let i2 = (if b then i1\<lparr>id_s := id_e i1\<rparr> else i1) in i2\<lparr>id_fs := id_e i2\<rparr>)" by blast
  define i2 where "i2 = (if b then i1\<lparr>id_s := id_e i1\<rparr> else i1)"
  have "confined i i2" using confined_sync(1) [OF c] c unfolding i2_def i1_def by simp
  then show ?thesis using confined_sync(2) [of i i2] b unfolding i2_def Let_def by simp
qed

lemma set_res_confined:
  assumes "set_res False r e s i = Ok j"
  shows "confined i j"
proof -
  have ok: "check_id_perm False i r e s True = Ok ()" using assms unfolding set_res_def by (auto dest!: rbind_OkD)
  have c: "confined i (set_res_unchecked r e s i)"
    by (rule set_res_unchecked_confined) (use check_id_perm_Ok [OF ok] in auto)
  show ?thesis using assms confined_sync(2) [OF c] unfolding set_res_def ok rbind.simps Let_def by simp
qed

lemma set_fs_confined: "set_fs False x i = Ok (old, j) \<Longrightarrow> confined i j"
  by (auto simp: set_fs_def confined_def id_set_def split: option.splits if_splits)

section \<open>Runs of calls\<close>

datatype cred_call =
    Setuid int | Setreuid int int | Setresuid int int int | Setfsuid int
  | Setgid int | Setregid int int | Setresgid int int int | Setfsgid int

definition cred_run1 :: "cred_call \<Rightarrow> credentials \<Rightarrow> credentials" where
  "cred_run1 call c = snd (case call of
       Setuid u \<Rightarrow> sys_setuid u c | Setreuid r e \<Rightarrow> sys_setreuid r e c | Setresuid r e s \<Rightarrow> sys_setresuid r e s c
     | Setfsuid u \<Rightarrow> sys_setfsuid u c | Setgid g \<Rightarrow> sys_setgid g c | Setregid r e \<Rightarrow> sys_setregid r e c
     | Setresgid r e s \<Rightarrow> sys_setresgid r e s c | Setfsgid g \<Rightarrow> sys_setfsgid g c)"

definition cred_run :: "cred_call list \<Rightarrow> credentials \<Rightarrow> credentials" where
  "cred_run calls c = fold cred_run1 calls c"

definition no_setid :: "cred_call \<Rightarrow> bool" where
  "no_setid call \<longleftrightarrow> (case call of Setuid _ \<Rightarrow> False | Setgid _ \<Rightarrow> False | _ \<Rightarrow> True)"

definition cred_confined :: "credentials \<Rightarrow> credentials \<Rightarrow> bool" where
  "cred_confined c c' \<longleftrightarrow> confined (c_uid c) (c_uid c') \<and> confined (c_gid c) (c_gid c') \<and> c_groups c' = c_groups c"

lemma cred_confined_trans: "cred_confined c d \<Longrightarrow> cred_confined d e \<Longrightarrow> cred_confined c e"
  using ids_confined_trans [of "c_uid c" "c_uid d" "c_uid e"] ids_confined_trans [of "c_gid c" "c_gid d" "c_gid e"]
  by (simp add: cred_confined_def)

lemma cred_confined_upd:
  "confined (c_uid c) j \<Longrightarrow> cred_confined c (c\<lparr>c_uid := j\<rparr>)" "confined (c_gid c) j \<Longrightarrow> cred_confined c (c\<lparr>c_gid := j\<rparr>)"
  "cred_confined c c"
  by (simp_all add: cred_confined_def)

lemma cred_ret_confined: "(\<And>j. x = Ok j \<Longrightarrow> cred_confined c (f j)) \<Longrightarrow> cred_confined c (snd (cred_ret c (rmap f x)))"
  by (cases x) (simp_all add: cred_ret_def cred_confined_upd(3))

lemma cred_ret_old_confined:
  "(\<And>old j. x = Ok (old, j) \<Longrightarrow> cred_confined c (f j)) \<Longrightarrow>
   cred_confined c (snd (cred_ret_old c (rmap (\<lambda>(old, i). (old, f i)) x)))"
  by (cases x) (auto simp: cred_ret_old_def cred_confined_upd(3))

lemma cred_run1_confined:
  assumes p: "\<not> is_privileged c" and n: "no_setid call"
  shows "cred_confined c (cred_run1 call c)"
proof -
  have f: "is_privileged c = False" using p by simp
  note d = cred_run1_def sys_setreuid_def sys_setresuid_def sys_setfsuid_def sys_setregid_def sys_setresgid_def sys_setfsgid_def
    set_reuid_def set_resuid_def set_fsuid_def set_regid_def set_resgid_def set_fsgid_def f cred_call.case
  show ?thesis
  proof (cases call)
    case (Setreuid r e)
    show ?thesis unfolding Setreuid d by (rule cred_ret_confined, rule cred_confined_upd, erule set_re_confined)
  next
    case (Setresuid r e s)
    show ?thesis unfolding Setresuid d by (rule cred_ret_confined, rule cred_confined_upd, erule set_res_confined)
  next
    case (Setfsuid u)
    show ?thesis unfolding Setfsuid d by (rule cred_ret_old_confined, rule cred_confined_upd, erule set_fs_confined)
  next
    case (Setregid r e)
    show ?thesis unfolding Setregid d by (rule cred_ret_confined, rule cred_confined_upd, erule set_re_confined)
  next
    case (Setresgid r e s)
    show ?thesis unfolding Setresgid d by (rule cred_ret_confined, rule cred_confined_upd, erule set_res_confined)
  next
    case (Setfsgid u)
    show ?thesis unfolding Setfsgid d by (rule cred_ret_old_confined, rule cred_confined_upd, erule set_fs_confined)
  qed (use n in \<open>simp_all add: no_setid_def\<close>)
qed

lemma cred_run_confined:
  assumes "ROOT_UID \<notin> id_set (c_uid c)" "list_all no_setid calls"
  shows "cred_confined c (cred_run calls c)"
  using assms
proof (induction calls arbitrary: c)
  case (Cons call calls)
  have np: "\<not> is_privileged c" using Cons.prems by (auto simp: is_privileged_def id_set_def)
  have 1: "cred_confined c (cred_run1 call c)" by (rule cred_run1_confined [OF np]) (use Cons.prems in simp)
  then have "ROOT_UID \<notin> id_set (c_uid (cred_run1 call c))" using Cons.prems(1) by (auto simp: cred_confined_def confined_def)
  then have 2: "cred_confined (cred_run1 call c) (cred_run calls (cred_run1 call c))"
    by (rule Cons.IH) (use Cons.prems(2) in simp)
  have "cred_run (call # calls) c = cred_run calls (cred_run1 call c)" by (simp add: cred_run_def)
  then show ?case using cred_confined_trans [OF 1 2] by simp
qed (simp add: cred_run_def cred_confined_def)

section \<open>Properties\<close>



text \<open>C34: When root gives up its ids with \<^verbatim>\<open>setresuid(u, u, u)\<close> for a positive \<open>u\<close>, it has them no
  more: all four user ids are \<open>u\<close>, and they are after any further sequence of the calls that check
  permissions.\<close>

theorem setresuid_drops_for_good:
  assumes "is_privileged c" "u > 0" "list_all no_setid calls"
  shows "c_uid (cred_run (Setresuid u u u # calls) c) = ids_new (nat u)"
proof -
  let ?c = "cred_run1 (Setresuid u u u) c"
  have e: "c_uid ?c = ids_new (nat u)"
    using assms(1,2) by (simp add: cred_run1_def sys_setresuid_def cred_ret_def set_resuid_def set_res_def check_id_perm_def
        arg_id_def set_res_unchecked_def ids_new_def)
  then have "ROOT_UID \<notin> id_set (c_uid ?c)" using assms(2) by (simp add: ids_new_def id_set_def ROOT_UID_def)
  from cred_run_confined [OF this assms(3)] have "confined (ids_new (nat u)) (c_uid (cred_run calls ?c))"
    by (simp add: cred_confined_def e)
  then have "id_set (c_uid (cred_run calls ?c)) \<subseteq> {nat u} \<and> id_fs (c_uid (cred_run calls ?c)) = nat u"
    by (simp add: confined_def ids_new_def id_set_def)
  then have "c_uid (cred_run calls ?c) = ids_new (nat u)" by (auto simp: ids_new_def id_set_def)
  then show ?thesis by (simp add: cred_run_def)
qed

theorem setresuid_drops_for_good_witness:
  "c_uid (cred_run (Setresuid 5 5 5 # [Setreuid 1 1]) cred_new_root) = ids_new 5"
proof -
  have "is_privileged cred_new_root" by (simp add: is_privileged_def cred_new_root_def cred_new_def ids_new_def)
  moreover have "list_all no_setid [Setreuid 1 1]" by (simp add: no_setid_def)
  ultimately show ?thesis using setresuid_drops_for_good [of cred_new_root 5 "[Setreuid 1 1]"] by simp
qed

text \<open>\<^verbatim>\<open>setuid\<close> does not check anything: every process, whatever its ids, becomes privileged by
  calling \<^verbatim>\<open>setuid(0)\<close>, and then takes any ids it likes with a second call.\<close>

theorem setuid_escalates:
  "is_privileged (snd (sys_setuid 0 c)) \<and> id_set (c_uid (cred_run [Setuid 0, Setuid (int u)] c)) = {u}"
proof -
  have 1: "is_privileged (snd (sys_setuid 0 c))" by (simp add: sys_setuid_def set_uid_def set_id_def is_privileged_def ROOT_UID_def)
  have "cred_run [Setuid 0, Setuid (int u)] c = snd (sys_setuid (int u) (snd (sys_setuid 0 c)))"
    by (simp add: cred_run_def cred_run1_def)
  also have "\<dots> = set_uid u (snd (sys_setuid 0 c))" by (simp add: sys_setuid_def)
  finally have "id_set (c_uid (cred_run [Setuid 0, Setuid (int u)] c)) = {u}"
    using 1 by (simp add: set_uid_def set_id_def id_set_def)
  then show ?thesis using 1 by simp
qed

end
