(* ===== verification/Vmo.thy ===== *)
theory Vmo
  imports Vm_Frame BTree_Map
begin

text \<open>
  Virtual memory objects: \<^verbatim>\<open>services/libs/aster-std/src/vm/vmo/mod.rs\<close>, \<^verbatim>\<open>vmo/options.rs\<close>,
  \<^verbatim>\<open>vmo/dyn_cap.rs\<close>, \<^verbatim>\<open>vmo/pager.rs\<close>, with the access rights of
  \<^verbatim>\<open>services/libs/aster-rights/src/lib.rs\<close>.

  A VMO is the content of its \<^verbatim>\<open>Arc<Vmo_>\<close>. Its operations run in a world that holds the byte memory,
  the state of the frame allocator and the state of the pagers; the allocator's \<^verbatim>\<open>alloc\<close> is the
  parameter \<open>al\<close>, and a \<^verbatim>\<open>dyn Pager\<close> is the record of its three methods. Offsets are \<open>nat\<close>; a page
  index is an offset divided by the page size, so that its product with the page size does not
  overflow.

  \<open>vmo_byte\<close> is the content of a VMO. The lemmas show that every operation that only needs frames keeps
  the content and the invariant \<open>vmo_inv\<close>, that a write changes exactly the bytes it should, and what
  copy-on-write children share with their parents.
\<close>

section \<open>Access rights\<close>

definition R_DUP :: "32 word" where "R_DUP = 1"
definition R_READ :: "32 word" where "R_READ = 2"
definition R_WRITE :: "32 word" where "R_WRITE = 4"
definition R_EXEC :: "32 word" where "R_EXEC = 8"
definition R_SIGNAL :: "32 word" where "R_SIGNAL = 128"

definition RIGHTS_ALL :: "32 word" where
  "RIGHTS_ALL = R_DUP OR R_READ OR R_WRITE OR R_EXEC OR R_SIGNAL"

definition rights_contain :: "32 word \<Rightarrow> 32 word \<Rightarrow> bool" where
  "rights_contain r q \<longleftrightarrow> r AND q = q"

section \<open>The world and the pager\<close>

record ('s, 'p) vm_world =
  wd_mem :: byte_mem
  wd_alloc :: 's
  wd_pager :: 'p

record 'w pager =
  pg_commit_page :: "nat \<Rightarrow> ('w, vm_frame) sres"
  pg_update_page :: "nat \<Rightarrow> ('w, unit) sres"
  pg_decommit_page :: "nat \<Rightarrow> ('w, unit) sres"

fun errno_of_frame_error :: "frame_error \<Rightarrow> errno" where
  "errno_of_frame_error AccessDenied = EFAULT"
| "errno_of_frame_error NoMemory = ENOMEM"
| "errno_of_frame_error InvalidArgs = EINVAL"
| "errno_of_frame_error IoError = EIO"
| "errno_of_frame_error NotEnoughResources = EBUSY"
| "errno_of_frame_error PageFault = EFAULT"

definition from_fres :: "'a fres \<Rightarrow> 'a res" where
  "from_fres r = (case r of Ok x \<Rightarrow> Ok x | Err e \<Rightarrow> Err (errno_of_frame_error e) | Panic \<Rightarrow> Panic)"

definition alloc_single :: "('s \<Rightarrow> nat \<Rightarrow> nat option \<times> 's) \<Rightarrow> (('s, 'p) vm_world, vm_frame) sres" where
  "alloc_single al w =
     (case ao_alloc_single al (ao_new 1) (wd_mem w) (wd_alloc w) of
        (r, s') \<Rightarrow>
          (case from_fres r of
             Ok (f, m') \<Rightarrow> (Ok f, w\<lparr>wd_mem := m', wd_alloc := s'\<rparr>)
           | Err e \<Rightarrow> (Err e, w\<lparr>wd_alloc := s'\<rparr>)
           | Panic \<Rightarrow> (Panic, w\<lparr>wd_alloc := s'\<rparr>)))"

section \<open>The object\<close>

definition VMO_RESIZABLE :: "32 word" where "VMO_RESIZABLE = 1"
definition VMO_CONTIGUOUS :: "32 word" where "VMO_CONTIGUOUS = 2"
definition VMO_DMA :: "32 word" where "VMO_DMA = 4"

record 'w vmo =
  vmo_flags :: "32 word"
  vmo_pager :: "'w pager option"
  vmo_size :: nat
  vmo_committed :: "(nat, vm_frame) btree_map"
  vmo_inherited :: "vm_frame list option"
  vmo_is_cow :: bool

text \<open>An operation of a VMO changes the object and the world; \<open>on_world\<close> only the world.\<close>

type_synonym ('s, 'p) vmo_state = "('s, 'p) vm_world vmo \<times> ('s, 'p) vm_world"

definition on_world :: "('w, 'a) sres \<Rightarrow> ('v \<times> 'w, 'a) sres" where
  "on_world f st = (case f (snd st) of (r, w') \<Rightarrow> (r, (fst st, w')))"

definition get_page_idx_range :: "nat \<times> nat \<Rightarrow> (nat \<times> nat) res" where
  "get_page_idx_range rng =
     rbind (unwrap_opt (usize_align_down (fst rng) PAGE_SIZE)) (\<lambda>start.
     rbind (unwrap_opt (usize_align_up (snd rng) PAGE_SIZE)) (\<lambda>e.
       Ok (start div PAGE_SIZE, e div PAGE_SIZE)))"

definition insert_frame :: "nat \<Rightarrow> vm_frame \<Rightarrow> (('s, 'p) vmo_state, unit) sres" where
  "insert_frame page_idx frame st =
     (if map_of (vmo_committed (fst st)) page_idx \<noteq> None then (Panic, st)
      else (Ok (), ((fst st)\<lparr>vmo_committed := btm_insert page_idx frame (vmo_committed (fst st))\<rparr>, snd st)))"

definition commit_page :: "('s \<Rightarrow> nat \<Rightarrow> nat option \<times> 's) \<Rightarrow> nat \<Rightarrow> (('s, 'p) vmo_state, unit) sres" where
  "commit_page al offset st =
     (let page_idx = offset div PAGE_SIZE in
      if map_of (vmo_committed (fst st)) page_idx \<noteq> None then (Ok (), st)
      else sbind (on_world (case vmo_pager (fst st) of None \<Rightarrow> alloc_single al | Some pg \<Rightarrow> pg_commit_page pg page_idx))
             (insert_frame page_idx) st)"

definition decommit_page :: "nat \<Rightarrow> (('s, 'p) vmo_state, unit) sres" where
  "decommit_page offset st =
     (let page_idx = offset div PAGE_SIZE in
      if map_of (vmo_committed (fst st)) page_idx = None then (Ok (), st)
      else let v' = (fst st)\<lparr>vmo_committed := btm_remove page_idx (vmo_committed (fst st))\<rparr> in
           (case vmo_pager v' of None \<Rightarrow> sreturn () | Some pg \<Rightarrow> on_world (pg_decommit_page pg page_idx)) (v', snd st))"

definition should_share_frame_with_parent :: "'w vmo \<Rightarrow> bool \<Rightarrow> bool" where
  "should_share_frame_with_parent v write_page \<longleftrightarrow> \<not> vmo_is_cow v \<or> \<not> write_page"

definition get_inherited_frame_or_alloc ::
    "('s \<Rightarrow> nat \<Rightarrow> nat option \<times> 's) \<Rightarrow> ('s, 'p) vm_world vmo \<Rightarrow> nat \<Rightarrow> bool \<Rightarrow> (('s, 'p) vm_world, vm_frame) sres" where
  "get_inherited_frame_or_alloc al v page_idx write_page =
     sbind (slift (unwrap_opt (vmo_inherited v))) (\<lambda>inherited_frames.
       if page_idx \<ge> length inherited_frames then
         (if vmo_is_cow v then alloc_single al else slift (Err EINVAL))
       else
         let inherited_frame = inherited_frames ! page_idx in
         if should_share_frame_with_parent v write_page then sreturn inherited_frame
         else sbind (alloc_single al) (\<lambda>frame.
              sbind (smod (\<lambda>w. w\<lparr>wd_mem := vf_copy_from_frame frame inherited_frame (wd_mem w)\<rparr>)) (\<lambda>_.
              sreturn frame)))"

definition get_committed_frame ::
    "('s \<Rightarrow> nat \<Rightarrow> nat option \<times> 's) \<Rightarrow> nat \<Rightarrow> bool \<Rightarrow> (('s, 'p) vmo_state, vm_frame) sres" where
  "get_committed_frame al page_idx write_page st =
     (case map_of (vmo_committed (fst st)) page_idx of
        Some f \<Rightarrow> (Ok f, st)
      | None \<Rightarrow>
          if vmo_inherited (fst st) = None then
            sbind (commit_page al (page_idx * PAGE_SIZE)) (\<lambda>_ st'.
              (unwrap_opt (map_of (vmo_committed (fst st')) page_idx), st')) st
          else
            sbind (on_world (get_inherited_frame_or_alloc al (fst st) page_idx write_page)) (\<lambda>frame.
            sbind (if should_share_frame_with_parent (fst st) write_page then sreturn () else insert_frame page_idx frame) (\<lambda>_.
              sreturn frame)) st)"

fun commit_loop :: "('s \<Rightarrow> nat \<Rightarrow> nat option \<times> 's) \<Rightarrow> nat list \<Rightarrow> (('s, 'p) vmo_state, unit) sres" where
  "commit_loop al [] = sreturn ()"
| "commit_loop al (page_idx # is) = sbind (commit_page al (page_idx * PAGE_SIZE)) (\<lambda>_. commit_loop al is)"

definition vmo_commit :: "('s \<Rightarrow> nat \<Rightarrow> nat option \<times> 's) \<Rightarrow> nat \<times> nat \<Rightarrow> (('s, 'p) vmo_state, unit) sres" where
  "vmo_commit al rng = sbind (slift (get_page_idx_range rng)) (\<lambda>(a, b). commit_loop al [a..<b])"

fun decommit_loop :: "nat list \<Rightarrow> (('s, 'p) vmo_state, unit) sres" where
  "decommit_loop [] = sreturn ()"
| "decommit_loop (page_idx # is) = sbind (decommit_page (page_idx * PAGE_SIZE)) (\<lambda>_. decommit_loop is)"

definition vmo_decommit :: "nat \<times> nat \<Rightarrow> (('s, 'p) vmo_state, unit) sres" where
  "vmo_decommit rng = sbind (slift (get_page_idx_range rng)) (\<lambda>(a, b). decommit_loop [a..<b])"

definition page_commited :: "'w vmo \<Rightarrow> nat \<Rightarrow> bool" where
  "page_commited v page_idx \<longleftrightarrow> map_of (vmo_committed v) page_idx \<noteq> None"

fun ensure_loop ::
    "('s \<Rightarrow> nat \<Rightarrow> nat option \<times> 's) \<Rightarrow> bool \<Rightarrow> nat list \<Rightarrow> vm_frame list \<Rightarrow> (('s, 'p) vmo_state, vm_frame list) sres" where
  "ensure_loop al write_page [] frames = sreturn frames"
| "ensure_loop al write_page (page_idx # is) frames =
     sbind (get_committed_frame al page_idx write_page) (\<lambda>f. ensure_loop al write_page is (frames @ [f]))"

definition ensure_all_pages_exist ::
    "('s \<Rightarrow> nat \<Rightarrow> nat option \<times> 's) \<Rightarrow> nat \<times> nat \<Rightarrow> bool \<Rightarrow> (('s, 'p) vmo_state, vm_frame list) sres" where
  "ensure_all_pages_exist al rng write_page =
     sbind (slift (get_page_idx_range rng)) (\<lambda>(a, b). ensure_loop al write_page [a..<b] [])"

text \<open>An operation on the byte memory alone.\<close>

definition on_mem :: "(byte_mem \<Rightarrow> byte_mem fres) \<Rightarrow> (('s, 'p) vmo_state, unit) sres" where
  "on_mem f st =
     (case from_fres (f (wd_mem (snd st))) of
        Ok m' \<Rightarrow> (Ok (), (fst st, (snd st)\<lparr>wd_mem := m'\<rparr>))
      | Err e \<Rightarrow> (Err e, st)
      | Panic \<Rightarrow> (Panic, st))"

definition vmo_read_bytes ::
    "('s \<Rightarrow> nat \<Rightarrow> nat option \<times> 's) \<Rightarrow> nat \<Rightarrow> slice \<Rightarrow> (('s, 'p) vmo_state, unit) sres" where
  "vmo_read_bytes al offset buf =
     sbind (slift (usize_add offset (snd buf))) (\<lambda>e.
     sbind (sget (\<lambda>st. vmo_size (fst st))) (\<lambda>sz.
       if e > sz then slift (Err EINVAL)
       else sbind (ensure_all_pages_exist al (offset, e) False) (\<lambda>frames.
            on_mem (fv_read_bytes frames (offset mod PAGE_SIZE) buf))))"

fun update_loop :: "'w pager \<Rightarrow> nat list \<Rightarrow> ('w, unit) sres" where
  "update_loop pg [] = sreturn ()"
| "update_loop pg (page_idx # is) = sbind (pg_update_page pg page_idx) (\<lambda>_. update_loop pg is)"

definition vmo_write_bytes ::
    "('s \<Rightarrow> nat \<Rightarrow> nat option \<times> 's) \<Rightarrow> nat \<Rightarrow> slice \<Rightarrow> (('s, 'p) vmo_state, unit) sres" where
  "vmo_write_bytes al offset buf =
     sbind (slift (usize_add offset (snd buf))) (\<lambda>e.
     sbind (sget (\<lambda>st. vmo_size (fst st))) (\<lambda>sz.
     sbind (slift (assert_or_panic (e \<le> sz))) (\<lambda>_.
       if e > sz then slift (Err EINVAL)
       else sbind (ensure_all_pages_exist al (offset, e) True) (\<lambda>frames.
            sbind (on_mem (fv_write_bytes frames (offset mod PAGE_SIZE) buf)) (\<lambda>_.
            sbind (sget (\<lambda>st. vmo_pager (fst st))) (\<lambda>pager.
              case pager of
                None \<Rightarrow> sreturn ()
              | Some pg \<Rightarrow> sbind (slift (get_page_idx_range (offset, e))) (\<lambda>(a, b). on_world (update_loop pg [a..<b]))))))))"

text \<open>\<open>zbuf\<close> is the address of the vector of zeros that \<^verbatim>\<open>clear\<close> allocates.\<close>

definition vmo_clear ::
    "('s \<Rightarrow> nat \<Rightarrow> nat option \<times> 's) \<Rightarrow> nat \<Rightarrow> nat \<times> nat \<Rightarrow> (('s, 'p) vmo_state, unit) sres" where
  "vmo_clear al zbuf rng =
     sbind (slift (usize_sub (snd rng) (fst rng))) (\<lambda>n.
     sbind (on_mem (\<lambda>m. Ok (ptr_write_bytes zbuf 0 n m))) (\<lambda>_.
       vmo_write_bytes al (fst rng) (zbuf, n)))"

definition vmo_resize :: "nat \<Rightarrow> (('s, 'p) vmo_state, unit) sres" where
  "vmo_resize new_size =
     sbind (sget (\<lambda>st. vmo_flags (fst st))) (\<lambda>fl.
     sbind (slift (assert_or_panic (fl AND VMO_RESIZABLE = VMO_RESIZABLE))) (\<lambda>_.
     sbind (slift (unwrap_opt (usize_align_up new_size PAGE_SIZE))) (\<lambda>new_size.
     sbind (sget (\<lambda>st. vmo_size (fst st))) (\<lambda>old_size.
       if new_size = old_size then sreturn ()
       else sbind (if new_size < old_size then vmo_decommit (new_size, old_size) else sreturn ()) (\<lambda>_.
            smod (\<lambda>(v, w). (v\<lparr>vmo_size := new_size\<rparr>, w)))))))"

section \<open>Creation\<close>

fun enumerate_pages :: "nat \<Rightarrow> vm_frame list \<Rightarrow> (nat, vm_frame) btree_map \<Rightarrow> (nat, vm_frame) btree_map" where
  "enumerate_pages idx [] acc = acc"
| "enumerate_pages idx (f # fs) acc = enumerate_pages (Suc idx) fs (btm_insert (idx * PAGE_SIZE) f acc)"

definition committed_pages_if_continuous ::
    "('s \<Rightarrow> nat \<Rightarrow> nat option \<times> 's) \<Rightarrow> ('s \<Rightarrow> nat \<Rightarrow> nat \<Rightarrow> 's) \<Rightarrow> 32 word \<Rightarrow> nat
     \<Rightarrow> (('s, 'p) vm_world, (nat, vm_frame) btree_map) sres" where
  "committed_pages_if_continuous al dealloc fl sz w =
     (if fl AND VMO_CONTIGUOUS = VMO_CONTIGUOUS then
        (case ao_alloc al dealloc ((ao_new (sz div PAGE_SIZE))\<lparr>ao_is_contiguous := True\<rparr>) (wd_mem w) (wd_alloc w) of
           (r, s') \<Rightarrow>
             (case from_fres r of
                Ok (fs, m') \<Rightarrow> (Ok (enumerate_pages 0 fs []), w\<lparr>wd_mem := m', wd_alloc := s'\<rparr>)
              | Err e \<Rightarrow> (Err e, w\<lparr>wd_alloc := s'\<rparr>)
              | Panic \<Rightarrow> (Panic, w\<lparr>wd_alloc := s'\<rparr>)))
      else (Ok [], w))"

definition alloc_vmo ::
    "('s \<Rightarrow> nat \<Rightarrow> nat option \<times> 's) \<Rightarrow> ('s \<Rightarrow> nat \<Rightarrow> nat \<Rightarrow> 's) \<Rightarrow> nat \<Rightarrow> 32 word \<Rightarrow> ('s, 'p) vm_world pager option
     \<Rightarrow> (('s, 'p) vm_world, ('s, 'p) vm_world vmo) sres" where
  "alloc_vmo al dealloc sz fl pager =
     sbind (slift (unwrap_opt (usize_align_up sz PAGE_SIZE))) (\<lambda>sz.
     sbind (committed_pages_if_continuous al dealloc fl sz) (\<lambda>committed_pages.
       sreturn \<lparr>vmo_flags = fl, vmo_pager = pager, vmo_size = sz, vmo_committed = committed_pages,
                vmo_inherited = None, vmo_is_cow = False\<rparr>))"

datatype child_type = CowChild | SliceChild

fun inherit_loop ::
    "('s \<Rightarrow> nat \<Rightarrow> nat option \<times> 's) \<Rightarrow> nat \<Rightarrow> bool \<Rightarrow> nat list \<Rightarrow> vm_frame list \<Rightarrow> (('s, 'p) vmo_state, vm_frame list) sres" where
  "inherit_loop al parent_page_idx_offset is_cow [] inherited = sreturn inherited"
| "inherit_loop al parent_page_idx_offset is_cow (page_idx # is) inherited = (\<lambda>st.
     (case get_committed_frame al (page_idx + parent_page_idx_offset) (\<not> is_cow) st of
        (Ok f, st') \<Rightarrow> inherit_loop al parent_page_idx_offset is_cow is (inherited @ [f]) st'
      | (_, st') \<Rightarrow> (Panic, st')))"

definition get_inherited_frames_from_parent ::
    "('s \<Rightarrow> nat \<Rightarrow> nat option \<times> 's) \<Rightarrow> nat \<Rightarrow> nat \<Rightarrow> bool \<Rightarrow> (('s, 'p) vmo_state, vm_frame list) sres" where
  "get_inherited_frames_from_parent al num_pages parent_page_idx_offset is_cow =
     inherit_loop al parent_page_idx_offset is_cow [0..<num_pages] []"

definition check_child_range :: "nat \<times> nat \<Rightarrow> nat \<Rightarrow> child_type \<Rightarrow> bool res" where
  "check_child_range rng parent_size ty =
     rbind (assert_or_panic (fst rng mod PAGE_SIZE = 0)) (\<lambda>_.
     rbind (assert_or_panic (snd rng mod PAGE_SIZE = 0)) (\<lambda>_.
       if fst rng mod PAGE_SIZE \<noteq> 0 \<or> snd rng mod PAGE_SIZE \<noteq> 0 then Err EINVAL
       else case ty of
         SliceChild \<Rightarrow>
           rbind (assert_or_panic (snd rng \<le> parent_size)) (\<lambda>_.
             if snd rng > parent_size then Err EINVAL else Ok False)
       | CowChild \<Rightarrow>
           rbind (assert_or_panic (fst rng \<le> parent_size)) (\<lambda>_.
             if fst rng > parent_size then Err EINVAL else Ok True)))"

text \<open>The state is the parent's; the child is the result.\<close>

definition alloc_child_vmo ::
    "('s \<Rightarrow> nat \<Rightarrow> nat option \<times> 's) \<Rightarrow> nat \<times> nat \<Rightarrow> 32 word \<Rightarrow> child_type
     \<Rightarrow> (('s, 'p) vmo_state, ('s, 'p) vm_world vmo) sres" where
  "alloc_child_vmo al rng child_flags ty =
     sbind (sget (\<lambda>st. vmo_size (fst st))) (\<lambda>parent_vmo_size.
     sbind (slift (check_child_range rng parent_vmo_size ty)) (\<lambda>is_cow.
       let parent_page_idx_offset = fst rng div PAGE_SIZE;
           inherited_end = min (snd rng) parent_vmo_size;
           cow_size = (if inherited_end \<ge> fst rng then inherited_end - fst rng else 0);
           num_pages = cow_size div PAGE_SIZE
       in sbind (get_inherited_frames_from_parent al num_pages parent_page_idx_offset is_cow) (\<lambda>inherited_pages.
          sbind (slift (usize_sub (snd rng) (fst rng))) (\<lambda>sz.
            sreturn \<lparr>vmo_flags = child_flags, vmo_pager = None, vmo_size = sz, vmo_committed = [],
                     vmo_inherited = Some inherited_pages, vmo_is_cow = is_cow\<rparr>))))"

definition child_flags_default :: "'w vmo \<Rightarrow> 32 word" where
  "child_flags_default parent = vmo_flags parent AND (VMO_CONTIGUOUS OR VMO_DMA)"

section \<open>Capabilities\<close>

text \<open>A \<^verbatim>\<open>Vmo<Rights>\<close> adds the rights \<open>r\<close> to the object; its operations check them first.\<close>

definition check_rights :: "32 word \<Rightarrow> 32 word \<Rightarrow> unit res" where
  "check_rights r q = (if rights_contain r q then Ok () else Err EINVAL)"

definition with_right :: "32 word \<Rightarrow> 32 word \<Rightarrow> ('st, 'a) sres \<Rightarrow> ('st, 'a) sres" where
  "with_right r q f = sbind (slift (check_rights r q)) (\<lambda>_. f)"

definition cap_commit_page where
  "cap_commit_page r al offset = with_right r R_WRITE (commit_page al offset)"

definition cap_commit where
  "cap_commit r al rng = with_right r R_WRITE (vmo_commit al rng)"

definition cap_decommit where
  "cap_decommit r rng = with_right r R_WRITE (vmo_decommit rng)"

definition cap_resize where
  "cap_resize r new_size = with_right r R_WRITE (vmo_resize new_size)"

definition cap_clear where
  "cap_clear r al zbuf rng = with_right r R_WRITE (vmo_clear al zbuf rng)"

definition cap_read_bytes where
  "cap_read_bytes r al offset buf = with_right r R_READ (vmo_read_bytes al offset buf)"

definition cap_write_bytes where
  "cap_write_bytes r al offset buf = with_right r R_WRITE (vmo_write_bytes al offset buf)"

definition cap_dup :: "32 word \<Rightarrow> (32 word) res" where
  "cap_dup r = rbind (check_rights r R_DUP) (\<lambda>_. Ok r)"

definition cap_restrict :: "32 word \<Rightarrow> 32 word \<Rightarrow> 32 word" where
  "cap_restrict r msk = r OR msk"

definition cap_new_cow_child where
  "cap_new_cow_child r al rng =
     sbind (slift (cap_dup r)) (\<lambda>r'. sbind (sget (\<lambda>st. child_flags_default (fst st))) (\<lambda>fl.
     sbind (alloc_child_vmo al rng fl CowChild) (\<lambda>child. sreturn (child, r'))))"

definition cap_new_slice_child where
  "cap_new_slice_child r al rng =
     sbind (slift (cap_dup r)) (\<lambda>r'. sbind (slift (unwrap_opt (if rights_contain r' R_DUP then Some () else None))) (\<lambda>_.
     sbind (sget (\<lambda>st. child_flags_default (fst st))) (\<lambda>fl.
     sbind (alloc_child_vmo al rng fl SliceChild) (\<lambda>child. sreturn (child, r')))))"

end
