(* ===== verification/Vm_Mapping.thy ===== *)
theory Vm_Mapping
  imports Vmo Vm_Space_Correct
begin

text \<open>
  Mappings of memory objects into an address space:
  \<^verbatim>\<open>services/libs/aster-std/src/vm/vmar/vm_mapping.rs\<close> and \<^verbatim>\<open>vm/perms.rs\<close>.

  A mapping is the content of its \<^verbatim>\<open>Arc<VmMapping>\<close>; the object it maps is a reference into the list of
  all memory objects, with the rights of the capability. The world of an address space is the world of
  the memory objects, the objects, and the \<^verbatim>\<open>VmSpace\<close>, which a tree of regions shares. An operation of a
  mapping changes the mapping and this world. Sums of addresses that lie inside the region of a mapping
  are written without the overflow check; differences, and sums with arguments of the caller, have it.
\<close>

section \<open>Permissions\<close>

definition PERM_READ :: "32 word" where "PERM_READ = 1"
definition PERM_WRITE :: "32 word" where "PERM_WRITE = 2"
definition PERM_EXEC :: "32 word" where "PERM_EXEC = 4"

definition add_if :: "bool \<Rightarrow> ('w::len) word \<Rightarrow> 'w word \<Rightarrow> 'w word" where
  "add_if b flag x = (if b then x OR flag else x)"

definition perms_from_rights :: "32 word \<Rightarrow> 32 word" where
  "perms_from_rights r =
     add_if (rights_contain r R_EXEC) PERM_EXEC (add_if (rights_contain r R_WRITE) PERM_WRITE
       (add_if (rights_contain r R_READ) PERM_READ 0))"

definition rights_from_perms :: "32 word \<Rightarrow> 32 word" where
  "rights_from_perms p =
     add_if (rights_contain p PERM_EXEC) R_EXEC (add_if (rights_contain p PERM_WRITE) R_WRITE
       (add_if (rights_contain p PERM_READ) R_READ 0))"

definition perms_from_vm_perm :: "8 word \<Rightarrow> 32 word" where
  "perms_from_vm_perm p =
     add_if (vm_perm_contains p VM_X) PERM_EXEC (add_if (vm_perm_contains p VM_W) PERM_WRITE
       (add_if (vm_perm_contains p VM_R) PERM_READ 0))"

definition vm_perm_from_perms :: "32 word \<Rightarrow> 8 word" where
  "vm_perm_from_perms p =
     add_if (rights_contain p PERM_EXEC) VM_X (add_if (rights_contain p PERM_WRITE) VM_W
       (add_if (rights_contain p PERM_READ) VM_R 0))"

section \<open>Ranges\<close>

type_synonym range = "nat \<times> nat"

definition is_intersected :: "range \<Rightarrow> range \<Rightarrow> bool" where
  "is_intersected r1 r2 \<longleftrightarrow> max (fst r1) (fst r2) < min (snd r1) (snd r2)"

definition get_intersected_range :: "range \<Rightarrow> range \<Rightarrow> range res" where
  "get_intersected_range r1 r2 =
     rbind (assert_or_panic (is_intersected r1 r2)) (\<lambda>_. Ok (max (fst r1) (fst r2), min (snd r1) (snd r2)))"

section \<open>The world of an address space\<close>

record ('s, 'p) as_world =
  aw_world :: "('s, 'p) vm_world"
  aw_vmos :: "('s, 'p) vm_world vmo list"
  aw_space :: memory_set

definition on_vmo :: "nat \<Rightarrow> (('s, 'p) vmo_state, 'a) sres \<Rightarrow> (('s, 'p) as_world, 'a) sres" where
  "on_vmo i f aw =
     (case f (aw_vmos aw ! i, aw_world aw) of
        (r, (v', w')) \<Rightarrow> (r, aw\<lparr>aw_vmos := (aw_vmos aw)[i := v'], aw_world := w'\<rparr>))"

definition on_space :: "(memory_set \<Rightarrow> 'a fres \<times> memory_set) \<Rightarrow> (('s, 'p) as_world, 'a) sres" where
  "on_space f aw = (case f (aw_space aw) of (r, ms) \<Rightarrow> (from_fres r, aw\<lparr>aw_space := ms\<rparr>))"

text \<open>The \<^verbatim>\<open>VmIo\<close> methods of a capability return \<^verbatim>\<open>aster_frame::Result\<close>; their errors are converted twice.\<close>

fun frame_error_of_errno :: "errno \<Rightarrow> frame_error" where
  "frame_error_of_errno EACCES = AccessDenied"
| "frame_error_of_errno EIO = IoError"
| "frame_error_of_errno ENOMEM = NoMemory"
| "frame_error_of_errno EFAULT = PageFault"
| "frame_error_of_errno EBUSY = NotEnoughResources"
| "frame_error_of_errno _ = InvalidArgs"

definition via_frame_error :: "'a res \<Rightarrow> 'a res" where
  "via_frame_error r =
     (case r of Ok x \<Rightarrow> Ok x | Err e \<Rightarrow> Err (errno_of_frame_error (frame_error_of_errno e)) | Panic \<Rightarrow> Panic)"

definition vm_io :: "('st, 'a) sres \<Rightarrow> ('st, 'a) sres" where
  "vm_io f st = (case f st of (r, st') \<Rightarrow> (via_frame_error r, st'))"

section \<open>The mapping\<close>

record vm_mapping =
  mp_vmo_offset :: nat
  mp_map_size :: nat
  mp_map_to_addr :: nat
  mp_is_destroyed :: bool
  mp_mapped_pages :: "(nat, unit) btree_map"
  mp_page_perms :: "(nat, 8 word) btree_map"
  mp_vmo :: nat
  mp_rights :: "32 word"

type_synonym ('s, 'p) mp_state = "vm_mapping \<times> ('s, 'p) as_world"

definition mp_range :: "vm_mapping \<Rightarrow> range" where
  "mp_range mp = (mp_map_to_addr mp, mp_map_to_addr mp + mp_map_size mp)"

definition mp_the_vmo :: "('s, 'p) mp_state \<Rightarrow> ('s, 'p) vm_world vmo" where
  "mp_the_vmo st = aw_vmos (snd st) ! mp_vmo (fst st)"

definition page_map_addr :: "vm_mapping \<Rightarrow> nat \<Rightarrow> nat res" where
  "page_map_addr mp page_idx =
     rbind (usize_sub (page_idx * PAGE_SIZE) (mp_vmo_offset mp)) (\<lambda>d. usize_add d (mp_map_to_addr mp))"

definition check_perm :: "vm_mapping \<Rightarrow> nat \<Rightarrow> 8 word \<Rightarrow> unit res" where
  "check_perm mp page_idx perm =
     rbind (ok_or EINVAL (map_of (mp_page_perms mp) page_idx)) (\<lambda>page_perm.
       if vm_perm_contains page_perm perm then Ok () else Err EACCES)"

fun check_perms_loop :: "vm_mapping \<Rightarrow> nat list \<Rightarrow> 8 word \<Rightarrow> unit res" where
  "check_perms_loop mp [] perm = Ok ()"
| "check_perms_loop mp (i # is) perm = rbind (check_perm mp i perm) (\<lambda>_. check_perms_loop mp is perm)"

definition map_one_page :: "nat \<Rightarrow> vm_frame \<Rightarrow> bool \<Rightarrow> (('s, 'p) mp_state, unit) sres" where
  "map_one_page page_idx frame is_readonly st =
     (let mp = fst st; cow = vmo_is_cow (mp_the_vmo st) in
      sbind (slift (page_map_addr mp page_idx)) (\<lambda>map_addr.
      sbind (slift (unwrap_opt (map_of (mp_page_perms mp) page_idx))) (\<lambda>perm.
      sbind (slift (assert_or_panic (is_readonly \<longrightarrow> cow))) (\<lambda>_.
        let vm_perm = (if is_readonly then perm AND NOT VM_W else perm);
            options = (mo_set_addr mo_new (Some map_addr))\<lparr>mo_perm := vm_perm\<rparr>
        in sbind (if cow \<and> ms_is_mapped (aw_space (snd st)) map_addr then
                    on_world (\<lambda>aw. case on_space (\<lambda>ms. vs_unmap ms (map_addr, map_addr + PAGE_SIZE)) aw of
                                     (Ok u, aw') \<Rightarrow> (Ok u, aw') | (_, aw') \<Rightarrow> (Panic, aw'))
                  else sreturn ()) (\<lambda>_.
           sbind (on_world (on_space (\<lambda>ms. vs_map ms [frame] options))) (\<lambda>_.
             smod (\<lambda>(mp, aw). (mp\<lparr>mp_mapped_pages := btm_insert page_idx () (mp_mapped_pages mp)\<rparr>, aw))))))) st)"

definition unmap_one_page :: "nat \<Rightarrow> (('s, 'p) mp_state, unit) sres" where
  "unmap_one_page page_idx st =
     sbind (slift (page_map_addr (fst st) page_idx)) (\<lambda>map_addr.
     sbind (if ms_is_mapped (aw_space (snd st)) map_addr
            then on_world (on_space (\<lambda>ms. vs_unmap ms (map_addr, map_addr + PAGE_SIZE)))
            else sreturn ()) (\<lambda>_.
       smod (\<lambda>(mp, aw). (mp\<lparr>mp_mapped_pages := btm_remove page_idx (mp_mapped_pages mp)\<rparr>, aw)))) st"

fun unmap_pages_loop :: "nat list \<Rightarrow> (('s, 'p) mp_state, unit) sres" where
  "unmap_pages_loop [] = sreturn ()"
| "unmap_pages_loop (i # is) = sbind (unmap_one_page i) (\<lambda>_. unmap_pages_loop is)"

definition mp_unmap :: "range \<Rightarrow> bool \<Rightarrow> (('s, 'p) mp_state, unit) sres" where
  "mp_unmap rng may_destroy st =
     (let mp = fst st in
      sbind (slift (usize_sub (fst rng) (mp_map_to_addr mp))) (\<lambda>s.
      sbind (slift (usize_sub (snd rng) (mp_map_to_addr mp))) (\<lambda>e.
      sbind (slift (get_page_idx_range (s + mp_vmo_offset mp, e + mp_vmo_offset mp))) (\<lambda>(a, b).
      sbind (unmap_pages_loop [a..<b]) (\<lambda>_.
        smod (\<lambda>(mp, aw). (if may_destroy \<and> rng = mp_range mp then mp\<lparr>mp_is_destroyed := False\<rparr> else mp, aw)))))) st)"

fun protect_pages_loop :: "8 word \<Rightarrow> nat list \<Rightarrow> (('s, 'p) mp_state, unit) sres" where
  "protect_pages_loop perm [] = sreturn ()"
| "protect_pages_loop perm (i # is) =
     sbind (smod (\<lambda>(mp, aw). (mp\<lparr>mp_page_perms := btm_insert i perm (mp_page_perms mp)\<rparr>, aw))) (\<lambda>_ st.
     sbind (slift (page_map_addr (fst st) i)) (\<lambda>page_addr.
     sbind (if ms_is_mapped (aw_space (snd st)) page_addr
            then on_world (on_space (\<lambda>ms. vs_protect ms (page_addr, page_addr + PAGE_SIZE) perm))
            else sreturn ()) (\<lambda>_. protect_pages_loop perm is)) st)"

definition mp_protect_inner :: "32 word \<Rightarrow> range \<Rightarrow> (('s, 'p) mp_state, unit) sres" where
  "mp_protect_inner perms rng st =
     (let mp = fst st in
      sbind (slift (assert_or_panic (fst rng mod PAGE_SIZE = 0 \<and> snd rng mod PAGE_SIZE = 0))) (\<lambda>_.
      sbind (slift (usize_sub (fst rng) (mp_map_to_addr mp))) (\<lambda>s.
      sbind (slift (usize_sub (snd rng) (mp_map_to_addr mp))) (\<lambda>e.
        protect_pages_loop (vm_perm_from_perms perms)
          [(s + mp_vmo_offset mp) div PAGE_SIZE ..< (e + mp_vmo_offset mp) div PAGE_SIZE]))) st)"

definition mp_protect :: "32 word \<Rightarrow> range \<Rightarrow> (('s, 'p) mp_state, unit) sres" where
  "mp_protect perms rng st =
     sbind (slift (check_rights (mp_rights (fst st)) (rights_from_perms perms))) (\<lambda>_. mp_protect_inner perms rng) st"

text \<open>The result of \<^verbatim>\<open>unmap_one_page\<close> is ignored while trimming; a panic is not a result.\<close>

definition ignore_result :: "('st, unit) sres \<Rightarrow> ('st, unit) sres" where
  "ignore_result f st = (case f st of (Err e, st') \<Rightarrow> (Ok (), st') | out \<Rightarrow> out)"

fun trim_left_loop :: "nat list \<Rightarrow> (('s, 'p) mp_state, unit) sres" where
  "trim_left_loop [] = sreturn ()"
| "trim_left_loop (i # is) =
     sbind (smod (\<lambda>(mp, aw). (mp\<lparr>mp_page_perms := btm_remove i (mp_page_perms mp)\<rparr>, aw))) (\<lambda>_ st.
       if map_of (mp_mapped_pages (fst st)) i \<noteq> None then
         sbind (smod (\<lambda>(mp, aw). (mp\<lparr>mp_mapped_pages := btm_remove i (mp_mapped_pages mp)\<rparr>, aw))) (\<lambda>_.
         sbind (ignore_result (unmap_one_page i)) (\<lambda>_. trim_left_loop is)) st
       else trim_left_loop is st)"

definition trim_left :: "nat \<Rightarrow> (('s, 'p) mp_state, nat) sres" where
  "trim_left vaddr st =
     (let mp = fst st in
      sbind (slift (assert_or_panic (mp_map_to_addr mp \<le> vaddr \<and> vaddr \<le> mp_map_to_addr mp + mp_map_size mp))) (\<lambda>_.
      sbind (slift (assert_or_panic (vaddr mod PAGE_SIZE = 0))) (\<lambda>_.
        let trim_size = vaddr - mp_map_to_addr mp;
            old_vmo_offset = mp_vmo_offset mp
        in sbind (smod (\<lambda>(mp, aw). (mp\<lparr>mp_map_to_addr := vaddr, mp_vmo_offset := old_vmo_offset + trim_size,
                                       mp_map_size := mp_map_size mp - trim_size\<rparr>, aw))) (\<lambda>_.
           sbind (trim_left_loop [old_vmo_offset div PAGE_SIZE ..< (old_vmo_offset + trim_size) div PAGE_SIZE]) (\<lambda>_.
             sreturn vaddr)))) st)"

fun trim_right_loop :: "nat list \<Rightarrow> (('s, 'p) mp_state, unit) sres" where
  "trim_right_loop [] = sreturn ()"
| "trim_right_loop (i # is) =
     sbind (smod (\<lambda>(mp, aw). (mp\<lparr>mp_page_perms := btm_remove i (mp_page_perms mp)\<rparr>, aw))) (\<lambda>_.
     sbind (ignore_result (unmap_one_page i)) (\<lambda>_. trim_right_loop is))"

definition trim_right :: "nat \<Rightarrow> (('s, 'p) mp_state, nat) sres" where
  "trim_right vaddr st =
     (let mp = fst st in
      sbind (slift (assert_or_panic (mp_map_to_addr mp \<le> vaddr \<and> vaddr \<le> mp_map_to_addr mp + mp_map_size mp))) (\<lambda>_.
      sbind (slift (assert_or_panic (vaddr mod PAGE_SIZE = 0))) (\<lambda>_.
      sbind (trim_right_loop [(vaddr - mp_map_to_addr mp + mp_vmo_offset mp) div PAGE_SIZE ..<
                              (mp_map_size mp + mp_vmo_offset mp) div PAGE_SIZE]) (\<lambda>_.
      sbind (smod (\<lambda>(mp, aw). (mp\<lparr>mp_map_size := vaddr - mp_map_to_addr mp\<rparr>, aw))) (\<lambda>_.
        sreturn (mp_map_to_addr mp))))) st)"

definition mp_try_clone :: "vm_mapping \<Rightarrow> vm_mapping res" where
  "mp_try_clone mp = rbind (cap_dup (mp_rights mp)) (\<lambda>r. Ok (mp\<lparr>mp_rights := r\<rparr>))"

text \<open>The result of \<^verbatim>\<open>trim_mapping\<close>: whether the address of the mapping is to be removed, and the mapping to be
  appended under its new address, if any.\<close>

definition trim_mapping :: "range \<Rightarrow> (('s, 'p) mp_state, bool \<times> (nat \<times> vm_mapping) list) sres" where
  "trim_mapping trim st =
     (let mp = fst st; rng = mp_range mp in
      if \<not> is_intersected rng trim then (Ok (False, []), st)
      else if fst trim \<le> mp_map_to_addr mp \<and> snd trim \<ge> mp_map_to_addr mp + mp_map_size mp then
        sbind (mp_unmap trim True) (\<lambda>_. sreturn (True, [])) st
      else if fst trim \<le> fst rng then
        (if snd trim \<le> snd rng then
           sbind (trim_left (snd trim)) (\<lambda>new_map_addr st'. (Ok (True, [(new_map_addr, fst st')]), st')) st
         else (Ok (True, []), st))
      else
        sbind (if snd trim \<le> snd rng then
                 sbind (slift (mp_try_clone mp)) (\<lambda>another st.
                   case trim_left (snd trim) (another, snd st) of
                     (Ok addr, (another', aw')) \<Rightarrow> (Ok [(addr, another')], (fst st, aw'))
                   | (Err e, (_, aw')) \<Rightarrow> (Err e, (fst st, aw'))
                   | (Panic, (_, aw')) \<Rightarrow> (Panic, (fst st, aw')))
               else sreturn []) (\<lambda>app.
        sbind (trim_right (fst trim)) (\<lambda>_. sreturn (False, app))) st)"

section \<open>Access through a mapping\<close>

definition on_mp_vmo :: "(('s, 'p) vmo_state, 'a) sres \<Rightarrow> (('s, 'p) mp_state, 'a) sres" where
  "on_mp_vmo f st = on_world (on_vmo (mp_vmo (fst st)) f) st"

definition mp_read_bytes :: "('s \<Rightarrow> nat \<Rightarrow> nat option \<times> 's) \<Rightarrow> nat \<Rightarrow> slice \<Rightarrow> (('s, 'p) mp_state, unit) sres" where
  "mp_read_bytes al offset buf st =
     (let mp = fst st; vmo_read_offset = mp_vmo_offset mp + offset in
      sbind (slift (rbind (usize_add vmo_read_offset (snd buf)) (\<lambda>e. get_page_idx_range (vmo_read_offset, e)))) (\<lambda>(a, b).
      sbind (slift (check_perms_loop mp [a..<b] VM_R)) (\<lambda>_.
        vm_io (on_mp_vmo (cap_read_bytes (mp_rights mp) al vmo_read_offset buf)))) st)"

definition mp_write_bytes :: "('s \<Rightarrow> nat \<Rightarrow> nat option \<times> 's) \<Rightarrow> nat \<Rightarrow> slice \<Rightarrow> (('s, 'p) mp_state, unit) sres" where
  "mp_write_bytes al offset buf st =
     (let mp = fst st; vmo_write_offset = mp_vmo_offset mp + offset in
      sbind (slift (rbind (usize_add vmo_write_offset (snd buf)) (\<lambda>e. get_page_idx_range (vmo_write_offset, e)))) (\<lambda>(a, b).
      sbind (slift (check_perms_loop mp [a..<b] VM_W)) (\<lambda>_.
        vm_io (on_mp_vmo (cap_write_bytes (mp_rights mp) al vmo_write_offset buf)))) st)"

definition mp_handle_page_fault :: "('s \<Rightarrow> nat \<Rightarrow> nat option \<times> 's) \<Rightarrow> nat \<Rightarrow> bool \<Rightarrow> bool \<Rightarrow> (('s, 'p) mp_state, unit) sres" where
  "mp_handle_page_fault al page_fault_addr not_present write st =
     (let mp = fst st; v = mp_the_vmo st in
      sbind (slift (usize_sub (mp_vmo_offset mp + page_fault_addr) (mp_map_to_addr mp))) (\<lambda>vmo_offset.
        if vmo_offset \<ge> vmo_size v then slift (Err EACCES)
        else
          let page_idx = vmo_offset div PAGE_SIZE in
          sbind (slift (check_rights (mp_rights mp) (if write then R_WRITE else R_READ))) (\<lambda>_.
          sbind (slift (check_perm mp page_idx (if write then VM_W else VM_R))) (\<lambda>_.
          sbind (on_mp_vmo (get_committed_frame al page_idx write)) (\<lambda>frame.
            map_one_page page_idx frame (vmo_is_cow v \<and> \<not> write))))) st)"

definition unmap_and_decommit :: "range \<Rightarrow> (('s, 'p) mp_state, unit) sres" where
  "unmap_and_decommit rng st =
     sbind (mp_unmap rng False) (\<lambda>_ st.
       let mp = fst st in
       sbind (slift (usize_sub (fst rng) (mp_map_to_addr mp))) (\<lambda>s.
       sbind (slift (usize_sub (snd rng) (mp_map_to_addr mp))) (\<lambda>e.
         on_mp_vmo (cap_decommit (mp_rights mp) (s + mp_vmo_offset mp, e + mp_vmo_offset mp)))) st) st"

text \<open>The new mapping of a copy of an address space maps a new copy-on-write child.\<close>

definition mp_new_cow :: "('s \<Rightarrow> nat \<Rightarrow> nat option \<times> 's) \<Rightarrow> vm_mapping \<Rightarrow> (('s, 'p) as_world, vm_mapping) sres" where
  "mp_new_cow al mp aw =
     (if \<not> rights_contain (mp_rights mp) R_DUP then (Panic, aw)
      else sbind (on_vmo (mp_vmo mp) (\<lambda>st. alloc_child_vmo al (0, vmo_size (fst st)) (child_flags_default (fst st)) CowChild st)) (\<lambda>child aw'.
             (Ok (mp\<lparr>mp_mapped_pages := [], mp_vmo := length (aw_vmos aw')\<rparr>), aw'\<lparr>aw_vmos := aw_vmos aw' @ [child]\<rparr>)) aw)"

end
