(* ===== verification/Vmar.thy ===== *)
theory Vmar
  imports Vm_Mapping
begin

text \<open>
  Virtual memory address regions: \<^verbatim>\<open>services/libs/aster-std/src/vm/vmar/mod.rs\<close>, \<^verbatim>\<open>vmar/options.rs\<close>,
  \<^verbatim>\<open>vmar/dyn_cap.rs\<close> and the part of \<^verbatim>\<open>vmar/vm_mapping.rs\<close> that adds mappings, with the system calls
  \<^verbatim>\<open>munmap\<close> and \<^verbatim>\<open>mprotect\<close>.

  A region is the content of its \<^verbatim>\<open>Arc<Vmar_>\<close>, with its children inside. The free regions, mappings and
  children are ordered maps, whose loops run over the entries in the order of their keys. A loop that
  changes the mappings in place rebuilds the list. All regions of a tree share the world of the address
  space.
\<close>

section \<open>Free regions\<close>

type_synonym free_map = "(nat, range) btree_map"

definition allocate_range :: "range \<Rightarrow> range \<Rightarrow> range list" where
  "allocate_range self rng =
     (if fst self < fst rng then [(fst self, fst rng)] else []) @
     (if snd rng < snd self then [(snd rng, snd self)] else [])"

definition merge_other_region :: "range \<Rightarrow> range \<Rightarrow> range res" where
  "merge_other_region self other =
     rbind (assert_or_panic (snd self = fst other)) (\<lambda>_.
     rbind (assert_or_panic (fst self < snd other)) (\<lambda>_. Ok (fst self, snd other)))"

definition insert_region :: "range \<Rightarrow> free_map \<Rightarrow> free_map" where
  "insert_region r m = btm_insert (fst r) r m"

definition insert_regions :: "range list \<Rightarrow> free_map \<Rightarrow> free_map" where
  "insert_regions rs m = btm_insert_all (map (\<lambda>r. (fst r, r)) rs) m"

text \<open>The inner loop: merge the region with the one that starts at its end, while there is one. Each round
  removes a region, so there are at most as many rounds as regions.\<close>

function merge_chain :: "range \<Rightarrow> nat \<Rightarrow> free_map \<Rightarrow> (range \<times> free_map) res" where
  "merge_chain r region_end m =
     (case map_of m region_end of
        None \<Rightarrow> Ok (r, m)
      | Some another \<Rightarrow>
          (case merge_other_region r another of
             Ok r' \<Rightarrow> merge_chain r' (snd another) (btm_remove region_end m)
           | Err e \<Rightarrow> Err e
           | Panic \<Rightarrow> Panic))"
  by auto
termination
proof (relation "measure (\<lambda>(r, e, m). length m)", goal_cases)
  case (2 r region_end m another r')
  then show ?case by (simp add: length_btm_remove_less)
qed simp

fun merge_keys :: "nat list \<Rightarrow> free_map \<Rightarrow> free_map \<Rightarrow> free_map res" where
  "merge_keys [] m new_regions = Ok new_regions"
| "merge_keys (key # keys) m new_regions =
     (case map_of m key of
        None \<Rightarrow> merge_keys keys m new_regions
      | Some r \<Rightarrow>
          rbind (merge_chain r (snd r) (btm_remove key m)) (\<lambda>(r', m').
            merge_keys keys m' (insert_region r' new_regions)))"

definition merge_continuous_regions :: "free_map \<Rightarrow> free_map res" where
  "merge_continuous_regions m = merge_keys (btm_keys m) m []"

section \<open>The region\<close>

datatype vmar = Vmar
  (vr_is_destroyed: bool) (vr_children: "(nat \<times> vmar) list") (vr_mappings: "(nat, vm_mapping) btree_map")
  (vr_free: free_map) (vr_base: nat) (vr_size: nat)

abbreviation ROOT_VMAR_LOWEST_ADDR :: nat where "ROOT_VMAR_LOWEST_ADDR \<equiv> 0x100000"
abbreviation ROOT_VMAR_HIGHEST_ADDR :: nat where "ROOT_VMAR_HIGHEST_ADDR \<equiv> 0x100000000000"

definition vr_new_root :: vmar where
  "vr_new_root = Vmar False [] [] [(ROOT_VMAR_LOWEST_ADDR, (ROOT_VMAR_LOWEST_ADDR, ROOT_VMAR_HIGHEST_ADDR))]
     0 ROOT_VMAR_HIGHEST_ADDR"

definition vr_range :: "vmar \<Rightarrow> range" where
  "vr_range v = (vr_base v, vr_base v + vr_size v)"

definition set_free :: "free_map \<Rightarrow> vmar \<Rightarrow> vmar" where
  "set_free m v = Vmar (vr_is_destroyed v) (vr_children v) (vr_mappings v) m (vr_base v) (vr_size v)"

definition set_mappings :: "(nat, vm_mapping) btree_map \<Rightarrow> vmar \<Rightarrow> vmar" where
  "set_mappings m v = Vmar (vr_is_destroyed v) (vr_children v) m (vr_free v) (vr_base v) (vr_size v)"

definition set_children :: "(nat \<times> vmar) list \<Rightarrow> vmar \<Rightarrow> vmar" where
  "set_children cs v = Vmar (vr_is_destroyed v) cs (vr_mappings v) (vr_free v) (vr_base v) (vr_size v)"

lemma set_sel [simp]:
  "vr_free (set_free m v) = m" "vr_free (set_mappings mm v) = vr_free v" "vr_free (set_children cs v) = vr_free v"
  "vr_mappings (set_free m v) = vr_mappings v" "vr_mappings (set_mappings mm v) = mm" "vr_mappings (set_children cs v) = vr_mappings v"
  "vr_children (set_free m v) = vr_children v" "vr_children (set_mappings mm v) = vr_children v" "vr_children (set_children cs v) = cs"
  "vr_base (set_free m v) = vr_base v" "vr_base (set_mappings mm v) = vr_base v" "vr_base (set_children cs v) = vr_base v"
  "vr_size (set_free m v) = vr_size v" "vr_size (set_mappings mm v) = vr_size v" "vr_size (set_children cs v) = vr_size v"
  by (simp_all add: set_free_def set_mappings_def set_children_def)

section \<open>Finding and taking free regions\<close>

fun find_free_loop :: "(nat \<times> range) list \<Rightarrow> nat option \<Rightarrow> nat \<Rightarrow> nat \<Rightarrow> (nat \<times> nat) res" where
  "find_free_loop [] child_offset child_size align = Err EACCES"
| "find_free_loop ((region_base, free_region) # rs) child_offset child_size align =
     (case child_offset of
        Some off \<Rightarrow>
          if region_base \<le> off then
            rbind (usize_add off child_size) (\<lambda>e.
              if e \<le> snd free_region then Ok (region_base, off) else find_free_loop rs child_offset child_size align)
          else find_free_loop rs child_offset child_size align
      | None \<Rightarrow>
          rbind (unwrap_opt (usize_align_up (fst free_region) align)) (\<lambda>real_start.
          rbind (usize_add real_start child_size) (\<lambda>real_end.
            if fst free_region \<le> real_start \<and> real_end \<le> snd free_region then Ok (region_base, real_start)
            else find_free_loop rs child_offset child_size align)))"

definition find_free_region_for_child :: "vmar \<Rightarrow> nat option \<Rightarrow> nat \<Rightarrow> nat \<Rightarrow> (nat \<times> nat) res" where
  "find_free_region_for_child v child_offset child_size align = find_free_loop (vr_free v) child_offset child_size align"

definition alloc_child_vmar :: "nat option \<Rightarrow> nat \<Rightarrow> nat \<Rightarrow> vmar \<Rightarrow> (vmar \<times> vmar) res" where
  "alloc_child_vmar child_offset child_size align v =
     rbind (find_free_region_for_child v child_offset child_size align) (\<lambda>(region_base, off).
     rbind (unwrap_opt (map_of (vr_free v) region_base)) (\<lambda>free_region.
     rbind (usize_add off child_size) (\<lambda>e.
       let free = insert_regions (allocate_range free_region (off, e)) (btm_remove region_base (vr_free v));
           child = Vmar False [] [] [(off, (off, e))] off child_size
       in Ok (child, set_children (btm_insert off child (vr_children v)) (set_free free v)))))"

definition to_fres :: "'a res \<Rightarrow> 'a fres" where
  "to_fres r = (case r of Ok x \<Rightarrow> Ok x | Err e \<Rightarrow> Err (frame_error_of_errno e) | Panic \<Rightarrow> Panic)"

definition vmar_child_alloc :: "nat option \<Rightarrow> nat option \<Rightarrow> nat \<Rightarrow> vmar \<Rightarrow> (vmar \<times> vmar) fres" where
  "vmar_child_alloc align offset sz v =
     rbind (case align of
              None \<Rightarrow> Ok PAGE_SIZE
            | Some al \<Rightarrow>
                rbind (assert_or_panic (al mod PAGE_SIZE = 0)) (\<lambda>_.
                rbind (assert_or_panic (is_power_of_two (of_nat al :: 64 word))) (\<lambda>_.
                  if al mod PAGE_SIZE \<noteq> 0 \<or> \<not> is_power_of_two (of_nat al :: 64 word) then Err InvalidArgs else Ok al))) (\<lambda>al.
       if sz mod al \<noteq> 0 then Err InvalidArgs
       else rbind (case offset of
                     None \<Rightarrow> Ok None
                   | Some off \<Rightarrow>
                       if off mod PAGE_SIZE \<noteq> 0 then Err InvalidArgs
                       else rbind (usize_add off (vr_base v)) (\<lambda>root_off.
                              if root_off mod al \<noteq> 0 then Err InvalidArgs else Ok (Some root_off))) (\<lambda>root_off.
              to_fres (alloc_child_vmar root_off sz al v)))"

fun split_loop :: "nat list \<Rightarrow> range \<Rightarrow> free_map \<Rightarrow> free_map res" where
  "split_loop [] map_range m = Ok m"
| "split_loop (b # bs) map_range m =
     rbind (unwrap_opt (map_of m b)) (\<lambda>free_region.
     rbind (get_intersected_range free_region map_range) (\<lambda>isect.
       split_loop bs map_range (insert_regions (allocate_range free_region isect) (btm_remove b m))))"
type_synonym ('s, 'p) vr_state = "vmar \<times> ('s, 'p) as_world"

text \<open>A loop over the mappings that changes each in place and collects results.\<close>

fun mappings_loop ::
    "(nat \<Rightarrow> (('s, 'p) mp_state, 'r list) sres) \<Rightarrow> (nat, vm_mapping) btree_map
     \<Rightarrow> ((nat, vm_mapping) btree_map \<times> ('s, 'p) as_world, 'r list) sres" where
  "mappings_loop f [] (acc, aw) = (Ok [], (acc, aw))"
| "mappings_loop f ((k, mp) # ms) (acc, aw) =
     (case f k (mp, aw) of
        (Ok xs, (mp', aw')) \<Rightarrow>
          (case mappings_loop f ms (acc @ [(k, mp')], aw') of
             (Ok ys, st) \<Rightarrow> (Ok (xs @ ys), st) | (Err e, st) \<Rightarrow> (Err e, st) | (Panic, st) \<Rightarrow> (Panic, st))
      | (Err e, (mp', aw')) \<Rightarrow> (Err e, (acc @ (k, mp') # ms, aw'))
      | (Panic, (mp', aw')) \<Rightarrow> (Panic, (acc @ (k, mp') # ms, aw')))"

definition for_mappings ::
    "(nat \<Rightarrow> (('s, 'p) mp_state, 'r list) sres) \<Rightarrow> (('s, 'p) vr_state, 'r list) sres" where
  "for_mappings f st =
     (case mappings_loop f (vr_mappings (fst st)) ([], snd st) of
        (r, (ms, aw)) \<Rightarrow> (r, (set_mappings ms (fst st), aw)))"

text \<open>The bookkeeping of \<^verbatim>\<open>trim_mapping\<close>: addresses to remove and mappings to append.\<close>

datatype trim_out = RemoveAddr nat | AppendMapping nat vm_mapping | FreedRange range

definition trim_outs :: "nat \<Rightarrow> bool \<times> (nat \<times> vm_mapping) list \<Rightarrow> trim_out list" where
  "trim_outs map_to_addr out =
     (if fst out then [RemoveAddr map_to_addr] else []) @ map (\<lambda>(a, m). AppendMapping a m) (snd out)"

definition apply_trims :: "trim_out list \<Rightarrow> (nat, vm_mapping) btree_map \<Rightarrow> (nat, vm_mapping) btree_map" where
  "apply_trims outs ms =
     fold (\<lambda>out m. case out of AppendMapping a mp \<Rightarrow> btm_insert a mp m | _ \<Rightarrow> m) outs
       (fold (\<lambda>out m. case out of RemoveAddr a \<Rightarrow> btm_remove a m | _ \<Rightarrow> m) outs ms)"

definition trim_existing_mappings :: "range \<Rightarrow> (('s, 'p) vr_state, unit) sres" where
  "trim_existing_mappings trim =
     sbind (for_mappings (\<lambda>k st. sbind (trim_mapping trim) (\<lambda>out. sreturn (trim_outs (mp_map_to_addr (fst st)) out)) st)) (\<lambda>outs.
       smod (\<lambda>(v, aw). (set_mappings (apply_trims outs (vr_mappings v)) v, aw)))"

definition allocate_free_region_for_vmo ::
    "nat \<Rightarrow> nat \<Rightarrow> nat option \<Rightarrow> nat \<Rightarrow> bool \<Rightarrow> (('s, 'p) vr_state, nat) sres" where
  "allocate_free_region_for_vmo vsz sz offset align can_overwrite =
     (let map_size = max sz vsz in
      if can_overwrite then
        sbind (slift (ok_or EINVAL offset)) (\<lambda>off.
        sbind (slift (usize_add off map_size)) (\<lambda>e.
        sbind (sget (\<lambda>st. vr_free (fst st))) (\<lambda>free.
        sbind (slift (split_loop (map fst (filter (\<lambda>(b, r). is_intersected r (off, e)) free)) (off, e) free)) (\<lambda>free'.
        sbind (smod (\<lambda>(v, aw). (set_free free' v, aw))) (\<lambda>_.
        sbind (trim_existing_mappings (off, e)) (\<lambda>_. sreturn off))))))
      else
        sbind (sget fst) (\<lambda>v.
        sbind (slift (find_free_region_for_child v offset map_size align)) (\<lambda>(free_region_base, off).
        sbind (slift (unwrap_opt (map_of (vr_free v) free_region_base))) (\<lambda>free_region.
        sbind (slift (usize_add off map_size)) (\<lambda>e.
        sbind (slift (get_intersected_range free_region (off, e))) (\<lambda>isect.
        sbind (smod (\<lambda>(v, aw). (set_free (insert_regions (allocate_range free_region isect)
                                   (btm_remove free_region_base (vr_free v))) v, aw))) (\<lambda>_. sreturn off)))))))"

section \<open>Adding a mapping\<close>

record map_options =
  op_vmo :: nat
  op_rights :: "32 word"
  op_perms :: "32 word"
  op_vmo_offset :: nat
  op_size :: nat
  op_offset :: "nat option"
  op_align :: nat
  op_can_overwrite :: bool

definition map_options_new :: "nat \<Rightarrow> 32 word \<Rightarrow> nat \<Rightarrow> 32 word \<Rightarrow> map_options" where
  "map_options_new vmo rights vsz perms =
     \<lparr>op_vmo = vmo, op_rights = rights, op_perms = perms, op_vmo_offset = 0, op_size = vsz, op_offset = None,
      op_align = PAGE_SIZE, op_can_overwrite = False\<rparr>"

fun check_children_overlap :: "range \<Rightarrow> (nat \<times> vmar) list \<Rightarrow> bool" where
  "check_children_overlap rng [] = False"
| "check_children_overlap rng ((_, c) # cs) = (is_intersected rng (vr_range c) \<or> check_children_overlap rng cs)"

definition check_vmo_overwrite :: "vmar \<Rightarrow> range \<Rightarrow> bool \<Rightarrow> unit res" where
  "check_vmo_overwrite v vmo_range can_overwrite =
     (if check_children_overlap vmo_range (vr_children v) then Err EACCES
      else if \<not> can_overwrite \<and> list_ex (\<lambda>(b, mp). is_intersected vmo_range (b, b + mp_map_size mp)) (vr_mappings v)
      then Err EACCES else Ok ())"

definition check_overwrite :: "map_options \<Rightarrow> nat \<Rightarrow> vmar \<Rightarrow> unit res" where
  "check_overwrite ops vsz v =
     rbind (assert_or_panic (op_can_overwrite ops \<longrightarrow> op_offset ops \<noteq> None)) (\<lambda>_.
       if op_can_overwrite ops \<and> op_offset ops = None then Err EINVAL
       else case op_offset ops of
         None \<Rightarrow> Ok ()
       | Some offset \<Rightarrow>
           rbind (usize_add offset (max (op_size ops) vsz)) (\<lambda>e. check_vmo_overwrite v (offset, e) (op_can_overwrite ops)))"

definition check_options :: "map_options \<Rightarrow> nat \<Rightarrow> vmar \<Rightarrow> unit res" where
  "check_options ops vsz v =
     (let align = op_align ops in
      rbind (assert_or_panic (align mod PAGE_SIZE = 0)) (\<lambda>_.
      rbind (assert_or_panic (is_power_of_two (of_nat align :: 64 word))) (\<lambda>_.
        if align mod PAGE_SIZE \<noteq> 0 \<or> \<not> is_power_of_two (of_nat align :: 64 word) then Err EINVAL
        else
          rbind (assert_or_panic (op_vmo_offset ops mod align = 0)) (\<lambda>_.
            if op_vmo_offset ops mod align \<noteq> 0 then Err EINVAL
            else
              rbind (case op_offset ops of
                       None \<Rightarrow> Ok ()
                     | Some offset \<Rightarrow> rbind (assert_or_panic (offset mod align = 0)) (\<lambda>_. if offset mod align \<noteq> 0 then Err EINVAL else Ok ())) (\<lambda>_.
              rbind (check_rights (op_rights ops) (rights_from_perms (op_perms ops))) (\<lambda>_.
                check_overwrite ops vsz v))))))"

definition build_mapping :: "map_options \<Rightarrow> (('s, 'p) vr_state, vm_mapping) sres" where
  "build_mapping ops =
     sbind (sget (\<lambda>st. vmo_size (aw_vmos (snd st) ! op_vmo ops))) (\<lambda>sz.
     sbind (allocate_free_region_for_vmo sz (op_size ops) (op_offset ops) (op_align ops) (op_can_overwrite ops)) (\<lambda>map_to_addr.
     sbind (slift (usize_add (op_vmo_offset ops) (op_size ops))) (\<lambda>e.
     sbind (slift (get_page_idx_range (op_vmo_offset ops, e))) (\<lambda>(a, b).
       sreturn \<lparr>mp_vmo_offset = op_vmo_offset ops, mp_map_size = op_size ops, mp_map_to_addr = map_to_addr,
                mp_is_destroyed = False, mp_mapped_pages = [],
                mp_page_perms = fold (\<lambda>i. btm_insert i (vm_perm_from_perms (op_perms ops))) [a..<b] [],
                mp_vmo = op_vmo ops, mp_rights = op_rights ops\<rparr>))))"

definition add_mapping :: "vm_mapping \<Rightarrow> vmar \<Rightarrow> vmar" where
  "add_mapping mp v = set_mappings (btm_insert (mp_map_to_addr mp) mp (vr_mappings v)) v"

definition map_build :: "map_options \<Rightarrow> (('s, 'p) vr_state, nat) sres" where
  "map_build ops =
     sbind (sget (\<lambda>(v, aw). check_options ops (vmo_size (aw_vmos aw ! op_vmo ops)) v)) (\<lambda>ok.
     sbind (slift ok) (\<lambda>_.
     sbind (build_mapping ops) (\<lambda>mp.
     sbind (smod (\<lambda>(v, aw). (add_mapping mp v, aw))) (\<lambda>_.
       sreturn (mp_map_to_addr mp)))))"
section \<open>Protection\<close>

fun check_protected_range :: "vmar \<Rightarrow> range \<Rightarrow> unit res"
  and check_protected_children :: "(nat \<times> vmar) list \<Rightarrow> range \<Rightarrow> unit res" where
  "check_protected_range (Vmar d cs ms fr b sz) rng =
     rbind (assert_or_panic (b \<le> fst rng)) (\<lambda>_.
     rbind (assert_or_panic (snd rng \<le> b + sz)) (\<lambda>_.
       if list_ex (\<lambda>(_, r). is_intersected r rng) fr then Err EACCES else check_protected_children cs rng))"
| "check_protected_children [] rng = Ok ()"
| "check_protected_children ((k, c) # cs) rng =
     rbind (if is_intersected (vr_range c) rng
            then rbind (get_intersected_range (vr_range c) rng) (\<lambda>isect. check_protected_range c isect) else Ok ()) (\<lambda>_.
       check_protected_children cs rng)"

definition protect_mapping :: "32 word \<Rightarrow> range \<Rightarrow> nat \<Rightarrow> (('s, 'p) mp_state, unit list) sres" where
  "protect_mapping perms rng k st =
     (let mp_rng = (k, k + mp_map_size (fst st)) in
      if is_intersected rng mp_rng
      then sbind (slift (get_intersected_range rng mp_rng)) (\<lambda>isect. sbind (mp_protect perms isect) (\<lambda>_. sreturn [])) st
      else (Ok [], st))"

fun do_protect_inner :: "32 word \<Rightarrow> range \<Rightarrow> vmar \<Rightarrow> ('s, 'p) as_world \<Rightarrow> unit res \<times> vmar \<times> ('s, 'p) as_world"
  and do_protect_children :: "32 word \<Rightarrow> range \<Rightarrow> (nat \<times> vmar) list \<Rightarrow> ('s, 'p) as_world \<Rightarrow> unit res \<times> (nat \<times> vmar) list \<times> ('s, 'p) as_world" where
  "do_protect_inner perms rng (Vmar d cs ms fr b sz) aw =
     (case mappings_loop (protect_mapping perms rng) ms ([], aw) of
        (Ok _, (ms', aw')) \<Rightarrow>
          (case do_protect_children perms rng cs aw' of (r, (cs', aw'')) \<Rightarrow> (r, (Vmar d cs' ms' fr b sz, aw'')))
      | (Err e, (ms', aw')) \<Rightarrow> (Err e, (Vmar d cs ms' fr b sz, aw'))
      | (Panic, (ms', aw')) \<Rightarrow> (Panic, (Vmar d cs ms' fr b sz, aw')))"
| "do_protect_children perms rng [] aw = (Ok (), ([], aw))"
| "do_protect_children perms rng ((k, c) # cs) aw =
     (case (if is_intersected rng (vr_range c)
            then (case get_intersected_range rng (vr_range c) of
                    Ok isect \<Rightarrow> do_protect_inner perms isect c aw | Err e \<Rightarrow> (Err e, (c, aw)) | Panic \<Rightarrow> (Panic, (c, aw)))
            else (Ok (), (c, aw))) of
        (Ok _, (c', aw')) \<Rightarrow>
          (case do_protect_children perms rng cs aw' of (r, (cs', aw'')) \<Rightarrow> (r, ((k, c') # cs', aw'')))
      | (Err e, (c', aw')) \<Rightarrow> (Err e, ((k, c') # cs, aw'))
      | (Panic, (c', aw')) \<Rightarrow> (Panic, ((k, c') # cs, aw')))"

definition vr_protect :: "32 word \<Rightarrow> range \<Rightarrow> (('s, 'p) vr_state, unit) sres" where
  "vr_protect perms rng st =
     (if fst rng mod PAGE_SIZE \<noteq> 0 \<or> snd rng mod PAGE_SIZE \<noteq> 0 then (Panic, st)
      else sbind (slift (check_protected_range (fst st) rng)) (\<lambda>_ (v, aw). do_protect_inner perms rng v aw) st)"

section \<open>Page faults and access\<close>

text \<open>The first mapping whose range, by its key and size, satisfies \<open>P\<close> performs the operation.\<close>

fun on_first_mapping ::
    "(range \<Rightarrow> bool) \<Rightarrow> (nat \<Rightarrow> (('s, 'p) mp_state, 'a) sres) \<Rightarrow> (nat, vm_mapping) btree_map \<Rightarrow> ('s, 'p) as_world
     \<Rightarrow> ('a res \<times> (nat, vm_mapping) btree_map \<times> ('s, 'p) as_world) option" where
  "on_first_mapping P f [] aw = None"
| "on_first_mapping P f ((k, mp) # ms) aw =
     (if P (k, k + mp_map_size mp) then
        (case f k (mp, aw) of (r, (mp', aw')) \<Rightarrow> Some (r, ((k, mp') # ms, aw')))
      else map_option (\<lambda>(r, (ms', aw')). (r, ((k, mp) # ms', aw'))) (on_first_mapping P f ms aw))"

fun dispatch ::
    "(range \<Rightarrow> bool) \<Rightarrow> (nat \<Rightarrow> (('s, 'p) mp_state, 'a) sres) \<Rightarrow> (vmar \<Rightarrow> 'a res option) \<Rightarrow> vmar \<Rightarrow> ('s, 'p) as_world
     \<Rightarrow> 'a res \<times> vmar \<times> ('s, 'p) as_world"
  and dispatch_children ::
    "(range \<Rightarrow> bool) \<Rightarrow> (nat \<Rightarrow> (('s, 'p) mp_state, 'a) sres) \<Rightarrow> (vmar \<Rightarrow> 'a res option) \<Rightarrow> (nat \<times> vmar) list \<Rightarrow> ('s, 'p) as_world
     \<Rightarrow> ('a res \<times> (nat \<times> vmar) list \<times> ('s, 'p) as_world) option" where
  "dispatch P f guard (Vmar d cs ms fr b sz) aw =
     (case guard (Vmar d cs ms fr b sz) of
        Some r \<Rightarrow> (r, (Vmar d cs ms fr b sz, aw))
      | None \<Rightarrow>
          (case dispatch_children P f guard cs aw of
             Some (r, (cs', aw')) \<Rightarrow> (r, (Vmar d cs' ms fr b sz, aw'))
           | None \<Rightarrow>
               (case on_first_mapping P f ms aw of
                  Some (r, (ms', aw')) \<Rightarrow> (r, (Vmar d cs ms' fr b sz, aw'))
                | None \<Rightarrow> (Err EACCES, (Vmar d cs ms fr b sz, aw)))))"
| "dispatch_children P f guard [] aw = None"
| "dispatch_children P f guard ((k, c) # cs) aw =
     (if P (k, k + vr_size c) then
        (case dispatch P f guard c aw of (r, (c', aw')) \<Rightarrow> Some (r, ((k, c') # cs, aw')))
      else map_option (\<lambda>(r, (cs', aw')). (r, ((k, c) # cs', aw'))) (dispatch_children P f guard cs aw))"

definition vr_handle_page_fault ::
    "('s \<Rightarrow> nat \<Rightarrow> nat option \<times> 's) \<Rightarrow> nat \<Rightarrow> bool \<Rightarrow> bool \<Rightarrow> (('s, 'p) vr_state, unit) sres" where
  "vr_handle_page_fault al addr not_present write st =
     dispatch (\<lambda>r. fst r \<le> addr \<and> addr < snd r) (\<lambda>k. mp_handle_page_fault al addr not_present write)
       (\<lambda>v. if addr < vr_base v \<or> addr \<ge> vr_base v + vr_size v then Some (Err EACCES) else None) (fst st) (snd st)"

text \<open>A child is called with the offset from its own base, so all levels see the same range of addresses.\<close>

definition vr_read :: "('s \<Rightarrow> nat \<Rightarrow> nat option \<times> 's) \<Rightarrow> nat \<Rightarrow> slice \<Rightarrow> (('s, 'p) vr_state, unit) sres" where
  "vr_read al offset buf st =
     sbind (slift (usize_add (vr_base (fst st)) offset)) (\<lambda>s.
     sbind (slift (usize_add (snd buf) s)) (\<lambda>e (v, aw).
       dispatch (\<lambda>r. fst r \<le> s \<and> e \<le> snd r) (\<lambda>k. mp_read_bytes al (s - k) buf) (\<lambda>_. None) v aw)) st"

definition vr_write :: "('s \<Rightarrow> nat \<Rightarrow> nat option \<times> 's) \<Rightarrow> nat \<Rightarrow> slice \<Rightarrow> (('s, 'p) vr_state, unit) sres" where
  "vr_write al offset buf st =
     sbind (slift (ok_or EFAULT (checked_add (vr_base (fst st)) offset))) (\<lambda>s.
     sbind (slift (ok_or EFAULT (checked_add (snd buf) s))) (\<lambda>e (v, aw).
       dispatch (\<lambda>r. fst r \<le> s \<and> e \<le> snd r) (\<lambda>k. mp_write_bytes al (s - k) buf) (\<lambda>_. None) v aw)) st"

definition get_vm_mapping :: "vmar \<Rightarrow> nat \<Rightarrow> vm_mapping res" where
  "get_vm_mapping v offset =
     (case filter (\<lambda>(k, mp). k \<le> offset \<and> offset < k + mp_map_size mp) (vr_mappings v) of
        [] \<Rightarrow> Err EACCES | (_, mp) # _ \<Rightarrow> Ok mp)"
section \<open>Clearing and destroying\<close>

definition root_free :: free_map where
  "root_free = [(ROOT_VMAR_LOWEST_ADDR, (ROOT_VMAR_LOWEST_ADDR, ROOT_VMAR_HIGHEST_ADDR))]"

definition clear_space :: "(('s, 'p) as_world, unit) sres" where
  "clear_space aw = (case vs_clear (aw_space aw) of Some ms \<Rightarrow> (Ok (), aw\<lparr>aw_space := ms\<rparr>) | None \<Rightarrow> (Panic, aw))"

definition clear_root_vmar :: "bool \<Rightarrow> (('s, 'p) vr_state, unit) sres" where
  "clear_root_vmar is_root_vmar =
     sbind (slift (assert_or_panic is_root_vmar)) (\<lambda>_.
       if \<not> is_root_vmar then slift (Err EACCES)
       else sbind (on_world clear_space) (\<lambda>_.
            smod (\<lambda>(v, aw). (set_free root_free (set_mappings [] (set_children [] v)), aw))))"

definition merge_after :: "free_map \<Rightarrow> vmar \<Rightarrow> vmar res" where
  "merge_after new_regions v =
     rmap (\<lambda>m. set_free m v) (merge_continuous_regions (btm_insert_all new_regions (vr_free v)))"

definition unmap_whole :: "nat \<Rightarrow> (('s, 'p) mp_state, range list) sres" where
  "unmap_whole k st = sbind (mp_unmap (mp_range (fst st)) True) (\<lambda>_ st'. (Ok [mp_range (fst st')], st')) st"

fun destroy_all :: "vmar \<Rightarrow> ('s, 'p) as_world \<Rightarrow> unit res \<times> vmar \<times> ('s, 'p) as_world"
  and destroy_all_children ::
    "(nat \<times> vmar) list \<Rightarrow> ('s, 'p) as_world \<Rightarrow> range list res \<times> (nat \<times> vmar) list \<times> ('s, 'p) as_world" where
  "destroy_all (Vmar d cs ms fr b sz) aw =
     (case destroy_all_children cs aw of
        (Ok freed, (cs', aw1)) \<Rightarrow>
          (let fr1 = btm_insert_all (insert_regions freed []) fr in
           case mappings_loop unmap_whole ms ([], aw1) of
             (Ok rs, (ms', aw2)) \<Rightarrow>
               (case merge_after (insert_regions rs []) (Vmar True [] [] fr1 b sz) of
                  Ok v \<Rightarrow> (case clear_space aw2 of (r, aw3) \<Rightarrow> (r, (v, aw3)))
                | Err e \<Rightarrow> (Err e, (Vmar True [] [] fr1 b sz, aw2))
                | Panic \<Rightarrow> (Panic, (Vmar True [] [] fr1 b sz, aw2)))
           | (Err e, (ms', aw2)) \<Rightarrow> (Err e, (Vmar True [] ms' fr1 b sz, aw2))
           | (Panic, (ms', aw2)) \<Rightarrow> (Panic, (Vmar True [] ms' fr1 b sz, aw2)))
      | (Err e, (cs', aw1)) \<Rightarrow> (Err e, (Vmar True cs' ms fr b sz, aw1))
      | (Panic, (cs', aw1)) \<Rightarrow> (Panic, (Vmar True cs' ms fr b sz, aw1)))"
| "destroy_all_children [] aw = (Ok [], ([], aw))"
| "destroy_all_children ((k, c) # cs) aw =
     (case destroy_all c aw of
        (Ok _, (c', aw')) \<Rightarrow>
          (case destroy_all_children cs aw' of
             (Ok rs, (cs', aw'')) \<Rightarrow> (Ok (vr_range c' # rs), ((k, c') # cs', aw''))
           | (Err e, (cs', aw'')) \<Rightarrow> (Err e, ((k, c') # cs', aw''))
           | (Panic, (cs', aw'')) \<Rightarrow> (Panic, ((k, c') # cs', aw'')))
      | (Err e, (c', aw')) \<Rightarrow> (Err e, ((k, c') # cs, aw'))
      | (Panic, (c', aw')) \<Rightarrow> (Panic, ((k, c') # cs, aw')))"

fun check_destroy_children :: "range \<Rightarrow> (nat \<times> vmar) list \<Rightarrow> unit res" where
  "check_destroy_children rng [] = Ok ()"
| "check_destroy_children rng ((k, c) # cs) =
     (let e = k + vr_size c in
      if e \<le> fst rng \<or> k \<ge> snd rng then check_destroy_children rng cs
      else if fst rng \<le> k \<and> e \<le> snd rng then check_destroy_children rng cs
      else rbind (assert_or_panic (is_intersected rng (k, e))) (\<lambda>_. Err EACCES))"

definition check_destroy_range :: "vmar \<Rightarrow> range \<Rightarrow> unit res" where
  "check_destroy_range v rng =
     rbind (assert_or_panic (fst rng mod PAGE_SIZE = 0)) (\<lambda>_.
     rbind (assert_or_panic (snd rng mod PAGE_SIZE = 0)) (\<lambda>_. check_destroy_children rng (vr_children v)))"

text \<open>The loop over the children in \<^verbatim>\<open>destroy\<close>: the range of every child is noted as free.\<close>

fun destroy_children ::
    "range \<Rightarrow> (nat \<times> vmar) list \<Rightarrow> ('s, 'p) as_world \<Rightarrow> range list res \<times> (nat \<times> vmar) list \<times> ('s, 'p) as_world" where
  "destroy_children rng [] aw = (Ok [], ([], aw))"
| "destroy_children rng ((k, c) # cs) aw =
     (let child_range = vr_range c in
      case (if is_intersected rng child_range then destroy_all c aw else (Ok (), (c, aw))) of
        (Ok _, (c', aw')) \<Rightarrow>
          (case destroy_children rng cs aw' of
             (Ok rs, (cs', aw'')) \<Rightarrow> (Ok (child_range # rs), ((k, c') # cs', aw''))
           | (Err e, (cs', aw'')) \<Rightarrow> (Err e, ((k, c') # cs', aw''))
           | (Panic, (cs', aw'')) \<Rightarrow> (Panic, ((k, c') # cs', aw'')))
      | (Err e, (c', aw')) \<Rightarrow> (Err e, ((k, c') # cs, aw'))
      | (Panic, (c', aw')) \<Rightarrow> (Panic, ((k, c') # cs, aw')))"

definition destroy_in_mapping :: "range \<Rightarrow> nat \<Rightarrow> (('s, 'p) mp_state, trim_out list) sres" where
  "destroy_in_mapping rng k st =
     (let mp = fst st in
      if is_intersected (mp_range mp) rng
      then sbind (slift (get_intersected_range (mp_range mp) rng)) (\<lambda>isect.
           sbind (trim_mapping isect) (\<lambda>out. sreturn (trim_outs (mp_map_to_addr mp) out @ [FreedRange isect]))) st
      else (Ok [], st))"

fun freed_ranges :: "trim_out list \<Rightarrow> range list" where
  "freed_ranges [] = []"
| "freed_ranges (FreedRange r # outs) = r # freed_ranges outs"
| "freed_ranges (_ # outs) = freed_ranges outs"

definition vr_destroy :: "range \<Rightarrow> (('s, 'p) vr_state, unit) sres" where
  "vr_destroy rng st =
     sbind (slift (check_destroy_range (fst st) rng)) (\<lambda>_.
     sbind (\<lambda>(v, aw). case destroy_children rng (vr_children v) aw of (r, (cs', aw')) \<Rightarrow> (r, (set_children cs' v, aw'))) (\<lambda>freed.
     sbind (smod (\<lambda>(v, aw). (set_children (btm_retain (\<lambda>_ c. \<not> vr_is_destroyed c) (vr_children v)) v, aw))) (\<lambda>_.
     sbind (for_mappings (destroy_in_mapping rng)) (\<lambda>outs (v, aw).
       let ms = btm_retain (\<lambda>_ mp. \<not> mp_is_destroyed mp) (apply_trims outs (vr_mappings v));
           v' = set_mappings ms v
       in case merge_after (insert_regions (freed @ freed_ranges outs) []) v' of
            Ok v'' \<Rightarrow> (Ok (), (v'', aw))
          | Err e \<Rightarrow> (Err e, (v', aw))
          | Panic \<Rightarrow> (Panic, (v', aw)))))) st"

section \<open>Copying an address space\<close>

fun cow_mappings ::
    "('s \<Rightarrow> nat \<Rightarrow> nat option \<times> 's) \<Rightarrow> (nat, vm_mapping) btree_map \<Rightarrow> (('s, 'p) as_world, (nat, vm_mapping) btree_map) sres" where
  "cow_mappings al [] = sreturn []"
| "cow_mappings al ((k, mp) # ms) =
     sbind (mp_new_cow al mp) (\<lambda>mp'. sbind (cow_mappings al ms) (\<lambda>ms'. sreturn ((k, mp') # ms')))"

fun new_cow :: "('s \<Rightarrow> nat \<Rightarrow> nat option \<times> 's) \<Rightarrow> vmar \<Rightarrow> (('s, 'p) as_world, vmar) sres"
  and new_cow_children :: "('s \<Rightarrow> nat \<Rightarrow> nat option \<times> 's) \<Rightarrow> (nat \<times> vmar) list \<Rightarrow> (('s, 'p) as_world, (nat \<times> vmar) list) sres" where
  "new_cow al (Vmar d cs ms fr b sz) =
     sbind (new_cow_children al cs) (\<lambda>cs'. sbind (cow_mappings al ms) (\<lambda>ms'. sreturn (Vmar False cs' ms' fr b sz)))"
| "new_cow_children al [] = sreturn []"
| "new_cow_children al ((k, c) # cs) =
     sbind (new_cow al c) (\<lambda>c'. sbind (new_cow_children al cs) (\<lambda>cs'. sreturn ((k, c') # cs')))"

definition new_cow_root :: "('s \<Rightarrow> nat \<Rightarrow> nat option \<times> 's) \<Rightarrow> bool \<Rightarrow> vmar \<Rightarrow> (('s, 'p) as_world, vmar) sres" where
  "new_cow_root al has_parent v = (if has_parent then slift (Err EINVAL) else new_cow al v)"

section \<open>Capabilities and system calls\<close>

definition vmar_check_rights :: "32 word \<Rightarrow> 32 word \<Rightarrow> unit res" where
  "vmar_check_rights r q = (if rights_contain r q then Ok () else Err EACCES)"

definition vmar_protect :: "32 word \<Rightarrow> 32 word \<Rightarrow> range \<Rightarrow> (('s, 'p) vr_state, unit) sres" where
  "vmar_protect r perms rng = sbind (slift (vmar_check_rights r (rights_from_perms perms))) (\<lambda>_. vr_protect perms rng)"

definition vmar_dup :: "32 word \<Rightarrow> (32 word) res" where
  "vmar_dup r = rbind (vmar_check_rights r R_DUP) (\<lambda>_. Ok r)"

definition vmar_new_map :: "32 word \<Rightarrow> nat \<Rightarrow> 32 word \<Rightarrow> nat \<Rightarrow> 32 word \<Rightarrow> map_options res" where
  "vmar_new_map r vmo rights vsz perms = rbind (vmar_dup r) (\<lambda>_. Ok (map_options_new vmo rights vsz perms))"

definition vmar_new_child :: "32 word \<Rightarrow> nat option \<Rightarrow> nat option \<Rightarrow> nat \<Rightarrow> vmar \<Rightarrow> (vmar \<times> vmar) fres res" where
  "vmar_new_child r align offset sz v = rbind (vmar_dup r) (\<lambda>_. Ok (vmar_child_alloc align offset sz v))"

definition vmar_fork_from :: "('s \<Rightarrow> nat \<Rightarrow> nat option \<times> 's) \<Rightarrow> 32 word \<Rightarrow> vmar \<Rightarrow> (('s, 'p) as_world, vmar \<times> 32 word) sres" where
  "vmar_fork_from al r v =
     sbind (slift (vmar_check_rights r R_READ)) (\<lambda>_. sbind (new_cow_root al False v) (\<lambda>v'. sreturn (v', RIGHTS_ALL)))"

definition vmar_read_bytes :: "('s \<Rightarrow> nat \<Rightarrow> nat option \<times> 's) \<Rightarrow> 32 word \<Rightarrow> nat \<Rightarrow> slice \<Rightarrow> (('s, 'p) vr_state, unit) sres" where
  "vmar_read_bytes al r offset buf = vm_io (sbind (slift (vmar_check_rights r R_READ)) (\<lambda>_. vr_read al offset buf))"

definition vmar_write_bytes :: "('s \<Rightarrow> nat \<Rightarrow> nat option \<times> 's) \<Rightarrow> 32 word \<Rightarrow> nat \<Rightarrow> slice \<Rightarrow> (('s, 'p) vr_state, unit) sres" where
  "vmar_write_bytes al r offset buf = vm_io (sbind (slift (vmar_check_rights r R_WRITE)) (\<lambda>_. vr_write al offset buf))"

definition vmar_handle_page_fault ::
    "('s \<Rightarrow> nat \<Rightarrow> nat option \<times> 's) \<Rightarrow> 32 word \<Rightarrow> nat \<Rightarrow> bool \<Rightarrow> bool \<Rightarrow> (('s, 'p) vr_state, unit) sres" where
  "vmar_handle_page_fault al r addr not_present write =
     sbind (slift (vmar_check_rights r (if write then R_WRITE else R_READ))) (\<lambda>_. vr_handle_page_fault al addr not_present write)"

definition sys_munmap :: "nat \<Rightarrow> nat \<Rightarrow> (('s, 'p) vr_state, nat) sres" where
  "sys_munmap addr len =
     sbind (slift (unwrap_opt (usize_align_up len PAGE_SIZE))) (\<lambda>len.
     sbind (slift (usize_add addr len)) (\<lambda>e. sbind (vr_destroy (addr, e)) (\<lambda>_. sreturn 0)))"

definition sys_mprotect :: "32 word \<Rightarrow> nat \<Rightarrow> nat \<Rightarrow> 64 word \<Rightarrow> (('s, 'p) vr_state, nat) sres" where
  "sys_mprotect r addr len perms =
     (let vm_perms = (ucast perms :: 32 word) AND (PERM_READ OR PERM_WRITE OR PERM_EXEC) in
      sbind (slift (assert_or_panic (addr mod PAGE_SIZE = 0))) (\<lambda>_.
      sbind (slift (unwrap_opt (usize_align_up len PAGE_SIZE))) (\<lambda>len.
      sbind (slift (usize_add addr len)) (\<lambda>e. sbind (vmar_protect r vm_perms (addr, e)) (\<lambda>_. sreturn 0)))))"

end
