(* ===== verification/Vmar_Regions.thy ===== *)
theory Vmar_Regions
  imports Vmar
begin

text \<open>
  The bookkeeping of address ranges in a region. \<open>cover\<close> counts how often an address is covered by a list of
  ranges; the free regions, mappings and children of a region cover every address at most once, and the
  operations move addresses between the three. The lemmas show what taking, giving back and merging free
  regions do to the cover.
\<close>

section \<open>Covers\<close>

definition in_rng :: "nat \<Rightarrow> range \<Rightarrow> bool" where
  "in_rng a r \<longleftrightarrow> fst r \<le> a \<and> a < snd r"

definition cover :: "range list \<Rightarrow> nat \<Rightarrow> nat" where
  "cover rs a = length (filter (in_rng a) rs)"

definition free_wf :: "free_map \<Rightarrow> bool" where
  "free_wf m \<longleftrightarrow> btm_wf m \<and> (\<forall>(k, r) \<in> set m. k = fst r \<and> fst r < snd r)"

abbreviation fcover :: "free_map \<Rightarrow> nat \<Rightarrow> nat" where
  "fcover m \<equiv> cover (map snd m)"

lemma cover_simps [simp]:
  "cover [] a = 0" "cover (r # rs) a = (if in_rng a r then 1 else 0) + cover rs a" "cover (rs @ qs) a = cover rs a + cover qs a"
  by (simp_all add: cover_def)

lemma free_wf_btm: "free_wf m \<Longrightarrow> btm_wf m"
  by (simp add: free_wf_def)

lemma free_wf_Nil [simp]: "free_wf []"
  by (simp add: free_wf_def)

lemma free_wfD:
  assumes "free_wf m" "map_of m k = Some r"
  shows "k = fst r" "fst r < snd r" "in_rng k r"
  using assms map_of_SomeD [OF assms(2)] by (auto simp: free_wf_def in_rng_def)

lemma cover_remove:
  assumes "btm_wf m" "map_of m k = Some v"
  shows "cover (map f (btm_remove k m)) a + cover [f (k, v)] a = cover (map f m) a"
  using assms
proof (induction m)
  case (Cons x m)
  obtain k' v' where x: "x = (k', v')" by fastforce
  show ?case
  proof (cases "k = k'")
    case True
    have "k' \<notin> fst ` set m" using Cons.prems(1) by (auto simp: x btm_wf_Cons)
    then show ?thesis using True Cons.prems by (simp add: x btm_remove_absent)
  next
    case False
    then show ?thesis using Cons by (simp add: x btm_wf_Cons)
  qed
qed simp

lemma cover_insert:
  assumes "k \<notin> fst ` set m"
  shows "cover (map f (btm_insert k v m)) a = cover [f (k, v)] a + cover (map f m) a"
  using assms by (induction k v m rule: btm_insert.induct) auto

lemma cover_pos:
  assumes "(k, v) \<in> set m" "in_rng a (f (k, v))"
  shows "1 \<le> cover (map f m) a"
  using assms by (induction m) auto

lemma cover_posD:
  assumes "1 \<le> cover (map f m) a"
  shows "\<exists>k v. (k, v) \<in> set m \<and> in_rng a (f (k, v))"
proof (rule ccontr)
  assume "\<nexists>k v. (k, v) \<in> set m \<and> in_rng a (f (k, v))"
  then have "filter (in_rng a) (map f m) = []" by (auto simp: filter_empty_conv)
  then show False using assms by (simp add: cover_def)
qed

lemma free_wf_remove: "free_wf m \<Longrightarrow> free_wf (btm_remove k m)"
  by (auto simp: free_wf_def set_btm_remove btm_wf_remove)

lemma free_wf_insert: "free_wf m \<Longrightarrow> fst r < snd r \<Longrightarrow> free_wf (insert_region r m)"
  by (auto simp: free_wf_def insert_region_def set_btm_insert btm_wf_insert)

text \<open>The start of a range that the map does not cover is not a key of the map.\<close>

lemma uncovered_key:
  assumes "free_wf m" "fcover m (fst r) = 0"
  shows "fst r \<notin> fst ` set m"
proof
  assume "fst r \<in> fst ` set m"
  then obtain q where q: "(fst r, q) \<in> set m" by auto
  then have "in_rng (fst r) q" using assms(1) by (auto simp: free_wf_def in_rng_def)
  then show False using cover_pos [OF q, of "fst r" snd] assms(2) by simp
qed

lemma insert_region_cover:
  assumes "free_wf m" "fcover m (fst r) = 0"
  shows "fcover (insert_region r m) a = cover [r] a + fcover m a"
  using cover_insert [OF uncovered_key [OF assms], of snd r a] by (simp add: insert_region_def)

section \<open>Taking a range\<close>

lemma insert_regions_simps [simp]:
  "insert_regions [] m = m" "insert_regions (r # rs) m = insert_regions rs (insert_region r m)"
  by (simp_all add: insert_regions_def insert_region_def)

lemma take_range:
  assumes wf: "free_wf m" "\<And>a. fcover m a \<le> 1" and r: "map_of m k = Some r" and s: "fst r \<le> s" "s < e" "e \<le> snd r"
  shows "free_wf (insert_regions (allocate_range r (s, e)) (btm_remove k m))"
    and "fcover (insert_regions (allocate_range r (s, e)) (btm_remove k m)) a + cover [(s, e)] a = fcover m a"
proof -
  let ?m = "btm_remove k m"
  have wf0: "free_wf ?m" by (rule free_wf_remove [OF wf(1)])
  have cov: "fcover ?m b + cover [r] b = fcover m b" for b using cover_remove [OF free_wf_btm [OF wf(1)] r, of snd b] by simp
  have zero: "fcover ?m b = 0" if "in_rng b r" for b using cov [of b] wf(2) [of b] that by simp
  have L: "fst r < s \<Longrightarrow> fcover (insert_region (fst r, s) ?m) b = cover [(fst r, s)] b + fcover ?m b" for b
    using insert_region_cover [OF wf0, of "(fst r, s)"] zero [of "fst r"] s by (simp add: in_rng_def)
  have wf1: "fst r < s \<Longrightarrow> free_wf (insert_region (fst r, s) ?m)" using free_wf_insert [OF wf0] by simp
  have R: "e < snd r \<Longrightarrow> fcover (insert_region (e, snd r) ?m) b = cover [(e, snd r)] b + fcover ?m b" for b
    using insert_region_cover [OF wf0, of "(e, snd r)"] zero [of e] s by (simp add: in_rng_def)
  have LR: "fcover (insert_region (e, snd r) (insert_region (fst r, s) ?m)) b =
      cover [(e, snd r)] b + (cover [(fst r, s)] b + fcover ?m b)" if "fst r < s" "e < snd r" for b
    using insert_region_cover [OF wf1 [OF that(1)], of "(e, snd r)"] L [OF that(1)] zero [of e] s that by (simp add: in_rng_def)
  show "free_wf (insert_regions (allocate_range r (s, e)) ?m)"
    using wf0 wf1 by (auto simp: allocate_range_def intro!: free_wf_insert)
  show "fcover (insert_regions (allocate_range r (s, e)) ?m) a + cover [(s, e)] a = fcover m a"
    using L [of a] R [of a] LR [of a] cov [of a] s by (auto simp: allocate_range_def in_rng_def)
qed

section \<open>Merging\<close>

lemma merge_chain_correct:
  assumes "free_wf m" "fst r < snd r"
  shows "\<exists>r' m'. merge_chain r (snd r) m = Ok (r', m') \<and> free_wf m' \<and> fst r' = fst r \<and> snd r \<le> snd r' \<and>
    (\<forall>a. cover [r'] a + fcover m' a = cover [r] a + fcover m a) \<and> map_of m' (snd r') = None \<and>
    (\<forall>k q. map_of m' k = Some q \<longrightarrow> map_of m k = Some q)"
  using assms
proof (induction "length m" arbitrary: m r rule: less_induct)
  case less
  show ?case
  proof (cases "map_of m (snd r)")
    case None
    then show ?thesis using less.prems by simp
  next
    case (Some q)
    note q = free_wfD [OF less.prems(1) Some]
    let ?r = "(fst r, snd q)" and ?m = "btm_remove (snd r) m"
    have "length ?m < length m" by (rule length_btm_remove_less [OF Some])
    then obtain r' m' where h: "merge_chain ?r (snd ?r) ?m = Ok (r', m')" "free_wf m'" "fst r' = fst r" "snd q \<le> snd r'"
      "\<And>a. cover [r'] a + fcover m' a = cover [?r] a + fcover ?m a" "map_of m' (snd r') = None"
      "\<And>k p. map_of m' k = Some p \<Longrightarrow> map_of ?m k = Some p"
      using less.hyps [of ?m ?r] free_wf_remove [OF less.prems(1)] less.prems(2) q by auto
    have "merge_other_region r q = Ok ?r" using q less.prems(2) by (simp add: merge_other_region_def)
    then have "merge_chain r (snd r) m = Ok (r', m')" using Some h(1) by simp
    moreover have "cover [r'] a + fcover m' a = cover [r] a + fcover m a" for a
      using h(5) [of a] cover_remove [OF free_wf_btm [OF less.prems(1)] Some, of snd a] q less.prems(2) by (auto simp: in_rng_def)
    moreover have "map_of m k = Some p" if "map_of m' k = Some p" for k p
      using h(7) [OF that] by (simp add: map_of_btm_remove split: if_splits)
    moreover have "snd r \<le> snd r'" using h(4) q by linarith
    ultimately show ?thesis using h(2,3,6) by auto
  qed
qed

lemma merge_keys_correct:
  assumes "free_wf m" "free_wf acc" "\<And>a. fcover m a + fcover acc a \<le> 1" "sorted_wrt (<) keys" "fst ` set m \<subseteq> set keys"
    and "\<And>k k'. k \<in> fst ` set acc \<Longrightarrow> k' \<in> set keys \<Longrightarrow> k < k'"
    and "\<And>k q. map_of acc k = Some q \<Longrightarrow> map_of m (snd q) = None \<and> map_of acc (snd q) = None"
  shows "\<exists>m'. merge_keys keys m acc = Ok m' \<and> free_wf m' \<and> (\<forall>a. fcover m' a = fcover m a + fcover acc a) \<and>
    (\<forall>k q. map_of m' k = Some q \<longrightarrow> map_of m' (snd q) = None)"
  using assms
proof (induction keys m acc rule: merge_keys.induct)
  case (1 m acc)
  then show ?case by auto
next
  case (2 key keys m acc)
  show ?case
  proof (cases "map_of m key")
    case None
    then have "key \<notin> fst ` set m" by (simp add: map_of_eq_None_iff)
    then have sub: "fst ` set m \<subseteq> set keys" using "2.prems"(5) by auto
    have "\<exists>m'. merge_keys keys m acc = Ok m' \<and> free_wf m' \<and> (\<forall>a. fcover m' a = fcover m a + fcover acc a) \<and>
      (\<forall>k q. map_of m' k = Some q \<longrightarrow> map_of m' (snd q) = None)"
      by (rule "2.IH"(1) [OF None "2.prems"(1-3) _ sub]) (use "2.prems"(4,6,7) in auto)
    then show ?thesis using None by simp
  next
    case (Some r)
    note r = free_wfD [OF "2.prems"(1) Some]
    obtain r' m1 where ch: "merge_chain r (snd r) (btm_remove key m) = Ok (r', m1)" "free_wf m1" "fst r' = fst r" "snd r \<le> snd r'"
      "\<And>a. cover [r'] a + fcover m1 a = cover [r] a + fcover (btm_remove key m) a" "map_of m1 (snd r') = None"
      "\<And>k q. map_of m1 k = Some q \<Longrightarrow> map_of (btm_remove key m) k = Some q"
      using merge_chain_correct [OF free_wf_remove [OF "2.prems"(1)] r(2)] by metis
    have cov: "cover [r'] a + fcover m1 a = fcover m a" for a
      using ch(5) [of a] cover_remove [OF free_wf_btm [OF "2.prems"(1)] Some, of snd a] by simp
    have m1: "map_of m k = Some q" "k \<noteq> key" if "map_of m1 k = Some q" for k q
      using ch(7) [OF that] by (auto simp: map_of_btm_remove split: if_splits)
    have z: "fcover acc (fst r') = 0" using "2.prems"(3) [of "fst r'"] cov [of "fst r'"] ch(3,4) r by (simp add: in_rng_def)
    let ?acc = "insert_region r' acc"
    have acov: "fcover ?acc a = cover [r'] a + fcover acc a" for a by (rule insert_region_cover [OF "2.prems"(2) z])
    have wf: "free_wf ?acc" using free_wf_insert [OF "2.prems"(2), of r'] ch(3,4) r by simp
    have keys: "fst ` set ?acc = insert key (fst ` set acc)" using ch(3) r by (simp add: insert_region_def keys_btm_insert)
    have look: "map_of ?acc k = (if k = key then Some r' else map_of acc k)" for k
      using free_wf_btm [OF "2.prems"(2)] ch(3) r by (simp add: insert_region_def map_of_btm_insert)
    have gt: "key < k'" if "k' \<in> set keys" for k' using "2.prems"(4) that by simp
    have sub: "fst ` set m1 \<subseteq> set keys"
    proof
      fix k assume "k \<in> fst ` set m1"
      then obtain q where "map_of m1 k = Some q" by (metis map_of_eq_None_iff not_None_eq)
      from m1 [OF this] show "k \<in> set keys" using "2.prems"(5) map_of_Some_key by fastforce
    qed
    have sep: "map_of m1 (snd q) = None \<and> map_of ?acc (snd q) = None" if q: "map_of ?acc k = Some q" for k q
    proof (cases "k = key")
      case True
      have "key < snd r'" using ch(4) r by linarith
      then have "map_of acc (snd r') = None" using "2.prems"(6) [of "snd r'" key] by (fastforce simp: map_of_eq_None_iff)
      then show ?thesis using True q look ch(6) \<open>key < snd r'\<close> by simp
    next
      case False
      then have "map_of m (snd q) = None \<and> map_of acc (snd q) = None" using "2.prems"(7) q look by simp
      then show ?thesis using m1(1) Some look by (metis option.distinct(1) not_None_eq)
    qed
    have cov2: "fcover m1 a + fcover ?acc a = fcover m a + fcover acc a" for a using acov [of a] cov [of a] by linarith
    have "\<exists>m'. merge_keys keys m1 ?acc = Ok m' \<and> free_wf m' \<and> (\<forall>a. fcover m' a = fcover m1 a + fcover ?acc a) \<and>
      (\<forall>k q. map_of m' k = Some q \<longrightarrow> map_of m' (snd q) = None)"
      by (rule "2.IH"(2) [OF Some ch(2) wf _ _ sub _ sep]) (use "2.prems"(3,4,6) cov2 keys gt in auto)
    then show ?thesis using Some ch(1) cov2 by auto
  qed
qed

end
