(* ===== verification/Vmo_Correct.thy ===== *)
theory Vmo_Correct
  imports Vmo
begin

text \<open>
  The content of virtual memory objects and what the operations of \<open>Vmo\<close> do to it. The allocator is
  any one that hands out frames that are not in use (\<open>alloc_ok\<close>); a failing allocation surfaces as
  \<^verbatim>\<open>ENOMEM\<close> and leaves all contents as they are.
\<close>

section \<open>Frames, pages and content\<close>

definition frame_addrs :: "nat \<Rightarrow> nat set" where
  "frame_addrs j = {paddr_to_vaddr (j * PAGE_SIZE) ..< paddr_to_vaddr (j * PAGE_SIZE) + PAGE_SIZE}"

text \<open>Memory changed only in frames outside \<open>U\<close>.\<close>

definition mem_keeps :: "nat set \<Rightarrow> byte_mem \<Rightarrow> byte_mem \<Rightarrow> bool" where
  "mem_keeps U m m' \<longleftrightarrow> (\<forall>a. m' a \<noteq> m a \<longrightarrow> (\<exists>j. j \<notin> U \<and> a \<in> frame_addrs j))"

text \<open>What the kernel relies on from its frame allocator: it hands out frames that are not in
  use, and it does so while frames are available.\<close>

definition alloc_ok :: "('s \<Rightarrow> nat \<Rightarrow> nat option \<times> 's) \<Rightarrow> ('s \<Rightarrow> nat set) \<Rightarrow> ('s \<Rightarrow> nat) \<Rightarrow> bool" where
  "alloc_ok al used avail \<longleftrightarrow>
     (\<forall>s i s'. al s 1 = (Some i, s') \<longrightarrow>
        i \<notin> used s \<and> i < 2 ^ 52 \<and> used s' = insert i (used s) \<and> avail s \<le> avail s' + 1) \<and>
     (\<forall>s s'. al s 1 = (None, s') \<longrightarrow> used s' = used s \<and> avail s = 0)"

definition vmo_frame :: "'w vmo \<Rightarrow> nat \<Rightarrow> vm_frame option" where
  "vmo_frame v i =
     (case map_of (vmo_committed v) i of
        Some f \<Rightarrow> Some f
      | None \<Rightarrow> (case vmo_inherited v of None \<Rightarrow> None | Some fs \<Rightarrow> if i < length fs then Some (fs ! i) else None))"

definition vmo_byte :: "'w vmo \<Rightarrow> byte_mem \<Rightarrow> nat \<Rightarrow> 8 word" where
  "vmo_byte v m a =
     (case vmo_frame v (a div PAGE_SIZE) of Some f \<Rightarrow> m (vf_as_ptr f + a mod PAGE_SIZE) | None \<Rightarrow> 0)"

text \<open>The invariant of an object without a pager, with the frames in use: its frames are in use and differ
  from page to page; a slice has no page of its own and covers its size.\<close>

definition vmo_inv :: "nat set \<Rightarrow> 'w vmo \<Rightarrow> bool" where
  "vmo_inv U v \<longleftrightarrow> vmo_pager v = None \<and> btm_wf (vmo_committed v) \<and>
     (\<forall>i f. vmo_frame v i = Some f \<longrightarrow> vf_frame_index f \<in> U) \<and>
     (\<forall>i j f g. vmo_frame v i = Some f \<longrightarrow> vmo_frame v j = Some g \<longrightarrow> vf_frame_index f = vf_frame_index g \<longrightarrow> i = j) \<and>
     (\<forall>fs. vmo_inherited v = Some fs \<longrightarrow> \<not> vmo_is_cow v \<longrightarrow> vmo_committed v = [] \<and> vmo_size v \<le> length fs * PAGE_SIZE)"

definition same_object :: "'w vmo \<Rightarrow> 'w vmo \<Rightarrow> bool" where
  "same_object v v' \<longleftrightarrow> (\<exists>c. v' = v\<lparr>vmo_committed := c\<rparr>)"

text \<open>A step that provides frames: the content of the object, and of everything else in use, is kept.\<close>

definition vmo_step :: "('s \<Rightarrow> nat set) \<Rightarrow> ('s, 'p) vmo_state \<Rightarrow> ('s, 'p) vmo_state \<Rightarrow> bool" where
  "vmo_step used st st' \<longleftrightarrow>
     (let U = used (wd_alloc (snd st)); U' = used (wd_alloc (snd st')) in
      U \<subseteq> U' \<and> mem_keeps U (wd_mem (snd st)) (wd_mem (snd st')) \<and> vmo_inv U' (fst st') \<and> same_object (fst st) (fst st') \<and>
      (\<forall>a. vmo_byte (fst st') (wd_mem (snd st')) a = vmo_byte (fst st) (wd_mem (snd st)) a) \<and>
      (\<forall>i f. map_of (vmo_committed (fst st)) i = Some f \<longrightarrow> map_of (vmo_committed (fst st')) i = Some f) \<and>
      (\<forall>i f. map_of (vmo_committed (fst st')) i = Some f \<longrightarrow>
         map_of (vmo_committed (fst st)) i = Some f \<or> vf_frame_index f \<notin> U))"

lemma mem_keeps_refl [simp]: "mem_keeps U m m"
  by (simp add: mem_keeps_def)

lemma mem_keeps_trans: "mem_keeps U m m' \<Longrightarrow> mem_keeps U' m' m'' \<Longrightarrow> U \<subseteq> U' \<Longrightarrow> mem_keeps U m m''"
  unfolding mem_keeps_def by (metis subsetD)

lemma vf_as_ptr_addrs: "vf_as_ptr f + k \<in> frame_addrs (vf_frame_index f) \<longleftrightarrow> k < PAGE_SIZE"
  by (simp add: vf_as_ptr_def frame_addrs_def vf_start_paddr_def)

lemma frame_addrs_disjoint: "a \<in> frame_addrs i \<Longrightarrow> a \<in> frame_addrs j \<Longrightarrow> i = j"
proof -
  assume a: "a \<in> frame_addrs i" "a \<in> frame_addrs j"
  have "(a - PHYS_OFFSET) div PAGE_SIZE = k" if "a \<in> frame_addrs k" for k
  proof -
    have "k * PAGE_SIZE \<le> a - PHYS_OFFSET" "a - PHYS_OFFSET < Suc k * PAGE_SIZE"
      using that by (auto simp: frame_addrs_def paddr_to_vaddr_def)
    then show ?thesis by (metis div_nat_eqI mult.commute)
  qed
  then show ?thesis using a by blast
qed

lemma mem_keeps_frame:
  assumes "mem_keeps U m m'" "vf_frame_index f \<in> U" "k < PAGE_SIZE"
  shows "m' (vf_as_ptr f + k) = m (vf_as_ptr f + k)"
  using assms vf_as_ptr_addrs [of f k] frame_addrs_disjoint unfolding mem_keeps_def by metis

lemma mem_keeps_byte:
  assumes "mem_keeps U m m'" "\<And>i f. vmo_frame v i = Some f \<Longrightarrow> vf_frame_index f \<in> U"
  shows "vmo_byte v m' a = vmo_byte v m a"
  using mem_keeps_frame [OF assms(1), of _ "a mod PAGE_SIZE"] assms(2)
  by (auto simp: vmo_byte_def split: option.splits)

lemma vmo_invD:
  assumes "vmo_inv U v"
  shows "vmo_pager v = None" "btm_wf (vmo_committed v)"
    "\<And>i f. vmo_frame v i = Some f \<Longrightarrow> vf_frame_index f \<in> U"
    "\<And>i j f g. vmo_frame v i = Some f \<Longrightarrow> vmo_frame v j = Some g \<Longrightarrow> vf_frame_index f = vf_frame_index g \<Longrightarrow> i = j"
    "\<And>fs. vmo_inherited v = Some fs \<Longrightarrow> \<not> vmo_is_cow v \<Longrightarrow> vmo_committed v = [] \<and> vmo_size v \<le> length fs * PAGE_SIZE"
  using assms unfolding vmo_inv_def by blast+

lemma vmo_inv_mono: "vmo_inv U v \<Longrightarrow> U \<subseteq> U' \<Longrightarrow> vmo_inv U' v"
  unfolding vmo_inv_def by (meson subsetD)

lemma same_object_sel:
  assumes "same_object v v'"
  shows "vmo_flags v' = vmo_flags v" "vmo_pager v' = vmo_pager v" "vmo_size v' = vmo_size v"
    "vmo_inherited v' = vmo_inherited v" "vmo_is_cow v' = vmo_is_cow v"
  using assms by (auto simp: same_object_def)

lemma same_object_refl [simp]: "same_object v v"
  by (auto simp: same_object_def intro: exI [of _ "vmo_committed v"])

lemma same_object_trans: "same_object u v \<Longrightarrow> same_object v w \<Longrightarrow> same_object u w"
  by (auto simp: same_object_def)

lemma vmo_stepD:
  assumes "vmo_step used st st'"
  shows "used (wd_alloc (snd st)) \<subseteq> used (wd_alloc (snd st'))"
    "mem_keeps (used (wd_alloc (snd st))) (wd_mem (snd st)) (wd_mem (snd st'))"
    "vmo_inv (used (wd_alloc (snd st'))) (fst st')" "same_object (fst st) (fst st')"
    "\<And>a. vmo_byte (fst st') (wd_mem (snd st')) a = vmo_byte (fst st) (wd_mem (snd st)) a"
    "\<And>i f. map_of (vmo_committed (fst st)) i = Some f \<Longrightarrow> map_of (vmo_committed (fst st')) i = Some f"
    "\<And>i f. map_of (vmo_committed (fst st')) i = Some f \<Longrightarrow>
       map_of (vmo_committed (fst st)) i = Some f \<or> vf_frame_index f \<notin> used (wd_alloc (snd st))"
  using assms by (simp_all add: vmo_step_def Let_def)

lemma vmo_step_refl: "vmo_inv (used (wd_alloc w)) v \<Longrightarrow> vmo_step used (v, w) (v, w)"
  by (simp add: vmo_step_def)

lemma vmo_step_trans:
  assumes "vmo_step used st st'" "vmo_step used st' st''"
  shows "vmo_step used st st''"
  unfolding vmo_step_def Let_def
proof (intro conjI allI impI)
  note 1 = vmo_stepD [OF assms(1)] and 2 = vmo_stepD [OF assms(2)]
  show "used (wd_alloc (snd st)) \<subseteq> used (wd_alloc (snd st''))" using 1(1) 2(1) by simp
  show "mem_keeps (used (wd_alloc (snd st))) (wd_mem (snd st)) (wd_mem (snd st''))" by (rule mem_keeps_trans [OF 1(2) 2(2) 1(1)])
  show "vmo_inv (used (wd_alloc (snd st''))) (fst st'')" by (rule 2(3))
  show "same_object (fst st) (fst st'')" by (rule same_object_trans [OF 1(4) 2(4)])
  show "vmo_byte (fst st'') (wd_mem (snd st'')) a = vmo_byte (fst st) (wd_mem (snd st)) a" for a using 1(5) 2(5) by simp
  fix i f
  show "map_of (vmo_committed (fst st)) i = Some f \<Longrightarrow> map_of (vmo_committed (fst st'')) i = Some f" using 1(6) 2(6) by blast
  show "map_of (vmo_committed (fst st'')) i = Some f \<Longrightarrow>
      map_of (vmo_committed (fst st)) i = Some f \<or> vf_frame_index f \<notin> used (wd_alloc (snd st))" using 1(1,7) 2(7) by blast
qed

section \<open>Providing a frame\<close>

lemma ao_alloc_single_index:
  assumes "alloc_ok al used avail" "ao_alloc_single al (ao_new 1) m s = (r, s')"
  shows "(\<exists>f. r = Ok (f, vf_zero f m) \<and> vf_frame_index f \<notin> used s \<and> used s' = insert (vf_frame_index f) (used s)) \<and>
      avail s \<le> avail s' + 1 \<or> r = Err NoMemory \<and> used s' = used s \<and> avail s = 0"
proof (cases "al s 1")
  case (Pair i s1)
  show ?thesis
  proof (cases i)
    case None
    then show ?thesis using assms Pair by (auto simp: ao_alloc_single_def fa_alloc_single_def ao_new_def alloc_ok_def)
  next
    case (Some k)
    have k: "k \<notin> used s" "k < 2 ^ 52" "used s1 = insert k (used s)" "avail s \<le> avail s1 + 1"
      using assms(1) Pair Some by (auto simp: alloc_ok_def)
    define f where "f = of_nat k OR NEED_DEALLOC"
    have new: "vf_new (k * PAGE_SIZE) (0 OR NEED_DEALLOC) = Some f" by (simp add: vf_new_def f_def)
    have "vf_start_paddr f = k * PAGE_SIZE"
      using vf_new_index(1) [of "k * PAGE_SIZE" NEED_DEALLOC f] new k(2) by simp
    then have "vf_frame_index f = k" by (simp add: vf_start_paddr_def)
    moreover have "r = Ok (f, vf_zero f m)" "s' = s1"
      using assms(2) Pair Some new by (auto simp: ao_alloc_single_def fa_alloc_single_def ao_new_def)
    ultimately show ?thesis using k by auto
  qed
qed

lemma alloc_single_spec:
  assumes "alloc_ok al used avail" "alloc_single al w = (r, w')"
  shows "(\<exists>f. r = Ok f \<and> wd_mem w' = vf_zero f (wd_mem w) \<and> vf_frame_index f \<notin> used (wd_alloc w) \<and>
       used (wd_alloc w') = insert (vf_frame_index f) (used (wd_alloc w)) \<and> avail (wd_alloc w) \<le> avail (wd_alloc w') + 1) \<or>
    r = Err ENOMEM \<and> wd_mem w' = wd_mem w \<and> used (wd_alloc w') = used (wd_alloc w) \<and> avail (wd_alloc w) = 0"
proof -
  obtain q s' where q: "ao_alloc_single al (ao_new 1) (wd_mem w) (wd_alloc w) = (q, s')" by fastforce
  show ?thesis
    using ao_alloc_single_index [OF assms(1) q] assms(2) q by (auto simp: alloc_single_def from_fres_def)
qed

lemma frame_addrs_eq: "frame_addrs (vf_frame_index f) = {vf_as_ptr f ..< vf_as_ptr f + PAGE_SIZE}"
  by (simp add: frame_addrs_def vf_as_ptr_def vf_start_paddr_def)

lemma mem_keepsI:
  "vf_frame_index f \<notin> U \<Longrightarrow> (\<And>a. a \<notin> {vf_as_ptr f ..< vf_as_ptr f + PAGE_SIZE} \<Longrightarrow> m' a = m a) \<Longrightarrow> mem_keeps U m m'"
  unfolding mem_keeps_def using frame_addrs_eq by metis

lemma vf_zero_keeps: "vf_frame_index f \<notin> U \<Longrightarrow> mem_keeps U m (vf_zero f m)"
  by (rule mem_keepsI [of f]) (auto simp: vf_zero_def ptr_write_bytes_def)

lemma vf_zero_byte: "k < PAGE_SIZE \<Longrightarrow> vf_zero f m (vf_as_ptr f + k) = 0"
  by (simp add: vf_zero_def ptr_write_bytes_def)

lemma vf_copy_keeps: "vf_frame_index f \<notin> U \<Longrightarrow> mem_keeps U m (vf_copy_from_frame f g m)"
  by (rule mem_keepsI [of f]) (auto simp: vf_copy_from_frame_def ptr_copy_def)

lemma vf_copy_byte:
  "k < PAGE_SIZE \<Longrightarrow> vf_copy_from_frame f g m (vf_as_ptr f + k) = m (vf_as_ptr g + k)"
  by (simp add: vf_copy_from_frame_def ptr_copy_def)
lemma vmo_frame_insert:
  assumes "btm_wf (vmo_committed v)"
  shows "vmo_frame (v\<lparr>vmo_committed := btm_insert i f (vmo_committed v)\<rparr>) j = (if j = i then Some f else vmo_frame v j)"
  using assms by (simp add: vmo_frame_def map_of_btm_insert split: option.split)

lemma page_byte: "k < PAGE_SIZE \<Longrightarrow> vmo_byte v m (i * PAGE_SIZE + k) =
    (case vmo_frame v i of Some f \<Rightarrow> m (vf_as_ptr f + k) | None \<Rightarrow> 0)"
  by (simp add: vmo_byte_def split: option.split)

lemma vmo_step_unchanged:
  assumes "vmo_inv (used (wd_alloc w)) v" "used (wd_alloc w) \<subseteq> used (wd_alloc w')"
    "mem_keeps (used (wd_alloc w)) (wd_mem w) (wd_mem w')"
  shows "vmo_step used (v, w) (v, w')"
proof -
  have "vmo_byte v (wd_mem w') a = vmo_byte v (wd_mem w) a" for a
    by (rule mem_keeps_byte [OF assms(3)]) (rule vmo_invD(3) [OF assms(1)])
  then show ?thesis using assms vmo_inv_mono [OF assms(1,2)] by (simp add: vmo_step_def)
qed

lemma vmo_step_new_page:
  assumes inv: "vmo_inv (used (wd_alloc w)) v" and fresh: "vf_frame_index f \<notin> used (wd_alloc w)"
    and used: "used (wd_alloc w') = insert (vf_frame_index f) (used (wd_alloc w))"
    and none: "map_of (vmo_committed v) i = None" and own: "vmo_is_cow v \<or> vmo_inherited v = None"
    and keeps: "mem_keeps (used (wd_alloc w)) (wd_mem w) (wd_mem w')"
    and bytes: "\<And>k. k < PAGE_SIZE \<Longrightarrow> wd_mem w' (vf_as_ptr f + k) = vmo_byte v (wd_mem w) (i * PAGE_SIZE + k)"
  shows "vmo_step used (v, w) (v\<lparr>vmo_committed := btm_insert i f (vmo_committed v)\<rparr>, w')"
proof -
  let ?v = "v\<lparr>vmo_committed := btm_insert i f (vmo_committed v)\<rparr>"
  note wf = vmo_invD(2) [OF inv]
  note fr = vmo_frame_insert [OF wf, of i f]
  have U: "vf_frame_index g \<in> used (wd_alloc w)" "vf_frame_index g \<noteq> vf_frame_index f" if "vmo_frame v j = Some g" for j g
    using vmo_invD(3) [OF inv that] fresh by auto
  have inv': "vmo_inv (used (wd_alloc w')) ?v"
    unfolding vmo_inv_def
  proof (intro conjI allI impI)
    show "vmo_pager ?v = None" "btm_wf (vmo_committed ?v)" using vmo_invD(1,2) [OF inv] by (simp_all add: btm_wf_insert)
    show "vmo_frame ?v j = Some g \<Longrightarrow> vf_frame_index g \<in> used (wd_alloc w')" for j g
      using U(1) [of j g] used by (auto simp: fr split: if_splits)
    show "vmo_frame ?v j = Some g \<Longrightarrow> vmo_frame ?v k = Some h \<Longrightarrow> vf_frame_index g = vf_frame_index h \<Longrightarrow> j = k" for j k g h
      using U(2) [of j g] U(2) [of k h] vmo_invD(4) [OF inv, of j g k h] by (auto simp: fr split: if_splits)
    fix fs assume "vmo_inherited ?v = Some fs" "\<not> vmo_is_cow ?v"
    then show "vmo_committed ?v = []" "vmo_size ?v \<le> length fs * PAGE_SIZE" using own by simp_all
  qed
  have "vmo_byte ?v (wd_mem w') a = vmo_byte v (wd_mem w) a" for a
  proof (cases "a div PAGE_SIZE = i")
    case True
    then have "vmo_byte ?v (wd_mem w') a = wd_mem w' (vf_as_ptr f + a mod PAGE_SIZE)" by (simp add: vmo_byte_def fr)
    also have "\<dots> = vmo_byte v (wd_mem w) (i * PAGE_SIZE + a mod PAGE_SIZE)" by (rule bytes) simp
    finally show ?thesis using True by (metis div_mult_mod_eq)
  next
    case False
    then have "vmo_byte ?v (wd_mem w') a = vmo_byte v (wd_mem w') a" by (simp add: vmo_byte_def fr)
    also have "\<dots> = vmo_byte v (wd_mem w) a" by (rule mem_keeps_byte [OF keeps]) (rule U(1))
    finally show ?thesis .
  qed
  moreover have "same_object v ?v" by (auto simp: same_object_def)
  ultimately show ?thesis
    using inv' used keeps fresh none wf by (auto simp: vmo_step_def Let_def map_of_btm_insert split: if_splits)
qed

text \<open>What \<^verbatim>\<open>get_committed_frame\<close> delivers for page \<open>i\<close>: a frame with the content of the page, which is
  the frame of the page itself if the page is written or the object is not a copy-on-write child.\<close>

definition page_got :: "('s \<Rightarrow> nat set) \<Rightarrow> bool \<Rightarrow> nat \<Rightarrow> vm_frame \<Rightarrow> ('s, 'p) vmo_state \<Rightarrow> ('s, 'p) vmo_state \<Rightarrow> bool" where
  "page_got used wr i f st st' \<longleftrightarrow>
     vf_frame_index f \<in> used (wd_alloc (snd st')) \<and>
     (\<forall>k < PAGE_SIZE. wd_mem (snd st') (vf_as_ptr f + k) = vmo_byte (fst st) (wd_mem (snd st)) (i * PAGE_SIZE + k)) \<and>
     (vmo_frame (fst st) i = Some f \<or> vf_frame_index f \<notin> used (wd_alloc (snd st))) \<and>
     (\<forall>j. j \<noteq> i \<longrightarrow> vmo_frame (fst st') j = vmo_frame (fst st) j) \<and>
     (wr \<or> \<not> vmo_is_cow (fst st) \<longrightarrow> vmo_frame (fst st') i = Some f) \<and>
     (wr \<and> vmo_is_cow (fst st) \<longrightarrow> map_of (vmo_committed (fst st')) i = Some f)"

lemma page_got_present:
  assumes "vmo_inv (used (wd_alloc w)) v" "vmo_frame v i = Some f" "wr \<and> vmo_is_cow v \<Longrightarrow> map_of (vmo_committed v) i = Some f"
  shows "page_got used wr i f (v, w) (v, w)"
  using assms vmo_invD(3) [OF assms(1,2)] by (simp add: page_got_def page_byte)

lemma page_got_new:
  assumes "vmo_inv (used (wd_alloc w)) v" "vf_frame_index f \<notin> used (wd_alloc w)"
    "used (wd_alloc w') = insert (vf_frame_index f) (used (wd_alloc w))"
    and "\<And>k. k < PAGE_SIZE \<Longrightarrow> wd_mem w' (vf_as_ptr f + k) = vmo_byte v (wd_mem w) (i * PAGE_SIZE + k)"
  shows "page_got used wr i f (v, w) (v\<lparr>vmo_committed := btm_insert i f (vmo_committed v)\<rparr>, w')"
  using assms vmo_invD(2) [OF assms(1)] by (simp add: page_got_def vmo_frame_insert map_of_btm_insert)
text \<open>The outcomes of an operation that provides at most \<open>k\<close> frames: it fails only if fewer are available.\<close>

definition provides ::
    "('s \<Rightarrow> nat) \<Rightarrow> nat \<Rightarrow> ('s \<Rightarrow> nat set) \<Rightarrow> ('a \<Rightarrow> ('s, 'p) vmo_state \<Rightarrow> bool) \<Rightarrow> ('s, 'p) vmo_state
     \<Rightarrow> 'a res \<times> ('s, 'p) vmo_state \<Rightarrow> bool" where
  "provides avail k used P st out \<longleftrightarrow> vmo_step used st (snd out) \<and>
     avail (wd_alloc (snd st)) \<le> avail (wd_alloc (snd (snd out))) + k \<and>
     (case fst out of Ok x \<Rightarrow> P x (snd out) | Err e \<Rightarrow> e = ENOMEM \<and> avail (wd_alloc (snd st)) < k | Panic \<Rightarrow> False)"

lemma commit_fresh:
  assumes ok: "alloc_ok al used avail" and inv: "vmo_inv (used (wd_alloc w)) v"
    and none: "vmo_frame v i = None" and own: "vmo_is_cow v \<or> vmo_inherited v = None"
  shows "provides avail 1 used (\<lambda>f st'. page_got used wr i f (v, w) st') (v, w)
     (sbind (on_world (alloc_single al)) (\<lambda>f. sbind (insert_frame i f) (\<lambda>_. sreturn f)) (v, w))"
proof -
  obtain r w' where a: "alloc_single al w = (r, w')" by fastforce
  have nc: "map_of (vmo_committed v) i = None" using none by (auto simp: vmo_frame_def split: option.splits)
  show ?thesis
    using alloc_single_spec [OF ok a]
  proof
    assume "\<exists>f. r = Ok f \<and> wd_mem w' = vf_zero f (wd_mem w) \<and> vf_frame_index f \<notin> used (wd_alloc w) \<and>
       used (wd_alloc w') = insert (vf_frame_index f) (used (wd_alloc w)) \<and> avail (wd_alloc w) \<le> avail (wd_alloc w') + 1"
    then obtain f where f: "r = Ok f" "wd_mem w' = vf_zero f (wd_mem w)" "vf_frame_index f \<notin> used (wd_alloc w)"
      "used (wd_alloc w') = insert (vf_frame_index f) (used (wd_alloc w))" "avail (wd_alloc w) \<le> avail (wd_alloc w') + 1" by blast
    have b: "wd_mem w' (vf_as_ptr f + k) = vmo_byte v (wd_mem w) (i * PAGE_SIZE + k)" if "k < PAGE_SIZE" for k
      using that by (simp add: f(2) vf_zero_byte page_byte none)
    have "mem_keeps (used (wd_alloc w)) (wd_mem w) (wd_mem w')" unfolding f(2) by (rule vf_zero_keeps [OF f(3)])
    from vmo_step_new_page [of used, OF inv f(3,4) nc own this b] page_got_new [of used, OF inv f(3,4) b] f(5)
    show ?thesis by (simp add: provides_def sbind_def on_world_def a f(1) insert_frame_def nc sreturn_def)
  next
    assume e: "r = Err ENOMEM \<and> wd_mem w' = wd_mem w \<and> used (wd_alloc w') = used (wd_alloc w) \<and> avail (wd_alloc w) = 0"
    have "vmo_step used (v, w) (v, w')" by (rule vmo_step_unchanged [of used, OF inv]) (simp_all add: e)
    then show ?thesis using e by (auto simp: provides_def sbind_def on_world_def a)
  qed
qed

lemma copy_fresh:
  assumes ok: "alloc_ok al used avail" and inv: "vmo_inv (used (wd_alloc w)) v"
    and g: "vmo_frame v i = Some g" and nc: "map_of (vmo_committed v) i = None" and own: "vmo_is_cow v"
  shows "provides avail 1 used (\<lambda>f st'. page_got used wr i f (v, w) st') (v, w)
     (sbind (on_world (sbind (alloc_single al) (\<lambda>frame.
        sbind (smod (\<lambda>w. w\<lparr>wd_mem := vf_copy_from_frame frame g (wd_mem w)\<rparr>)) (\<lambda>_. sreturn frame))))
        (\<lambda>f. sbind (insert_frame i f) (\<lambda>_. sreturn f)) (v, w))"
proof -
  obtain r w1 where a: "alloc_single al w = (r, w1)" by fastforce
  show ?thesis
    using alloc_single_spec [OF ok a]
  proof
    assume "\<exists>f. r = Ok f \<and> wd_mem w1 = vf_zero f (wd_mem w) \<and> vf_frame_index f \<notin> used (wd_alloc w) \<and>
       used (wd_alloc w1) = insert (vf_frame_index f) (used (wd_alloc w)) \<and> avail (wd_alloc w) \<le> avail (wd_alloc w1) + 1"
    then obtain f where f: "r = Ok f" "wd_mem w1 = vf_zero f (wd_mem w)" "vf_frame_index f \<notin> used (wd_alloc w)"
      "used (wd_alloc w1) = insert (vf_frame_index f) (used (wd_alloc w))" "avail (wd_alloc w) \<le> avail (wd_alloc w1) + 1" by blast
    define w' where "w' = w1\<lparr>wd_mem := vf_copy_from_frame f g (wd_mem w1)\<rparr>"
    have u: "used (wd_alloc w') = insert (vf_frame_index f) (used (wd_alloc w))" by (simp add: w'_def f(4))
    have k1: "mem_keeps (used (wd_alloc w)) (wd_mem w) (wd_mem w1)" unfolding f(2) by (rule vf_zero_keeps [OF f(3)])
    have k2: "mem_keeps (used (wd_alloc w)) (wd_mem w1) (wd_mem w')"
      unfolding w'_def by (simp add: vf_copy_keeps [OF f(3)])
    have b: "wd_mem w' (vf_as_ptr f + k) = vmo_byte v (wd_mem w) (i * PAGE_SIZE + k)" if "k < PAGE_SIZE" for k
      using that mem_keeps_frame [OF k1 vmo_invD(3) [OF inv g] that] by (simp add: w'_def vf_copy_byte page_byte g)
    from vmo_step_new_page [of used, OF inv f(3) u nc _ mem_keeps_trans [OF k1 k2 subset_refl] b] page_got_new [of used, OF inv f(3) u b] own f(5)
    show ?thesis
      by (simp add: provides_def sbind_def on_world_def a f(1) insert_frame_def nc sreturn_def smod_def w'_def)
  next
    assume e: "r = Err ENOMEM \<and> wd_mem w1 = wd_mem w \<and> used (wd_alloc w1) = used (wd_alloc w) \<and> avail (wd_alloc w) = 0"
    have "vmo_step used (v, w) (v, w1)" by (rule vmo_step_unchanged [of used, OF inv]) (simp_all add: e)
    then show ?thesis using e by (auto simp: provides_def sbind_def on_world_def a)
  qed
qed

lemma read_fresh:
  assumes ok: "alloc_ok al used avail" and inv: "vmo_inv (used (wd_alloc w)) v"
    and none: "vmo_frame v i = None" and own: "vmo_is_cow v" "\<not> wr"
  shows "provides avail 1 used (\<lambda>f st'. page_got used wr i f (v, w) st') (v, w)
     (sbind (on_world (alloc_single al)) (\<lambda>f. sbind (sreturn ()) (\<lambda>_. sreturn f)) (v, w))"
proof -
  obtain r w' where a: "alloc_single al w = (r, w')" by fastforce
  show ?thesis
    using alloc_single_spec [OF ok a]
  proof
    assume "\<exists>f. r = Ok f \<and> wd_mem w' = vf_zero f (wd_mem w) \<and> vf_frame_index f \<notin> used (wd_alloc w) \<and>
       used (wd_alloc w') = insert (vf_frame_index f) (used (wd_alloc w)) \<and> avail (wd_alloc w) \<le> avail (wd_alloc w') + 1"
    then obtain f where f: "r = Ok f" "wd_mem w' = vf_zero f (wd_mem w)" "vf_frame_index f \<notin> used (wd_alloc w)"
      "used (wd_alloc w') = insert (vf_frame_index f) (used (wd_alloc w))" "avail (wd_alloc w) \<le> avail (wd_alloc w') + 1" by blast
    have "vmo_step used (v, w) (v, w')"
      by (rule vmo_step_unchanged [of used, OF inv]) (use f vf_zero_keeps in auto)
    moreover have "page_got used wr i f (v, w) (v, w')"
      using f own none by (simp add: page_got_def page_byte vf_zero_byte)
    ultimately show ?thesis using f(5) by (simp add: provides_def sbind_def on_world_def a f(1) sreturn_def)
  next
    assume e: "r = Err ENOMEM \<and> wd_mem w' = wd_mem w \<and> used (wd_alloc w') = used (wd_alloc w) \<and> avail (wd_alloc w) = 0"
    have "vmo_step used (v, w) (v, w')" by (rule vmo_step_unchanged [of used, OF inv]) (simp_all add: e)
    then show ?thesis using e by (auto simp: provides_def sbind_def on_world_def a)
  qed
qed
lemma commit_page_get:
  assumes "btm_wf (vmo_committed v)" "vmo_pager v = None" "map_of (vmo_committed v) i = None"
  shows "sbind (commit_page al (i * PAGE_SIZE)) (\<lambda>_ st'. (unwrap_opt (map_of (vmo_committed (fst st')) i), st')) (v, w) =
    sbind (on_world (alloc_single al)) (\<lambda>f. sbind (insert_frame i f) (\<lambda>_. sreturn f)) (v, w)"
  using assms
  by (simp add: commit_page_def sbind_def on_world_def insert_frame_def sreturn_def map_of_btm_insert Let_def
      split: prod.splits result.splits)

lemma sbind_return [simp]: "sbind (sreturn x) f = f x" "sbind (slift (Ok x)) f = f x"
  by (rule ext, simp)+

lemma get_committed_frame_spec:
  assumes ok: "alloc_ok al used avail" and inv: "vmo_inv (used (wd_alloc w)) v" and i: "i * PAGE_SIZE < vmo_size v"
  shows "provides avail 1 used (\<lambda>f st'. page_got used wr i f (v, w) st') (v, w) (get_committed_frame al i wr (v, w))"
proof (cases "map_of (vmo_committed v) i")
  case (Some f)
  then have "vmo_frame v i = Some f" by (simp add: vmo_frame_def)
  then show ?thesis
    using Some vmo_step_refl [of used, OF inv] page_got_present [of used, OF inv] by (simp add: get_committed_frame_def provides_def)
next
  case None
  show ?thesis
  proof (cases "vmo_inherited v")
    case inh: None
    then have "vmo_frame v i = None" using None by (simp add: vmo_frame_def)
    then show ?thesis
      using commit_fresh [OF ok inv, of i wr] commit_page_get [OF vmo_invD(2,1) [OF inv] None] inh None
      by (simp add: get_committed_frame_def)
  next
    case (Some fs)
    have fr: "vmo_frame v i = (if i < length fs then Some (fs ! i) else None)" using None Some by (simp add: vmo_frame_def)
    have slice: "vmo_is_cow v" if "\<not> i < length fs"
    proof (rule ccontr)
      assume "\<not> vmo_is_cow v"
      then have "i * PAGE_SIZE < length fs * PAGE_SIZE" using vmo_invD(5) [OF inv Some] i by linarith
      then show False using that by simp
    qed
    consider "\<not> i < length fs" "\<not> wr" | "\<not> i < length fs" wr
      | "i < length fs" "should_share_frame_with_parent v wr" | "i < length fs" "\<not> should_share_frame_with_parent v wr"
      by blast
    then show ?thesis
    proof cases
      case 1
      then show ?thesis using read_fresh [OF ok inv, of i wr] slice fr None Some
        by (simp add: get_committed_frame_def get_inherited_frame_or_alloc_def should_share_frame_with_parent_def)
    next
      case 2
      then show ?thesis using commit_fresh [OF ok inv, of i wr] slice fr None Some
        by (simp add: get_committed_frame_def get_inherited_frame_or_alloc_def should_share_frame_with_parent_def)
    next
      case 3
      then have "page_got used wr i (fs ! i) (v, w) (v, w)"
        using page_got_present [of used, OF inv, of i "fs ! i" wr] fr by (auto simp: should_share_frame_with_parent_def)
      then show ?thesis using 3 vmo_step_refl [of used, OF inv] None Some
        by (simp add: get_committed_frame_def get_inherited_frame_or_alloc_def provides_def sbind_def on_world_def slift_def sreturn_def)
    next
      case 4
      then show ?thesis using copy_fresh [OF ok inv, of i "fs ! i" wr] fr None Some
        by (simp add: get_committed_frame_def get_inherited_frame_or_alloc_def should_share_frame_with_parent_def)
    qed
  qed
qed

definition pages_got ::
    "('s \<Rightarrow> nat set) \<Rightarrow> bool \<Rightarrow> nat list \<Rightarrow> vm_frame list \<Rightarrow> ('s, 'p) vmo_state \<Rightarrow> ('s, 'p) vmo_state \<Rightarrow> bool" where
  "pages_got used wr is fs st st' \<longleftrightarrow> length fs = length is \<and> frames_distinct fs \<and>
     (\<forall>n < length is. vf_frame_index (fs ! n) \<in> used (wd_alloc (snd st')) \<and>
        (\<forall>k < PAGE_SIZE. wd_mem (snd st') (vf_as_ptr (fs ! n) + k) = vmo_byte (fst st) (wd_mem (snd st)) (is ! n * PAGE_SIZE + k)) \<and>
        (vmo_frame (fst st) (is ! n) = Some (fs ! n) \<or> vf_frame_index (fs ! n) \<notin> used (wd_alloc (snd st))) \<and>
        (wr \<or> \<not> vmo_is_cow (fst st) \<longrightarrow> vmo_frame (fst st') (is ! n) = Some (fs ! n)) \<and>
        (wr \<and> vmo_is_cow (fst st) \<longrightarrow> map_of (vmo_committed (fst st')) (is ! n) = Some (fs ! n))) \<and>
     (\<forall>j. j \<notin> set is \<longrightarrow> vmo_frame (fst st') j = vmo_frame (fst st) j)"

lemma pages_got_Cons:
  assumes s1: "vmo_step used st st1" and g: "page_got used wr i f st st1"
    and s2: "vmo_step used st1 st'" and gs: "pages_got used wr is fs st1 st'"
    and inv: "vmo_inv (used (wd_alloc (snd st))) (fst st)" and i: "i \<notin> set is"
  shows "pages_got used wr (i # is) (f # fs) st st'"
proof -
  note 1 = vmo_stepD [OF s1] and 2 = vmo_stepD [OF s2]
  have len: "length fs = length is" using gs by (simp add: pages_got_def)
  have cow: "vmo_is_cow (fst st1) = vmo_is_cow (fst st)" by (rule same_object_sel(5) [OF 1(4)])
  have G: "vmo_frame (fst st) (is ! n) = Some (fs ! n) \<or> vf_frame_index (fs ! n) \<notin> used (wd_alloc (snd st1))" if "n < length is" for n
    using gs g that i unfolding pages_got_def page_got_def by (metis nth_mem)
  have F: "vf_frame_index f \<in> used (wd_alloc (snd st1))" "vmo_frame (fst st) i = Some f \<or> vf_frame_index f \<notin> used (wd_alloc (snd st))"
    using g by (simp_all add: page_got_def)
  have "vf_frame_index (fs ! n) \<noteq> vf_frame_index f" if n: "n < length is" for n
    using G [OF n] F vmo_invD(3,4) [OF inv] i n by (metis nth_mem)
  then have "vf_frame_index f \<notin> vf_frame_index ` set fs"
    using len by (metis imageE in_set_conv_nth)
  then have d: "frames_distinct (f # fs)" using gs by (simp add: pages_got_def frames_distinct_def)
  have head: "vf_frame_index f \<in> used (wd_alloc (snd st'))"
      "wr \<or> \<not> vmo_is_cow (fst st) \<Longrightarrow> vmo_frame (fst st') i = Some f"
      "wr \<Longrightarrow> vmo_is_cow (fst st) \<Longrightarrow> map_of (vmo_committed (fst st')) i = Some f"
      "\<And>k. k < PAGE_SIZE \<Longrightarrow> wd_mem (snd st') (vf_as_ptr f + k) = vmo_byte (fst st) (wd_mem (snd st)) (i * PAGE_SIZE + k)"
    using g gs i 2(1,6) mem_keeps_frame [OF 2(2) F(1)] unfolding page_got_def pages_got_def by auto
  have tail: "vf_frame_index (fs ! n) \<in> used (wd_alloc (snd st'))"
      "wr \<or> \<not> vmo_is_cow (fst st) \<Longrightarrow> vmo_frame (fst st') (is ! n) = Some (fs ! n)"
      "wr \<Longrightarrow> vmo_is_cow (fst st) \<Longrightarrow> map_of (vmo_committed (fst st')) (is ! n) = Some (fs ! n)"
      "\<And>k. k < PAGE_SIZE \<Longrightarrow> wd_mem (snd st') (vf_as_ptr (fs ! n) + k) = vmo_byte (fst st) (wd_mem (snd st)) (is ! n * PAGE_SIZE + k)"
      "vmo_frame (fst st) (is ! n) = Some (fs ! n) \<or> vf_frame_index (fs ! n) \<notin> used (wd_alloc (snd st))" if "n < length is" for n
    using gs G [OF that] that 1(1) unfolding pages_got_def cow 1(5) by auto
  have rest: "vmo_frame (fst st') j = vmo_frame (fst st) j" if "j \<noteq> i" "j \<notin> set is" for j
    using gs g that by (simp add: pages_got_def page_got_def)
  show ?thesis
    unfolding pages_got_def
  proof (intro conjI allI impI)
    fix n assume "n < length (i # is)"
    then show "vf_frame_index ((f # fs) ! n) \<in> used (wd_alloc (snd st'))"
      "vmo_frame (fst st) ((i # is) ! n) = Some ((f # fs) ! n) \<or> vf_frame_index ((f # fs) ! n) \<notin> used (wd_alloc (snd st))"
      "wr \<or> \<not> vmo_is_cow (fst st) \<Longrightarrow> vmo_frame (fst st') ((i # is) ! n) = Some ((f # fs) ! n)"
      "wr \<and> vmo_is_cow (fst st) \<Longrightarrow> map_of (vmo_committed (fst st')) ((i # is) ! n) = Some ((f # fs) ! n)"
      "k < PAGE_SIZE \<Longrightarrow> wd_mem (snd st') (vf_as_ptr ((f # fs) ! n) + k) =
         vmo_byte (fst st) (wd_mem (snd st)) ((i # is) ! n * PAGE_SIZE + k)" for k
      using head tail F(2) by (auto simp: nth_Cons split: nat.splits)
  qed (use d len rest in auto)
qed

lemma ensure_loop_spec:
  assumes "alloc_ok al used avail" "vmo_inv (used (wd_alloc (snd st))) (fst st)" "distinct is"
    and "\<And>i. i \<in> set is \<Longrightarrow> i * PAGE_SIZE < vmo_size (fst st)"
  shows "provides avail (length is) used (\<lambda>gs st'. \<exists>fs. gs = acc @ fs \<and> pages_got used wr is fs st st') st (ensure_loop al wr is acc st)"
  using assms(2-)
proof (induction "is" arbitrary: acc st)
  case Nil
  then show ?case by (simp add: provides_def sreturn_def pages_got_def frames_distinct_def vmo_step_refl [of used "snd st" "fst st", simplified])
next
  case (Cons i "is")
  obtain r st1 where g: "get_committed_frame al i wr st = (r, st1)" by (meson surj_pair)
  have p: "provides avail 1 used (\<lambda>f st'. page_got used wr i f st st') st (r, st1)"
    using get_committed_frame_spec [OF assms(1), of "snd st" "fst st" i wr] Cons.prems g by simp
  then have s1: "vmo_step used st st1" by (simp add: provides_def)
  show ?case
  proof (cases r)
    case (Ok f)
    have inv1: "vmo_inv (used (wd_alloc (snd st1))) (fst st1)" and sz: "vmo_size (fst st1) = vmo_size (fst st)"
      using vmo_stepD(3,4) [OF s1] same_object_sel(3) by auto
    obtain q st' where l: "ensure_loop al wr is (acc @ [f]) st1 = (q, st')" by (meson surj_pair)
    have p2: "provides avail (length is) used (\<lambda>gs st'. \<exists>fs. gs = (acc @ [f]) @ fs \<and> pages_got used wr is fs st1 st') st1 (q, st')"
      using Cons.IH [OF inv1, of "acc @ [f]"] Cons.prems sz l by simp
    then have s2: "vmo_step used st1 st'" by (simp add: provides_def)
    have "pages_got used wr (i # is) (f # fs) st st'" if "pages_got used wr is fs st1 st'" for fs
      using pages_got_Cons [OF s1 _ s2 that Cons.prems(1)] p Ok Cons.prems(2) by (simp add: provides_def)
    then show ?thesis
      using p p2 vmo_step_trans [OF s1 s2] g Ok l
      by (fastforce simp: provides_def sbind_def split: result.splits)
  qed (use p s1 g in \<open>auto simp: provides_def sbind_def\<close>)
qed

lemma page_range:
  assumes "a \<le> b" "b + PAGE_SIZE < USIZE_LIMIT"
  shows "get_page_idx_range (a, b) = Ok (a div PAGE_SIZE, (b + (PAGE_SIZE - 1)) div PAGE_SIZE)"
proof -
  have "usize_align_down a PAGE_SIZE = Some (a - a mod PAGE_SIZE)"
    by (rule usize_align_down_Some [of 12]) (use assms in simp_all)
  moreover have "usize_align_up b PAGE_SIZE = Some (round_up b PAGE_SIZE)"
    by (rule usize_align_up_Some [of 12]) (use assms in simp_all)
  moreover have "(x - x mod PAGE_SIZE) div PAGE_SIZE = x div PAGE_SIZE" for x by (simp add: minus_mod_eq_div_mult)
  ultimately show ?thesis by (simp add: get_page_idx_range_def round_up_def)
qed

lemma page_range_bounds:
  assumes "a \<le> b" "i \<in> set [a div PAGE_SIZE ..< (b + (PAGE_SIZE - 1)) div PAGE_SIZE]"
  shows "i * PAGE_SIZE < b" "a < (i + 1) * PAGE_SIZE"
proof -
  have "Suc i * PAGE_SIZE \<le> b + (PAGE_SIZE - 1)" using assms(2) by (simp add: less_eq_div_iff_mult_less_eq Suc_le_eq flip: Suc_le_eq)
  then show "i * PAGE_SIZE < b" by simp
  have "a div PAGE_SIZE < i + 1" using assms(2) by simp
  then show "a < (i + 1) * PAGE_SIZE" by (simp add: div_less_iff_less_mult)
qed
section \<open>Writing\<close>

text \<open>A buffer that is neither in a free frame nor in a frame of the object.\<close>

definition buf_ok :: "nat set \<Rightarrow> 'w vmo \<Rightarrow> slice \<Rightarrow> bool" where
  "buf_ok U v buf \<longleftrightarrow>
     (\<forall>a j. fst buf \<le> a \<longrightarrow> a < fst buf + snd buf \<longrightarrow> a \<in> frame_addrs j \<longrightarrow>
        j \<in> U \<and> (\<forall>i f. vmo_frame v i = Some f \<longrightarrow> vf_frame_index f \<noteq> j))"

lemma fv_addr_frame:
  assumes "i < fv_nbytes fs"
  shows "\<exists>n < length fs. fv_addr fs i \<in> frame_addrs (vf_frame_index (fs ! n))"
  using assms vf_as_ptr_addrs [of "fs ! (i div PAGE_SIZE)" "i mod PAGE_SIZE"]
  by (intro exI [of _ "i div PAGE_SIZE"]) (simp add: fv_addr_def fv_nbytes_def div_less_iff_less_mult)

lemma buf_apart_got:
  assumes b: "buf_ok (used (wd_alloc (snd st))) (fst st) buf" and g: "pages_got used wr is fs st st'"
  shows "slice_apart buf fs"
  unfolding slice_apart_def
proof (intro allI impI notI)
  fix i assume i: "i < fv_nbytes fs" "fv_addr fs i \<in> {fst buf..<fst buf + snd buf}"
  obtain n where n: "n < length fs" "fv_addr fs i \<in> frame_addrs (vf_frame_index (fs ! n))" using fv_addr_frame [OF i(1)] by blast
  have "vf_frame_index (fs ! n) \<in> used (wd_alloc (snd st)) \<and>
      (\<forall>j f. vmo_frame (fst st) j = Some f \<longrightarrow> vf_frame_index f \<noteq> vf_frame_index (fs ! n))"
    using b i(2) n(2) unfolding buf_ok_def atLeastLessThan_iff by blast
  moreover have "vmo_frame (fst st) (is ! n) = Some (fs ! n) \<or> vf_frame_index (fs ! n) \<notin> used (wd_alloc (snd st))"
    using g n(1) by (simp add: pages_got_def)
  ultimately show False by blast
qed

lemma buf_kept:
  assumes "buf_ok U v buf" "mem_keeps U m m'" "fst buf \<le> a" "a < fst buf + snd buf"
  shows "m' a = m a"
  using assms unfolding buf_ok_def mem_keeps_def by blast

text \<open>The pages of a range and the position of an offset in them.\<close>

lemma page_count:
  fixes off len :: nat
  defines "lo \<equiv> off div PAGE_SIZE" and "hi \<equiv> (off + len + (PAGE_SIZE - 1)) div PAGE_SIZE"
  shows "off mod PAGE_SIZE + len \<le> (hi - lo) * PAGE_SIZE"
    and "off \<le> a \<Longrightarrow> a < off + len \<Longrightarrow> a div PAGE_SIZE \<in> {lo..<hi}"
proof -
  have off: "off = lo * PAGE_SIZE + off mod PAGE_SIZE" by (simp add: lo_def)
  have e: "off + len + (PAGE_SIZE - 1) = hi * PAGE_SIZE + (off + len + (PAGE_SIZE - 1)) mod PAGE_SIZE" by (simp add: hi_def)
  have m: "(off + len + (PAGE_SIZE - 1)) mod PAGE_SIZE < PAGE_SIZE" by simp
  have hi: "off + len \<le> hi * PAGE_SIZE" using e m by linarith
  then show "off mod PAGE_SIZE + len \<le> (hi - lo) * PAGE_SIZE" using off by (simp add: diff_mult_distrib)
  show "off \<le> a \<Longrightarrow> a < off + len \<Longrightarrow> a div PAGE_SIZE \<in> {lo..<hi}"
    using hi by (simp add: lo_def div_le_mono div_less_iff_less_mult)
qed

lemma vmo_write_result:
  assumes ok: "alloc_ok al used avail" and inv: "vmo_inv (used (wd_alloc w)) v"
    and fit: "off + snd buf \<le> vmo_size v" and lim: "vmo_size v + PAGE_SIZE < USIZE_LIMIT"
    and buf: "buf_ok (used (wd_alloc w)) v buf"
  shows "\<exists>r v' w'. vmo_write_bytes al off buf (v, w) = (r, (v', w')) \<and>
    (r = Ok () \<and> (\<exists>w1 fs. vmo_step used (v, w) (v', w1) \<and> wd_alloc w' = wd_alloc w1 \<and>
       pages_got used True [off div PAGE_SIZE..<(off + snd buf + (PAGE_SIZE - 1)) div PAGE_SIZE] fs (v, w) (v', w1) \<and>
       fv_written fs (off mod PAGE_SIZE) (fst buf) (snd buf) (wd_mem w1) (wd_mem w')) \<or>
     r = Err ENOMEM \<and> vmo_step used (v, w) (v', w') \<and>
       avail (wd_alloc w) < (off + snd buf + (PAGE_SIZE - 1)) div PAGE_SIZE - off div PAGE_SIZE)"
proof -
  let ?is = "[off div PAGE_SIZE..<(off + snd buf + (PAGE_SIZE - 1)) div PAGE_SIZE]"
  have "i * PAGE_SIZE < vmo_size v" if "i \<in> set ?is" for i
    using page_range_bounds(1) [OF _ that] fit by simp
  from ensure_loop_spec [OF ok, of "(v, w)" ?is "[]" True] this inv
  have p: "provides avail (length ?is) used (\<lambda>fs st'. pages_got used True ?is fs (v, w) st') (v, w) (ensure_loop al True ?is [] (v, w))" by simp
  obtain q v' w1 where l: "ensure_loop al True ?is [] (v, w) = (q, (v', w1))" by (metis surj_pair)
  have "get_page_idx_range (off, off + snd buf) = Ok (off div PAGE_SIZE, (off + snd buf + (PAGE_SIZE - 1)) div PAGE_SIZE)"
    using page_range [of off "off + snd buf"] fit lim by simp
  then have ens: "ensure_all_pages_exist al (off, off + snd buf) True (v, w) = (q, (v', w1))"
    using l by (simp add: ensure_all_pages_exist_def)
  have add: "usize_add off (snd buf) = Ok (off + snd buf)" using fit lim by (simp add: usize_add_def)
  have s: "vmo_step used (v, w) (v', w1)" using p l by (simp add: provides_def)
  have nlt: "\<not> vmo_size v < off + snd buf" using fit by simp
  note run = vmo_write_bytes_def add sbind_def sget_def slift_def fit ens nlt
  show ?thesis
  proof (cases q)
    case (Ok fs)
    then have g: "pages_got used True ?is fs (v, w) (v', w1)" using p l by (simp add: provides_def)
    have len: "length fs = length ?is" using g by (simp add: pages_got_def)
    have "off mod PAGE_SIZE + snd buf \<le> fv_nbytes fs" using page_count(1) [of off "snd buf"] len by (simp add: fv_nbytes_def)
    moreover have "off mod PAGE_SIZE + snd buf < USIZE_LIMIT" using fit lim mod_less_eq_dividend [of off PAGE_SIZE] by linarith
    moreover have "frames_distinct fs" using g by (simp add: pages_got_def)
    moreover have "slice_apart buf fs" using buf_apart_got [OF _ g] buf by simp
    ultimately obtain m' where m': "fv_write_bytes fs (off mod PAGE_SIZE) buf (wd_mem w1) = Ok m'"
      "fv_written fs (off mod PAGE_SIZE) (fst buf) (snd buf) (wd_mem w1) m'"
      using fv_write_bytes_Ok by blast
    have "vmo_pager v' = None" using vmo_invD(1) [OF vmo_stepD(3) [OF s]] by simp
    then have "vmo_write_bytes al off buf (v, w) = (Ok (), (v', w1\<lparr>wd_mem := m'\<rparr>))"
      using Ok m'(1) fit by (simp add: run on_mem_def from_fres_def sreturn_def)
    then show ?thesis using s g m'(2) by auto
  next
    case (Err e)
    then have "e = ENOMEM \<and> avail (wd_alloc w) < (off + snd buf + (PAGE_SIZE - 1)) div PAGE_SIZE - off div PAGE_SIZE"
      using p l by (simp add: provides_def)
    moreover have "vmo_write_bytes al off buf (v, w) = (Err e, (v', w1))" using Err fit by (simp add: run)
    ultimately show ?thesis using s by auto
  qed (use p l in \<open>simp add: provides_def\<close>)
qed
lemma written_other_frame:
  assumes "fv_written fs start src len m m'" "\<And>n. n < length fs \<Longrightarrow> vf_frame_index (fs ! n) \<noteq> j" "a \<in> frame_addrs j"
  shows "m' a = m a"
proof -
  have "a \<noteq> fv_addr fs i" if "i < fv_nbytes fs" for i
    using fv_addr_frame [OF that] assms(2,3) frame_addrs_disjoint by metis
  then show ?thesis using assms(1) by (simp add: fv_written_def)
qed

lemma write_content:
  assumes s: "vmo_step used (v, w) (v', w1)" and buf: "buf_ok (used (wd_alloc w)) v buf"
    and g: "pages_got used True [off div PAGE_SIZE..<(off + snd buf + (PAGE_SIZE - 1)) div PAGE_SIZE] fs (v, w) (v', w1)"
    and wr: "fv_written fs (off mod PAGE_SIZE) (fst buf) (snd buf) (wd_mem w1) m'"
  shows "vmo_byte v' m' a = (if off \<le> a \<and> a < off + snd buf then wd_mem w (fst buf + (a - off)) else vmo_byte v (wd_mem w) a)"
proof -
  let ?lo = "off div PAGE_SIZE" and ?hi = "(off + snd buf + (PAGE_SIZE - 1)) div PAGE_SIZE" and ?i = "a div PAGE_SIZE"
  have len: "length fs = ?hi - ?lo" using g by (simp add: pages_got_def)
  have own: "vmo_frame v' (?lo + n) = Some (fs ! n)" if "n < ?hi - ?lo" for n
    using g that by (simp add: pages_got_def)
  have old: "vmo_byte v' (wd_mem w1) a = vmo_byte v (wd_mem w) a" using vmo_stepD(5) [OF s] by simp
  show ?thesis
  proof (cases "?lo \<le> ?i \<and> ?i < ?hi")
    case True
    define n x where "n = ?i - ?lo" and "x = n * PAGE_SIZE + a mod PAGE_SIZE"
    have n: "n < length fs" "?i = ?lo + n" using True len unfolding n_def by linarith+
    have "off = ?lo * PAGE_SIZE + off mod PAGE_SIZE" "a = (?lo + n) * PAGE_SIZE + a mod PAGE_SIZE" unfolding n(2) [symmetric] by simp_all
    then have x: "off mod PAGE_SIZE \<le> x \<longleftrightarrow> off \<le> a" "x < off mod PAGE_SIZE + snd buf \<longleftrightarrow> a < off + snd buf"
      "off \<le> a \<Longrightarrow> x - off mod PAGE_SIZE = a - off" unfolding x_def add_mult_distrib by linarith+
    have fr: "vmo_frame v' ?i = Some (fs ! n)" using own [of n] n len by simp
    have addr: "fv_addr fs x = vf_as_ptr (fs ! n) + a mod PAGE_SIZE" "x < fv_nbytes fs"
      using n(1) by (simp_all add: fv_addr_def x_def fv_nbytes_def mult_less_cancel2 flip: Suc_le_eq)
    have "vmo_byte v' m' a = m' (fv_addr fs x)" using fr addr(1) by (simp add: vmo_byte_def)
    also have "\<dots> = (if off \<le> a \<and> a < off + snd buf then wd_mem w1 (fst buf + (a - off)) else wd_mem w1 (fv_addr fs x))"
      using wr addr(2) x by (simp add: fv_written_def)
    also have "wd_mem w1 (fv_addr fs x) = vmo_byte v (wd_mem w) a" using fr addr(1) old by (simp add: vmo_byte_def)
    finally show ?thesis using buf_kept [OF buf, of "wd_mem w" "wd_mem w1" "fst buf + (a - off)"] vmo_stepD(2) [OF s] by auto
  next
    case False
    then have out: "\<not> (off \<le> a \<and> a < off + snd buf)" using page_count(2) [of off a "snd buf"] by auto
    have "m' (vf_as_ptr h + a mod PAGE_SIZE) = wd_mem w1 (vf_as_ptr h + a mod PAGE_SIZE)" if h: "vmo_frame v' ?i = Some h" for h
    proof (rule written_other_frame [OF wr])
      fix n assume "n < length fs"
      then have "vmo_frame v' (?lo + n) = Some (fs ! n)" "?lo + n \<noteq> ?i" using own len False by auto
      then show "vf_frame_index (fs ! n) \<noteq> vf_frame_index h" using vmo_invD(4) [OF vmo_stepD(3) [OF s]] h by auto
    qed (simp add: vf_as_ptr_addrs)
    then have "vmo_byte v' m' a = vmo_byte v' (wd_mem w1) a" by (simp add: vmo_byte_def split: option.split)
    then show ?thesis using out old by auto
  qed
qed

text \<open>A copy-on-write child writes to frames of its own only.\<close>

lemma cow_write_own:
  assumes g: "pages_got used True is fs (v, w) (v', w1)" and s: "vmo_step used (v, w) (v', w1)" and cow: "vmo_is_cow v"
    and n: "n < length fs"
  shows "(\<exists>i. map_of (vmo_committed v) i = Some (fs ! n)) \<or> vf_frame_index (fs ! n) \<notin> used (wd_alloc w)"
proof -
  have "map_of (vmo_committed v') (is ! n) = Some (fs ! n)" using g n cow by (simp add: pages_got_def)
  then show ?thesis using vmo_stepD(7) [OF s] by auto
qed
definition private_apart :: "'w vmo \<Rightarrow> 'w vmo \<Rightarrow> bool" where
  "private_apart v u \<longleftrightarrow> (\<forall>i j f g. map_of (vmo_committed v) i = Some f \<longrightarrow> vmo_frame u j = Some g \<longrightarrow> vf_frame_index f \<noteq> vf_frame_index g)"

lemma cow_write_keeps:
  assumes g: "pages_got used True is fs (v, w) (v', w1)" and s: "vmo_step used (v, w) (v', w1)" and cow: "vmo_is_cow v"
    and wr: "fv_written fs start src len (wd_mem w1) m'"
    and u: "vmo_inv (used (wd_alloc w)) u" "private_apart v u"
  shows "vmo_byte u m' a = vmo_byte u (wd_mem w) a"
proof -
  have "m' (vf_as_ptr h + a mod PAGE_SIZE) = wd_mem w (vf_as_ptr h + a mod PAGE_SIZE)" if h: "vmo_frame u (a div PAGE_SIZE) = Some h" for h
  proof -
    have hU: "vf_frame_index h \<in> used (wd_alloc w)" by (rule vmo_invD(3) [OF u(1) h])
    have "m' (vf_as_ptr h + a mod PAGE_SIZE) = wd_mem w1 (vf_as_ptr h + a mod PAGE_SIZE)"
    proof (rule written_other_frame [OF wr])
      show "vf_frame_index (fs ! n) \<noteq> vf_frame_index h" if "n < length fs" for n
        using cow_write_own [OF g s cow that] hU u(2) h unfolding private_apart_def by metis
    qed (simp add: vf_as_ptr_addrs)
    also have "\<dots> = wd_mem w (vf_as_ptr h + a mod PAGE_SIZE)"
      using mem_keeps_frame [OF vmo_stepD(2) [OF s]] hU by simp
    finally show ?thesis .
  qed
  then show ?thesis by (simp add: vmo_byte_def split: option.split)
qed

section \<open>Children\<close>

lemma inherit_loop_spec:
  assumes "alloc_ok al used avail" "vmo_inv (used (wd_alloc (snd st))) (fst st)" "distinct is"
    and "\<And>i. i \<in> set is \<Longrightarrow> (i + d) * PAGE_SIZE < vmo_size (fst st)" "length is \<le> avail (wd_alloc (snd st))"
  shows "\<exists>fs st'. inherit_loop al d cow is acc st = (Ok (acc @ fs), st') \<and> vmo_step used st st' \<and>
    pages_got used (\<not> cow) (map (\<lambda>i. i + d) is) fs st st' \<and>
    avail (wd_alloc (snd st)) \<le> avail (wd_alloc (snd st')) + length is"
  using assms(2-)
proof (induction "is" arbitrary: acc st)
  case Nil
  then show ?case by (simp add: sreturn_def pages_got_def frames_distinct_def vmo_step_refl [of used "snd st" "fst st", simplified])
next
  case (Cons i "is")
  obtain r st1 where g: "get_committed_frame al (i + d) (\<not> cow) st = (r, st1)" by (meson surj_pair)
  have p: "provides avail 1 used (\<lambda>f st'. page_got used (\<not> cow) (i + d) f st st') st (r, st1)"
    using get_committed_frame_spec [OF assms(1), of "snd st" "fst st" "i + d" "\<not> cow"] Cons.prems g by simp
  then have s1: "vmo_step used st st1" by (simp add: provides_def)
  obtain f where f: "r = Ok f" "page_got used (\<not> cow) (i + d) f st st1"
    using p Cons.prems(4) by (cases r) (simp_all add: provides_def)
  have av: "length is \<le> avail (wd_alloc (snd st1))" using p Cons.prems(4) by (simp add: provides_def)
  have inv1: "vmo_inv (used (wd_alloc (snd st1))) (fst st1)" and sz: "vmo_size (fst st1) = vmo_size (fst st)"
    using vmo_stepD(3,4) [OF s1] same_object_sel(3) by auto
  obtain fs st' where l: "inherit_loop al d cow is (acc @ [f]) st1 = (Ok ((acc @ [f]) @ fs), st')" "vmo_step used st1 st'"
    "pages_got used (\<not> cow) (map (\<lambda>i. i + d) is) fs st1 st'" "avail (wd_alloc (snd st1)) \<le> avail (wd_alloc (snd st')) + length is"
    using Cons.IH [OF inv1 _ _ av, of "acc @ [f]"] Cons.prems sz by auto
  have "i + d \<notin> set (map (\<lambda>i. i + d) is)" using Cons.prems(2) by auto
  then have "pages_got used (\<not> cow) (map (\<lambda>i. i + d) (i # is)) (f # fs) st st'"
    using pages_got_Cons [OF s1 f(2) l(2,3) Cons.prems(1)] by simp
  moreover have "avail (wd_alloc (snd st)) \<le> avail (wd_alloc (snd st')) + length (i # is)" using p l(4) by (simp add: provides_def)
  ultimately show ?case using g f(1) l(1) vmo_step_trans [OF s1 l(2)] by auto
qed

text \<open>A child inherits the pages of its range from a parent whose size is a multiple of the page size.\<close>

lemma alloc_child_result:
  assumes ok: "alloc_ok al used avail" and inv: "vmo_inv (used (wd_alloc w)) v" and av: "(min b (vmo_size v) - a) div PAGE_SIZE \<le> avail (wd_alloc w)"
    and rng: "a mod PAGE_SIZE = 0" "b mod PAGE_SIZE = 0" "a \<le> b" "a \<le> vmo_size v" "vmo_size v mod PAGE_SIZE = 0"
  shows "\<exists>c v' w' fs. alloc_child_vmo al (a, b) fl CowChild (v, w) = (Ok c, (v', w')) \<and> vmo_step used (v, w) (v', w') \<and>
    c = \<lparr>vmo_flags = fl, vmo_pager = None, vmo_size = b - a, vmo_committed = [], vmo_inherited = Some fs, vmo_is_cow = True\<rparr> \<and>
    length fs * PAGE_SIZE = min b (vmo_size v) - a \<and>
    pages_got used False (map (\<lambda>i. i + a div PAGE_SIZE) [0..<length fs]) fs (v, w) (v', w') \<and>
    avail (wd_alloc w) \<le> avail (wd_alloc w') + (min b (vmo_size v) - a) div PAGE_SIZE"
proof -
  let ?e = "min b (vmo_size v)"
  define n where "n = (?e - a) div PAGE_SIZE"
  have e: "?e mod PAGE_SIZE = 0" "a \<le> ?e" using rng by (auto simp: min_def)
  obtain x y where xy: "a = x * PAGE_SIZE" "?e = y * PAGE_SIZE" using rng(1) e(1) by (metis mod_0_imp_dvd dvd_def mult.commute)
  have n: "n * PAGE_SIZE = ?e - a" "n = y - x" "a div PAGE_SIZE = x" using xy by (simp_all add: n_def flip: diff_mult_distrib)
  have "(i + a div PAGE_SIZE) * PAGE_SIZE < vmo_size v" if "i \<in> set [0..<n]" for i
  proof -
    have "i + x < y" using that n(2) by simp
    then have "(i + x) * PAGE_SIZE < y * PAGE_SIZE" by (simp only: mult_less_cancel2) simp
    then show ?thesis using xy(2) n(3) by (metis min_less_iff_conj)
  qed
  from inherit_loop_spec [OF ok, of "(v, w)" "[0..<n]" "a div PAGE_SIZE" True "[]"] this inv av
  obtain fs v' w' where l: "inherit_loop al (a div PAGE_SIZE) True [0..<n] [] (v, w) = (Ok fs, (v', w'))" "vmo_step used (v, w) (v', w')"
    "pages_got used False (map (\<lambda>i. i + a div PAGE_SIZE) [0..<n]) fs (v, w) (v', w')"
    "avail (wd_alloc w) \<le> avail (wd_alloc w') + n" unfolding n_def by auto
  have len: "length fs = n" using l(3) by (simp add: pages_got_def)
  have "check_child_range (a, b) (vmo_size v) CowChild = Ok True" using rng by (simp add: check_child_range_def)
  then have "alloc_child_vmo al (a, b) fl CowChild (v, w) =
     (Ok \<lparr>vmo_flags = fl, vmo_pager = None, vmo_size = b - a, vmo_committed = [], vmo_inherited = Some fs, vmo_is_cow = True\<rparr>, (v', w'))"
    using l(1) e(2) rng(3) n_def by (simp add: alloc_child_vmo_def sbind_def sget_def slift_def sreturn_def get_inherited_frames_from_parent_def usize_sub_def)
  then show ?thesis using l(2-4) len n(1) n_def by auto
qed
lemma child_content:
  assumes c: "c = \<lparr>vmo_flags = fl, vmo_pager = None, vmo_size = b - a, vmo_committed = [], vmo_inherited = Some fs, vmo_is_cow = True\<rparr>"
    and g: "pages_got used False (map (\<lambda>i. i + a div PAGE_SIZE) [0..<length fs]) fs (v, w) (v', w')" and a: "a mod PAGE_SIZE = 0"
  shows "vmo_inv (used (wd_alloc w')) c" "private_apart c u"
    "vmo_byte c (wd_mem w') x = (if x < length fs * PAGE_SIZE then vmo_byte v (wd_mem w) (a + x) else 0)"
    "vmo_frame c i = Some f \<Longrightarrow> vmo_frame v (i + a div PAGE_SIZE) = Some f \<or> vf_frame_index f \<notin> used (wd_alloc w)"
proof -
  have fr: "vmo_frame c i = (if i < length fs then Some (fs ! i) else None)" for i by (simp add: vmo_frame_def c)
  have d: "distinct (map vf_frame_index fs)" using g by (simp add: pages_got_def frames_distinct_def)
  have U: "i < length fs \<Longrightarrow> vf_frame_index (fs ! i) \<in> used (wd_alloc w')" for i using g by (simp add: pages_got_def)
  have inj: "i = j" if "i < length fs" "j < length fs" "vf_frame_index (fs ! i) = vf_frame_index (fs ! j)" for i j
    using nth_eq_iff_index_eq [OF d, of i j] that by simp
  show "vmo_inv (used (wd_alloc w')) c" unfolding vmo_inv_def fr using U inj by (auto simp: c split: if_splits)
  show "private_apart c u" by (simp add: private_apart_def c)
  show "vmo_frame c i = Some f \<Longrightarrow> vmo_frame v (i + a div PAGE_SIZE) = Some f \<or> vf_frame_index f \<notin> used (wd_alloc w)"
    using g unfolding fr by (auto simp: pages_got_def split: if_splits)
  obtain k where k: "a = k * PAGE_SIZE" using a by (metis mod_0_imp_dvd dvd_def mult.commute)
  show "vmo_byte c (wd_mem w') x = (if x < length fs * PAGE_SIZE then vmo_byte v (wd_mem w) (a + x) else 0)"
  proof (cases "x div PAGE_SIZE < length fs")
    case True
    then have "wd_mem w' (vf_as_ptr (fs ! (x div PAGE_SIZE)) + x mod PAGE_SIZE) =
        vmo_byte v (wd_mem w) ((x div PAGE_SIZE + k) * PAGE_SIZE + x mod PAGE_SIZE)"
      using g k by (simp add: pages_got_def)
    moreover have "(x div PAGE_SIZE + k) * PAGE_SIZE + x mod PAGE_SIZE = a + x" using k by (simp add: add_mult_distrib)
    moreover have "vmo_byte c (wd_mem w') x = wd_mem w' (vf_as_ptr (fs ! (x div PAGE_SIZE)) + x mod PAGE_SIZE)"
      using True by (simp add: vmo_byte_def fr)
    moreover have "x < length fs * PAGE_SIZE" using True by (simp add: div_less_iff_less_mult)
    ultimately show ?thesis by metis
  qed (simp add: vmo_byte_def fr div_less_iff_less_mult)
qed


lemma buf_ok_child:
  assumes "buf_ok U v buf" "U \<subseteq> U'" "\<And>i f. vmo_frame c i = Some f \<Longrightarrow> (\<exists>j. vmo_frame v j = Some f) \<or> vf_frame_index f \<notin> U"
  shows "buf_ok U' c buf"
  using assms unfolding buf_ok_def by blast

lemma step_frame:
  assumes "vmo_step used (v, w) (v', w')" "vmo_inv (used (wd_alloc w)) v" "vmo_frame v i = Some f" "\<not> vmo_is_cow v"
  shows "vmo_frame v' i = Some f"
proof (cases "map_of (vmo_committed v) i")
  case None
  then obtain fs where fs: "vmo_inherited v = Some fs" "i < length fs" "f = fs ! i"
    using assms(3) by (auto simp: vmo_frame_def split: option.splits if_splits)
  have so: "same_object v v'" using vmo_stepD(4) [OF assms(1)] by simp
  have "vmo_inherited v' = Some fs" "\<not> vmo_is_cow v'" using same_object_sel(4,5) [OF so] fs(1) assms(4) by simp_all
  moreover from this have "vmo_committed v' = []" using vmo_invD(5) [OF vmo_stepD(3) [OF assms(1)]] by simp
  ultimately show ?thesis using fs by (simp add: vmo_frame_def)
next
  case (Some g)
  then show ?thesis using assms(3) vmo_stepD(6) [OF assms(1)] by (simp add: vmo_frame_def)
qed

lemma vmo_write_outcome:
  assumes "alloc_ok al used avail" and inv: "vmo_inv (used (wd_alloc w)) v" and "off + snd buf \<le> vmo_size v"
    and "vmo_size v + PAGE_SIZE < USIZE_LIMIT" and buf: "buf_ok (used (wd_alloc w)) v buf"
  obtains r v' w' where "vmo_write_bytes al off buf (v, w) = (r, (v', w'))" "vmo_inv (used (wd_alloc w')) v'"
    "r = Ok () \<or> r = Err ENOMEM \<and> avail (wd_alloc w) < (off + snd buf + (PAGE_SIZE - 1)) div PAGE_SIZE - off div PAGE_SIZE"
    "\<And>a. vmo_byte v' (wd_mem w') a =
       (if r = Ok () \<and> off \<le> a \<and> a < off + snd buf then wd_mem w (fst buf + (a - off)) else vmo_byte v (wd_mem w) a)"
    "\<And>u a. vmo_is_cow v \<Longrightarrow> vmo_inv (used (wd_alloc w)) u \<Longrightarrow> private_apart v u \<Longrightarrow> vmo_byte u (wd_mem w') a = vmo_byte u (wd_mem w) a"
    "\<And>i f. vmo_frame v i = Some f \<Longrightarrow> \<not> vmo_is_cow v \<Longrightarrow> vmo_frame v' i = Some f"
proof -
  obtain r v' w' where run: "vmo_write_bytes al off buf (v, w) = (r, (v', w'))" and
    "r = Ok () \<and> (\<exists>w1 fs. vmo_step used (v, w) (v', w1) \<and> wd_alloc w' = wd_alloc w1 \<and>
       pages_got used True [off div PAGE_SIZE..<(off + snd buf + (PAGE_SIZE - 1)) div PAGE_SIZE] fs (v, w) (v', w1) \<and>
       fv_written fs (off mod PAGE_SIZE) (fst buf) (snd buf) (wd_mem w1) (wd_mem w')) \<or>
     r = Err ENOMEM \<and> vmo_step used (v, w) (v', w') \<and>
       avail (wd_alloc w) < (off + snd buf + (PAGE_SIZE - 1)) div PAGE_SIZE - off div PAGE_SIZE"
    using vmo_write_result [OF assms] by blast
  then consider w1 fs where "r = Ok ()" "vmo_step used (v, w) (v', w1)" "wd_alloc w' = wd_alloc w1"
      "pages_got used True [off div PAGE_SIZE..<(off + snd buf + (PAGE_SIZE - 1)) div PAGE_SIZE] fs (v, w) (v', w1)"
      "fv_written fs (off mod PAGE_SIZE) (fst buf) (snd buf) (wd_mem w1) (wd_mem w')"
    | "r = Err ENOMEM" "vmo_step used (v, w) (v', w')"
      "avail (wd_alloc w) < (off + snd buf + (PAGE_SIZE - 1)) div PAGE_SIZE - off div PAGE_SIZE" by blast
  then show thesis
  proof cases
    case 1
    show thesis
      by (rule that [OF run]) (use 1(1,3) vmo_stepD(3) [OF 1(2)] write_content [OF 1(2) buf 1(4,5)] cow_write_keeps [OF 1(4,2) _ 1(5)]
          step_frame [OF 1(2) inv] in auto)
  next
    case 2
    have "vmo_byte u (wd_mem w') a = vmo_byte u (wd_mem w) a" if "vmo_inv (used (wd_alloc w)) u" for u :: "('a, 'b) vm_world vmo" and a
      by (rule mem_keeps_byte [OF _ vmo_invD(3) [OF that]]) (use vmo_stepD(2) [OF 2(2)] in simp)
    then show thesis
      by (intro that [OF run]) (use 2(1,3) vmo_stepD(3,5) [OF 2(2)] step_frame [OF 2(2) inv] in auto)
  qed
qed

section \<open>Properties\<close>

text \<open>C9: Writing to an object. With enough frames available the write succeeds, the bytes of the range become
  those of the buffer and no other byte of the object changes; the pages that were not there, or were
  inherited by a copy-on-write child, are provided on the way. Without enough frames the write fails with
  \<^verbatim>\<open>ENOMEM\<close> and changes no byte. The invariant holds again in both cases.\<close>

theorem vmo_write_bytes_correct:
  assumes "alloc_ok al used avail" "vmo_inv (used (wd_alloc w)) v" "off + snd buf \<le> vmo_size v"
    and "vmo_size v + PAGE_SIZE < USIZE_LIMIT" "buf_ok (used (wd_alloc w)) v buf"
  shows "\<exists>r v' w'. vmo_write_bytes al off buf (v, w) = (r, (v', w')) \<and> vmo_inv (used (wd_alloc w')) v' \<and>
    (r = Ok () \<or> r = Err ENOMEM \<and> avail (wd_alloc w) < (off + snd buf + (PAGE_SIZE - 1)) div PAGE_SIZE - off div PAGE_SIZE) \<and>
    (\<forall>a. vmo_byte v' (wd_mem w') a =
       (if r = Ok () \<and> off \<le> a \<and> a < off + snd buf then wd_mem w (fst buf + (a - off)) else vmo_byte v (wd_mem w) a))"
  by (rule vmo_write_outcome [OF assms]) blast

text \<open>C20: A copy-on-write child is a snapshot of its parent that the parent is protected from. The child of an
  aligned range starts with the bytes of the parent in that range and zeros behind the parent's end;
  a write to the child then changes exactly the bytes written in the child, and nothing in the parent.\<close>

theorem cow_child_isolated:
  assumes "alloc_ok al used avail" "vmo_inv (used (wd_alloc w)) v" "buf_ok (used (wd_alloc w)) v buf"
    and "a mod PAGE_SIZE = 0" "b mod PAGE_SIZE = 0" "a \<le> b" "a \<le> vmo_size v" "vmo_size v mod PAGE_SIZE = 0"
    and "off + snd buf \<le> b - a" "b + PAGE_SIZE < USIZE_LIMIT"
    and "(min b (vmo_size v) - a) div PAGE_SIZE + ((off + snd buf + (PAGE_SIZE - 1)) div PAGE_SIZE - off div PAGE_SIZE) \<le> avail (wd_alloc w)"
  shows "\<exists>c v' w1 c' w2. alloc_child_vmo al (a, b) fl CowChild (v, w) = (Ok c, (v', w1)) \<and>
    vmo_write_bytes al off buf (c, w1) = (Ok (), (c', w2)) \<and>
    (\<forall>x. vmo_byte c (wd_mem w1) x = (if a + x < min b (vmo_size v) then vmo_byte v (wd_mem w) (a + x) else 0)) \<and>
    (\<forall>x. vmo_byte c' (wd_mem w2) x =
       (if off \<le> x \<and> x < off + snd buf then wd_mem w (fst buf + (x - off)) else vmo_byte c (wd_mem w1) x)) \<and>
    (\<forall>x. vmo_byte v' (wd_mem w2) x = vmo_byte v (wd_mem w) x)"
proof -
  have av: "(min b (vmo_size v) - a) div PAGE_SIZE \<le> avail (wd_alloc w)" using assms(11) by linarith
  obtain c v' w1 fs where ch: "alloc_child_vmo al (a, b) fl CowChild (v, w) = (Ok c, (v', w1))" "vmo_step used (v, w) (v', w1)"
    "c = \<lparr>vmo_flags = fl, vmo_pager = None, vmo_size = b - a, vmo_committed = [], vmo_inherited = Some fs, vmo_is_cow = True\<rparr>"
    "length fs * PAGE_SIZE = min b (vmo_size v) - a"
    "pages_got used False (map (\<lambda>i. i + a div PAGE_SIZE) [0..<length fs]) fs (v, w) (v', w1)"
    "avail (wd_alloc w) \<le> avail (wd_alloc w1) + (min b (vmo_size v) - a) div PAGE_SIZE"
    using alloc_child_result [OF assms(1,2) av assms(4-8)] by blast
  note cc = child_content [OF ch(3,5) assms(4)]
  have U: "used (wd_alloc w) \<subseteq> used (wd_alloc w1)" "mem_keeps (used (wd_alloc w)) (wd_mem w) (wd_mem w1)"
    using vmo_stepD(1,2) [OF ch(2)] by simp_all
  have buf: "buf_ok (used (wd_alloc w1)) c buf" using buf_ok_child [OF assms(3) U(1)] cc(4) by blast
  have fit: "off + snd buf \<le> vmo_size c" "vmo_size c + PAGE_SIZE < USIZE_LIMIT" and cow: "vmo_is_cow c" using assms(9,10) ch(3) by simp_all
  have par: "vmo_inv (used (wd_alloc w1)) v'" "\<And>x. vmo_byte v' (wd_mem w1) x = vmo_byte v (wd_mem w) x"
    using vmo_stepD(3,5) [OF ch(2)] by simp_all
  obtain r c' w2 where run: "vmo_write_bytes al off buf (c, w1) = (r, (c', w2))"
    "r = Ok () \<or> r = Err ENOMEM \<and> avail (wd_alloc w1) < (off + snd buf + (PAGE_SIZE - 1)) div PAGE_SIZE - off div PAGE_SIZE"
    "\<And>x. vmo_byte c' (wd_mem w2) x =
       (if r = Ok () \<and> off \<le> x \<and> x < off + snd buf then wd_mem w1 (fst buf + (x - off)) else vmo_byte c (wd_mem w1) x)"
    "\<And>x. vmo_byte v' (wd_mem w2) x = vmo_byte v' (wd_mem w1) x"
    by (rule vmo_write_outcome [OF assms(1) cc(1) fit buf]) (use cow par(1) cc(2) in blast)
  have r: "r = Ok ()" using run(2) assms(11) ch(6) by linarith
  have kept: "wd_mem w1 (fst buf + (x - off)) = wd_mem w (fst buf + (x - off))" if "off \<le> x" "x < off + snd buf" for x
    using buf_kept [OF assms(3) U(2)] that by simp
  have "vmo_byte c' (wd_mem w2) x =
      (if off \<le> x \<and> x < off + snd buf then wd_mem w (fst buf + (x - off)) else vmo_byte c (wd_mem w1) x)" for x
    using run(3) [of x] kept [of x] r by simp
  moreover have "vmo_byte v' (wd_mem w2) x = vmo_byte v (wd_mem w) x" for x using run(4) par(2) by simp
  moreover have "vmo_byte c (wd_mem w1) x = (if a + x < min b (vmo_size v) then vmo_byte v (wd_mem w) (a + x) else 0)" for x
    unfolding cc(3) ch(4) by auto
  ultimately show ?thesis using ch(1) run(1) r by blast
qed

text \<open>A contiguous object is committed at creation, but under the byte offsets of its pages instead of their
  indices, so that only its first page is found again and the other frames are lost to it.\<close>

lemma enumerate_pages_keys:
  "btm_wf acc \<Longrightarrow> i mod PAGE_SIZE \<noteq> 0 \<Longrightarrow> map_of (enumerate_pages idx fs acc) i = map_of acc i"
proof (induction fs arbitrary: idx acc)
  case (Cons f fs)
  then have "i \<noteq> idx * PAGE_SIZE" by auto
  then show ?case using Cons by (simp add: btm_wf_insert map_of_btm_insert)
qed simp

theorem contiguous_pages_lost:
  assumes "alloc_vmo al dealloc sz VMO_CONTIGUOUS None w = (Ok v, w')" "0 < i" "i < PAGE_SIZE"
  shows "\<not> page_commited v i"
proof -
  obtain z cp where cp: "committed_pages_if_continuous al dealloc VMO_CONTIGUOUS z w = (Ok cp, w')" "vmo_committed v = cp"
    using assms(1) by (auto simp: alloc_vmo_def result_simps)
  obtain q s' where q: "ao_alloc al dealloc ((ao_new (z div PAGE_SIZE))\<lparr>ao_is_contiguous := True\<rparr>) (wd_mem w) (wd_alloc w) = (q, s')"
    by (meson surj_pair)
  obtain fs where "cp = enumerate_pages 0 fs []"
    using cp(1) q by (cases "from_fres q") (auto simp: committed_pages_if_continuous_def)
  then show ?thesis using enumerate_pages_keys [of "[]" i 0 fs] assms(2,3) cp(2) by (simp add: page_commited_def)
qed

text \<open>Restricting a capability to a mask adds the rights of the mask.\<close>

theorem restrict_amplifies: "rights_contain (cap_restrict r q) q"
  by (simp add: rights_contain_def cap_restrict_def bit.conj_disj_distrib2)

section \<open>Examples\<close>

definition bump :: "nat \<Rightarrow> nat \<Rightarrow> nat option \<times> nat" where
  "bump s n = (if s + n \<le> 64 then (Some s, s + n) else (None, s))"

definition demo_world :: "(nat, unit) vm_world" where
  "demo_world = \<lparr>wd_mem = (\<lambda>a. if a < 4 then 7 else 9), wd_alloc = 8, wd_pager = ()\<rparr>"

definition demo_vmo :: "(nat, unit) vm_world vmo" where
  "demo_vmo = \<lparr>vmo_flags = 0, vmo_pager = None, vmo_size = 8192, vmo_committed = [], vmo_inherited = None, vmo_is_cow = False\<rparr>"

lemma demo_vmo_ok:
  "alloc_ok bump lessThan (\<lambda>s. 64 - s)" "vmo_inv (lessThan (wd_alloc demo_world)) demo_vmo"
  "buf_ok (lessThan (wd_alloc demo_world)) demo_vmo (0, 4)" "vmo_byte demo_vmo m a = 0"
  by (auto simp: alloc_ok_def bump_def lessThan_Suc vmo_inv_def demo_vmo_def vmo_frame_def buf_ok_def frame_addrs_def
      paddr_to_vaddr_def PHYS_OFFSET_def vmo_byte_def split: if_splits)

theorem vmo_write_bytes_correct_witness:
  "\<exists>v' w'. vmo_write_bytes bump 4094 (0, 4) (demo_vmo, demo_world) = (Ok (), (v', w')) \<and>
     vmo_byte v' (wd_mem w') 4095 = 7 \<and> vmo_byte v' (wd_mem w') 4098 = 0"
proof -
  obtain r v' w' where "vmo_write_bytes bump 4094 (0, 4) (demo_vmo, demo_world) = (r, (v', w'))"
    "r = Ok () \<or> 64 - wd_alloc demo_world < (4094 + 4 + (PAGE_SIZE - 1)) div PAGE_SIZE - 4094 div PAGE_SIZE"
    "\<forall>a. vmo_byte v' (wd_mem w') a = (if r = Ok () \<and> 4094 \<le> a \<and> a < 4094 + 4
        then wd_mem demo_world (0 + (a - 4094)) else vmo_byte demo_vmo (wd_mem demo_world) a)"
    using vmo_write_bytes_correct [OF demo_vmo_ok(1-2), of 4094 "(0, 4)"] demo_vmo_ok(3) by (auto simp: demo_vmo_def)
  then show ?thesis by (simp add: demo_vmo_ok(4) demo_world_def)
qed

theorem cow_child_isolated_witness:
  "\<exists>c v' w1 c' w2. alloc_child_vmo bump (4096, 12288) 0 CowChild (demo_vmo, demo_world) = (Ok c, (v', w1)) \<and>
    vmo_write_bytes bump 100 (0, 4) (c, w1) = (Ok (), (c', w2)) \<and>
    vmo_byte c' (wd_mem w2) 102 = 7 \<and> vmo_byte v' (wd_mem w2) 4198 = 0"
proof -
  have "\<exists>c v' w1 c' w2. alloc_child_vmo bump (4096, 12288) 0 CowChild (demo_vmo, demo_world) = (Ok c, (v', w1)) \<and>
    vmo_write_bytes bump 100 (0, 4) (c, w1) = (Ok (), (c', w2)) \<and>
    (\<forall>x. vmo_byte c (wd_mem w1) x = (if 4096 + x < min 12288 (vmo_size demo_vmo) then vmo_byte demo_vmo (wd_mem demo_world) (4096 + x) else 0)) \<and>
    (\<forall>x. vmo_byte c' (wd_mem w2) x = (if 100 \<le> x \<and> x < 100 + snd (0::nat, 4::nat)
        then wd_mem demo_world (fst (0::nat, 4::nat) + (x - 100)) else vmo_byte c (wd_mem w1) x)) \<and>
    (\<forall>x. vmo_byte v' (wd_mem w2) x = vmo_byte demo_vmo (wd_mem demo_world) x)"
    by (rule cow_child_isolated [OF demo_vmo_ok(1-3)]) (simp_all add: demo_vmo_def demo_world_def)
  then obtain c v' w1 c' w2 where o: "alloc_child_vmo bump (4096, 12288) 0 CowChild (demo_vmo, demo_world) = (Ok c, (v', w1))"
    "vmo_write_bytes bump 100 (0, 4) (c, w1) = (Ok (), (c', w2))"
    "\<forall>x. vmo_byte c' (wd_mem w2) x = (if 100 \<le> x \<and> x < 100 + snd (0::nat, 4::nat)
        then wd_mem demo_world (fst (0::nat, 4::nat) + (x - 100)) else vmo_byte c (wd_mem w1) x)"
    "\<forall>x. vmo_byte v' (wd_mem w2) x = vmo_byte demo_vmo (wd_mem demo_world) x" by blast
  have "vmo_byte c' (wd_mem w2) 102 = 7" "vmo_byte v' (wd_mem w2) 4198 = 0" using o(3,4) by (simp_all add: demo_vmo_ok(4) demo_world_def)
  then show ?thesis using o(1,2) by blast
qed


end
