(* ===== verification/Vm_Mapping_Correct.thy ===== *)
theory Vm_Mapping_Correct
  imports Vmar_Regions Vmo_Correct
begin

text \<open>
  What unmapping and trimming one mapping do to the page table. \<open>mp_ok\<close> is the well-formedness of a mapping and
  \<open>touched\<close> says that its set of mapped pages has every page of its range that the page table maps. A trim of
  the whole mapping, of its head, or of a hole inside it leaves the pieces of the mapping outside the cut, and
  unmaps exactly the pages in the cut.
\<close>

section \<open>One page\<close>

definition mp_ok :: "vm_mapping \<Rightarrow> bool" where
  "mp_ok mp \<longleftrightarrow> is_page_aligned (mp_map_to_addr mp) \<and> is_page_aligned (mp_vmo_offset mp) \<and>
     is_page_aligned (mp_map_size mp) \<and> 0 < mp_map_size mp \<and> mp_map_to_addr mp + mp_map_size mp \<le> 2 ^ 47 \<and>
     mp_vmo_offset mp + mp_map_size mp + PAGE_SIZE < USIZE_LIMIT \<and> \<not> mp_is_destroyed mp \<and> rights_contain (mp_rights mp) R_DUP"

definition touched :: "vm_mapping \<Rightarrow> memory_set \<Rightarrow> bool" where
  "touched mp sp \<longleftrightarrow> (\<forall>va. in_rng va (mp_range mp) \<longrightarrow> vs_frame sp va \<noteq> None \<longrightarrow>
     map_of (mp_mapped_pages mp) ((va - mp_map_to_addr mp + mp_vmo_offset mp) div PAGE_SIZE) \<noteq> None)"

definition page_va :: "vm_mapping \<Rightarrow> nat \<Rightarrow> nat" where
  "page_va mp i = i * PAGE_SIZE - mp_vmo_offset mp + mp_map_to_addr mp"

lemma is_mapped_iff:
  assumes "space_inv sp" "is_page_aligned va"
  shows "ms_is_mapped sp va \<longleftrightarrow> vs_frame sp va \<noteq> None"
proof -
  have size: "\<And>k a. (k, a) \<in> set (ms_areas sp) \<Longrightarrow> area_size a = PAGE_SIZE \<and> is_page_aligned k"
    using assms(1) by (auto simp: space_inv_def page_area_def btm_mem_iff)
  have "is_mapped_loop xs va \<longleftrightarrow> va \<in> fst ` set xs" if "btm_wf xs" "set xs \<subseteq> set (ms_areas sp)" for xs
    using that
  proof (induction xs)
    case (Cons x xs)
    obtain k a where x: "x = (k, a)" by fastforce
    have k: "area_size a = PAGE_SIZE" "is_page_aligned k" using size Cons.prems(2) by (auto simp: x)
    have "k \<le> va \<and> va < k + PAGE_SIZE \<longleftrightarrow> va = k" using page_of_range [OF k(2), of va] assms(2) by auto
    moreover have "va \<notin> fst ` set xs" if "va < k" using Cons.prems(1) that by (fastforce simp: x btm_wf_Cons)
    ultimately show ?case using Cons k by (auto simp: x btm_wf_Cons)
  qed simp
  then have "ms_is_mapped sp va \<longleftrightarrow> va \<in> fst ` set (ms_areas sp)"
    using assms(1) by (simp add: ms_is_mapped_def space_inv_def)
  then show ?thesis using vs_frame_None_iff [OF assms(1), of va] assms(2) by (simp add: map_of_eq_None_iff)
qed

lemma mp_okD:
  assumes "mp_ok mp"
  obtains t v z where "mp_map_to_addr mp = t * PAGE_SIZE" "mp_vmo_offset mp = v * PAGE_SIZE" "mp_map_size mp = z * PAGE_SIZE"
    "0 < z" "t + z \<le> 2 ^ 35" "(v + z) * PAGE_SIZE + PAGE_SIZE < USIZE_LIMIT"
proof -
  obtain t v z where tvz: "mp_map_to_addr mp = t * PAGE_SIZE" "mp_vmo_offset mp = v * PAGE_SIZE" "mp_map_size mp = z * PAGE_SIZE"
    using assms by (auto simp: mp_ok_def is_page_aligned_def mod_eq_0_iff_dvd dvd_def mult.commute)
  then show thesis using assms that [of t v z] by (simp add: mp_ok_def algebra_simps)
qed

lemma page_va_pages:
  assumes "mp_map_to_addr mp = t * PAGE_SIZE" "mp_vmo_offset mp = v * PAGE_SIZE" "v \<le> i"
  shows "page_va mp i = (i - v + t) * PAGE_SIZE"
  using assms by (simp add: page_va_def algebra_simps diff_mult_distrib)

lemma page_of_pages: "page_of va = i * PAGE_SIZE \<longleftrightarrow> va div PAGE_SIZE = i"
  by (simp add: page_of_def)

lemma page_va_ok:
  assumes ok: "mp_ok mp" and i: "mp_vmo_offset mp \<le> i * PAGE_SIZE" "i * PAGE_SIZE < mp_vmo_offset mp + mp_map_size mp"
  shows "is_page_aligned (page_va mp i)" "page_va mp i + PAGE_SIZE \<le> 2 ^ 47" "page_map_addr mp i = Ok (page_va mp i)"
proof -
  obtain t v z where g: "mp_map_to_addr mp = t * PAGE_SIZE" "mp_vmo_offset mp = v * PAGE_SIZE" "mp_map_size mp = z * PAGE_SIZE"
    "0 < z" "t + z \<le> 2 ^ 35" by (rule mp_okD [OF ok])
  have vi: "v \<le> i" "i < v + z" using i unfolding g(2,3) by linarith+
  have a: "page_va mp i = (i - v + t) * PAGE_SIZE" by (rule page_va_pages [OF g(1,2) vi(1)])
  show al: "is_page_aligned (page_va mp i)" "page_va mp i + PAGE_SIZE \<le> 2 ^ 47" using vi g(5) by (simp_all add: a is_page_aligned_def)
  show "page_map_addr mp i = Ok (page_va mp i)"
    using i al by (simp add: page_map_addr_def usize_sub_def usize_add_def page_va_def)
qed

lemma unmap_one_page_ok:
  assumes ok: "mp_ok mp" and sp: "space_inv (aw_space aw)"
    and i: "mp_vmo_offset mp \<le> i * PAGE_SIZE" "i * PAGE_SIZE < mp_vmo_offset mp + mp_map_size mp"
  shows "\<exists>sp'. unmap_one_page i (mp, aw) =
      (Ok (), (mp\<lparr>mp_mapped_pages := btm_remove i (mp_mapped_pages mp)\<rparr>, aw\<lparr>aw_space := sp'\<rparr>)) \<and> space_inv sp' \<and>
    (\<forall>va. vs_frame sp' va = (if page_of va = page_va mp i then None else vs_frame (aw_space aw) va))"
proof -
  let ?a = "page_va mp i" and ?sp = "aw_space aw"
  have al: "is_page_aligned ?a" "?a + 1 * PAGE_SIZE \<le> 2 ^ 47" and addr: "page_map_addr mp i = Ok ?a"
    using page_va_ok [OF ok i] by simp_all
  show ?thesis
  proof (cases "vs_frame ?sp ?a = None")
    case True
    then have "vs_frame ?sp va = None" if "page_of va = ?a" for va using that al(1) by (simp add: vs_frame_def)
    then show ?thesis using True is_mapped_iff [OF sp al(1)] addr sp
      by (intro exI [of _ ?sp]) (simp add: unmap_one_page_def smod_def)
  next
    case False
    have in1: "in_pages ?a 1 va \<longleftrightarrow> page_of va = ?a" for va using page_of_range [OF al(1)] by (simp add: in_pages_def)
    have "vs_frame ?sp va \<noteq> None" if "in_pages ?a 1 va" for va using that False al(1) in1 by (simp add: vs_frame_def)
    from vs_unmap_loop_correct [OF sp al this, where k = 1] obtain sp' where sp': "vs_unmap_loop ?sp ?a 1 = (Ok (), sp')"
      "space_inv sp'" "\<And>va. vs_frame sp' va = (if page_of va = ?a then None else vs_frame ?sp va)"
      using in1 by auto
    have "is_page_aligned (?a + PAGE_SIZE)" using aligned_add [OF al(1), of 1] by simp
    then have "vs_unmap ?sp (?a, ?a + PAGE_SIZE) = (Ok (), sp')" using al(1) sp'(1) by (simp add: vs_unmap_def)
    then show ?thesis using False is_mapped_iff [OF sp al(1)] addr sp'(2,3)
      by (intro exI [of _ sp'])
        (simp add: unmap_one_page_def sbind_def slift_def smod_def on_world_def on_space_def from_fres_def)
  qed
qed

section \<open>Runs of pages\<close>

text \<open>\<open>gone\<close> is the effect of unmapping the pages with the given indices.\<close>

definition gone :: "vm_mapping \<Rightarrow> nat list \<Rightarrow> memory_set \<Rightarrow> vm_mapping \<Rightarrow> memory_set \<Rightarrow> bool" where
  "gone mp is sp mp' sp' \<longleftrightarrow> (\<exists>mm pp. mp' = mp\<lparr>mp_mapped_pages := mm, mp_page_perms := pp\<rparr> \<and>
     (\<forall>j. map_of mm j = (if j \<in> set is then None else map_of (mp_mapped_pages mp) j))) \<and> space_inv sp' \<and>
     (\<forall>va. vs_frame sp' va = (if \<exists>i \<in> set is. page_of va = page_va mp i then None else vs_frame sp va))"

lemma gone_Nil: "space_inv sp \<Longrightarrow> gone mp [] sp mp sp"
  unfolding gone_def by (intro conjI exI [of _ "mp_mapped_pages mp"] exI [of _ "mp_page_perms mp"]) simp_all

lemma gone_Cons:
  assumes "gone mp [i] sp mp1 sp1" "gone mp1 is sp1 mp' sp'"
  shows "gone mp (i # is) sp mp' sp'"
proof -
  obtain mm pp where 1: "mp1 = mp\<lparr>mp_mapped_pages := mm, mp_page_perms := pp\<rparr>"
    "\<And>j. map_of mm j = (if j = i then None else map_of (mp_mapped_pages mp) j)"
    "\<And>va. vs_frame sp1 va = (if page_of va = page_va mp i then None else vs_frame sp va)"
    using assms(1) unfolding gone_def by auto
  obtain mm' pp' where 2: "mp' = mp1\<lparr>mp_mapped_pages := mm', mp_page_perms := pp'\<rparr>"
    "\<And>j. map_of mm' j = (if j \<in> set is then None else map_of mm j)" "space_inv sp'"
    "\<And>va. vs_frame sp' va = (if \<exists>i \<in> set is. page_of va = page_va mp1 i then None else vs_frame sp1 va)"
    using assms(2) 1(1) unfolding gone_def by auto
  have "page_va mp1 j = page_va mp j" for j by (simp add: 1(1) page_va_def)
  then have "\<forall>va. vs_frame sp' va = (if \<exists>i \<in> set (i # is). page_of va = page_va mp i then None else vs_frame sp va)"
    using 1(3) 2(4) by auto
  moreover have "mp' = mp\<lparr>mp_mapped_pages := mm', mp_page_perms := pp'\<rparr>" by (simp add: 1(1) 2(1))
  moreover have "\<forall>j. map_of mm' j = (if j \<in> set (i # is) then None else map_of (mp_mapped_pages mp) j)" using 1(2) 2(2) by auto
  ultimately show ?thesis using 2(3) unfolding gone_def by blast
qed

lemma gone_ok: "gone mp is sp mp' sp' \<Longrightarrow> mp_ok mp' = mp_ok mp"
  unfolding gone_def mp_ok_def by auto

lemma gone_geom:
  "gone mp is sp mp' sp' \<Longrightarrow> mp_vmo_offset mp' = mp_vmo_offset mp \<and> mp_map_size mp' = mp_map_size mp \<and> mp_map_to_addr mp' = mp_map_to_addr mp"
  unfolding gone_def by auto

definition inside :: "vm_mapping \<Rightarrow> nat list \<Rightarrow> bool" where
  "inside mp is \<longleftrightarrow> (\<forall>i \<in> set is. mp_vmo_offset mp \<le> i * PAGE_SIZE \<and> i * PAGE_SIZE < mp_vmo_offset mp + mp_map_size mp)"

lemma unmap_page_gone:
  assumes "mp_ok mp" "space_inv (aw_space aw)" "inside mp [i]"
  shows "\<exists>mp' sp'. unmap_one_page i (mp, aw) = (Ok (), (mp', aw\<lparr>aw_space := sp'\<rparr>)) \<and> gone mp [i] (aw_space aw) mp' sp'"
proof -
  from unmap_one_page_ok [OF assms(1,2), of i] assms(3) obtain sp' where
    u: "unmap_one_page i (mp, aw) = (Ok (), (mp\<lparr>mp_mapped_pages := btm_remove i (mp_mapped_pages mp)\<rparr>, aw\<lparr>aw_space := sp'\<rparr>))"
    "space_inv sp'" "\<forall>va. vs_frame sp' va = (if page_of va = page_va mp i then None else vs_frame (aw_space aw) va)"
    by (auto simp: inside_def)
  have "gone mp [i] (aw_space aw) (mp\<lparr>mp_mapped_pages := btm_remove i (mp_mapped_pages mp)\<rparr>) sp'"
    unfolding gone_def using u(2,3)
    by (intro conjI exI [of _ "btm_remove i (mp_mapped_pages mp)"] exI [of _ "mp_page_perms mp"]) (simp_all add: map_of_btm_remove)
  then show ?thesis using u(1) by blast
qed

lemma unmap_pages_loop_gone:
  assumes "mp_ok mp" "space_inv (aw_space aw)" "inside mp is"
  shows "\<exists>mp' sp'. unmap_pages_loop is (mp, aw) = (Ok (), (mp', aw\<lparr>aw_space := sp'\<rparr>)) \<and> gone mp is (aw_space aw) mp' sp'"
  using assms
proof (induction "is" arbitrary: mp aw)
  case Nil
  then show ?case using gone_Nil [of "aw_space aw" mp] by (intro exI [of _ mp] exI [of _ "aw_space aw"]) (simp add: sreturn_def)
next
  case (Cons i "is")
  obtain mp1 sp1 where 1: "unmap_one_page i (mp, aw) = (Ok (), (mp1, aw\<lparr>aw_space := sp1\<rparr>))" "gone mp [i] (aw_space aw) mp1 sp1"
    using unmap_page_gone [OF Cons.prems(1,2), of i] Cons.prems(3) by (auto simp: inside_def)
  have "mp_ok mp1" "space_inv sp1" "inside mp1 is"
    using gone_ok [OF 1(2)] gone_geom [OF 1(2)] Cons.prems 1(2) by (auto simp: gone_def inside_def)
  then obtain mp' sp' where "unmap_pages_loop is (mp1, aw\<lparr>aw_space := sp1\<rparr>) = (Ok (), (mp', aw\<lparr>aw_space := sp'\<rparr>))"
    "gone mp1 is sp1 mp' sp'"
    using Cons.IH [of mp1 "aw\<lparr>aw_space := sp1\<rparr>"] by auto
  then show ?case using 1(1) gone_Cons [OF 1(2)] by (auto simp: sbind_def)
qed

lemma trim_right_loop_gone:
  assumes "mp_ok mp" "space_inv (aw_space aw)" "inside mp is"
  shows "\<exists>mp' sp'. trim_right_loop is (mp, aw) = (Ok (), (mp', aw\<lparr>aw_space := sp'\<rparr>)) \<and> gone mp is (aw_space aw) mp' sp'"
  using assms
proof (induction "is" arbitrary: mp aw)
  case Nil
  then show ?case using gone_Nil [of "aw_space aw" mp] by (intro exI [of _ mp] exI [of _ "aw_space aw"]) (simp add: sreturn_def)
next
  case (Cons i "is")
  let ?mp = "mp\<lparr>mp_page_perms := btm_remove i (mp_page_perms mp)\<rparr>"
  have ok: "mp_ok ?mp" "inside ?mp [i]" using Cons.prems by (simp_all add: mp_ok_def inside_def)
  obtain mp1 sp1 where 1: "unmap_one_page i (?mp, aw) = (Ok (), (mp1, aw\<lparr>aw_space := sp1\<rparr>))" "gone ?mp [i] (aw_space aw) mp1 sp1"
    using unmap_page_gone [OF ok(1) Cons.prems(2) ok(2)] by auto
  have "page_va ?mp j = page_va mp j" for j by (simp add: page_va_def)
  then have 2: "gone mp [i] (aw_space aw) mp1 sp1" using 1(2) by (auto simp: gone_def)
  have "mp_ok mp1" "space_inv sp1" "inside mp1 is"
    using gone_ok [OF 2] gone_geom [OF 2] Cons.prems 2 by (auto simp: gone_def inside_def)
  then obtain mp' sp' where "trim_right_loop is (mp1, aw\<lparr>aw_space := sp1\<rparr>) = (Ok (), (mp', aw\<lparr>aw_space := sp'\<rparr>))"
    "gone mp1 is sp1 mp' sp'"
    using Cons.IH [of mp1 "aw\<lparr>aw_space := sp1\<rparr>"] by auto
  then show ?case using 1(1) gone_Cons [OF 2] by (auto simp: sbind_def smod_def ignore_result_def)
qed
lemma page_run:
  assumes "mp_map_to_addr mp = t * PAGE_SIZE" "mp_vmo_offset mp = v * PAGE_SIZE" "v \<le> a" "a \<le> b"
  shows "(\<exists>i \<in> set [a..<b]. page_of va = page_va mp i) \<longleftrightarrow> in_rng va (page_va mp a, page_va mp b)"
proof -
  have va: "page_va mp i = (i - v + t) * PAGE_SIZE" if "a \<le> i" for i
    using page_va_pages [OF assms(1,2)] assms(3) that by simp
  then have pg: "page_of va = page_va mp i \<longleftrightarrow> va div PAGE_SIZE = i - v + t" if "a \<le> i" for i
    using that by (simp only: page_of_pages)
  have sh: "(\<exists>i. a \<le> i \<and> i < b \<and> q = i - v + t) \<longleftrightarrow> a - v + t \<le> q \<and> q < b - v + t" for q
  proof safe
    assume h: "a - v + t \<le> q" "q < b - v + t"
    show "\<exists>i. a \<le> i \<and> i < b \<and> q = i - v + t"
      by (rule exI [of _ "q - t + v"]) (use h assms(3,4) in linarith)
  qed (use assms(3) in linarith)+
  have "(\<exists>i \<in> set [a..<b]. page_of va = page_va mp i) \<longleftrightarrow> (\<exists>i. a \<le> i \<and> i < b \<and> va div PAGE_SIZE = i - v + t)"
    using pg by auto
  also have "\<dots> \<longleftrightarrow> a - v + t \<le> va div PAGE_SIZE \<and> va div PAGE_SIZE < b - v + t" by (rule sh)
  also have "\<dots> \<longleftrightarrow> in_rng va (page_va mp a, page_va mp b)"
    using assms(4) by (simp add: in_rng_def va less_eq_div_iff_mult_less_eq div_less_iff_less_mult)
  finally show ?thesis .
qed

section \<open>Trimming\<close>

lemma trim_left_loop_untouched:
  assumes "\<And>i. i \<in> set is \<Longrightarrow> map_of (mp_mapped_pages mp) i = None"
  shows "\<exists>pp. trim_left_loop is (mp, aw) = (Ok (), (mp\<lparr>mp_page_perms := pp\<rparr>, aw))"
  using assms
proof (induction "is" arbitrary: mp)
  case Nil
  then show ?case by (intro exI [of _ "mp_page_perms mp"]) (simp add: sreturn_def)
next
  case (Cons i "is")
  then show ?case using Cons.IH [of "mp\<lparr>mp_page_perms := btm_remove i (mp_page_perms mp)\<rparr>"] by (simp add: sbind_def smod_def)
qed

text \<open>No page of the mapping before the address has been mapped.\<close>

definition untouched_before :: "nat \<Rightarrow> vm_mapping \<Rightarrow> bool" where
  "untouched_before e mp \<longleftrightarrow> (\<forall>(j, _) \<in> set (mp_mapped_pages mp).
     mp_vmo_offset mp + (e - mp_map_to_addr mp) \<le> j * PAGE_SIZE \<or> j * PAGE_SIZE < mp_vmo_offset mp)"

lemma untouched_beforeD:
  assumes "untouched_before e mp" "map_of (mp_mapped_pages mp) j \<noteq> None" "mp_vmo_offset mp \<le> j * PAGE_SIZE"
  shows "mp_vmo_offset mp + (e - mp_map_to_addr mp) \<le> j * PAGE_SIZE"
proof -
  obtain u where "(j, u) \<in> set (mp_mapped_pages mp)" using assms(2) by (auto dest: map_of_SomeD)
  then show ?thesis using assms(1,3) by (fastforce simp: untouched_before_def)
qed

lemma trim_left_ok:
  assumes ok: "mp_ok mp" and e: "is_page_aligned e" "mp_map_to_addr mp \<le> e" "e \<le> mp_map_to_addr mp + mp_map_size mp"
    and un: "untouched_before e mp"
  shows "\<exists>pp. trim_left e (mp, aw) = (Ok e, (mp\<lparr>mp_map_to_addr := e, mp_vmo_offset := mp_vmo_offset mp + (e - mp_map_to_addr mp),
    mp_map_size := mp_map_size mp - (e - mp_map_to_addr mp), mp_page_perms := pp\<rparr>, aw))"
proof -
  let ?d = "e - mp_map_to_addr mp"
  let ?mp = "mp\<lparr>mp_map_to_addr := e, mp_vmo_offset := mp_vmo_offset mp + ?d, mp_map_size := mp_map_size mp - ?d\<rparr>"
  let ?is = "[mp_vmo_offset mp div PAGE_SIZE ..< (mp_vmo_offset mp + ?d) div PAGE_SIZE]"
  have "map_of (mp_mapped_pages ?mp) i = None" if "i \<in> set ?is" for i
  proof (rule ccontr)
    assume m: "map_of (mp_mapped_pages ?mp) i \<noteq> None"
    have v: "mp_vmo_offset mp div PAGE_SIZE * PAGE_SIZE = mp_vmo_offset mp" using ok by (auto simp: mp_ok_def is_page_aligned_def)
    have "mp_vmo_offset mp div PAGE_SIZE \<le> i" "i < (mp_vmo_offset mp + ?d) div PAGE_SIZE" using that by auto
    then have "mp_vmo_offset mp div PAGE_SIZE * PAGE_SIZE \<le> i * PAGE_SIZE" "Suc i * PAGE_SIZE \<le> mp_vmo_offset mp + ?d"
      by (simp, metis Suc_leI less_eq_div_iff_mult_less_eq zero_less_numeral)
    then have "mp_vmo_offset mp \<le> i * PAGE_SIZE" "i * PAGE_SIZE < mp_vmo_offset mp + ?d" unfolding v by simp_all
    then show False using untouched_beforeD [OF un, of i] m by simp
  qed
  from trim_left_loop_untouched [OF this, of ?is aw] obtain pp where
    "trim_left_loop ?is (?mp, aw) = (Ok (), (?mp\<lparr>mp_page_perms := pp\<rparr>, aw))" by auto
  then show ?thesis using e
    by (intro exI [of _ pp]) (simp add: trim_left_def Let_def sbind_def smod_def slift_def sreturn_def is_page_aligned_def)
qed

lemma trim_right_ok:
  assumes ok: "mp_ok mp" and sp: "space_inv (aw_space aw)"
    and s: "is_page_aligned s" "mp_map_to_addr mp \<le> s" "s \<le> mp_map_to_addr mp + mp_map_size mp"
  shows "\<exists>mm pp sp'. trim_right s (mp, aw) = (Ok (mp_map_to_addr mp),
      (mp\<lparr>mp_map_size := s - mp_map_to_addr mp, mp_mapped_pages := mm, mp_page_perms := pp\<rparr>, aw\<lparr>aw_space := sp'\<rparr>)) \<and>
    (\<forall>j. j * PAGE_SIZE < mp_vmo_offset mp + (s - mp_map_to_addr mp) \<longrightarrow> map_of mm j = map_of (mp_mapped_pages mp) j) \<and>
    space_inv sp' \<and> (\<forall>va. vs_frame sp' va = (if in_rng va (s, snd (mp_range mp)) then None else vs_frame (aw_space aw) va))"
proof -
  obtain t v z where g: "mp_map_to_addr mp = t * PAGE_SIZE" "mp_vmo_offset mp = v * PAGE_SIZE" "mp_map_size mp = z * PAGE_SIZE"
    by (rule mp_okD [OF ok])
  obtain n where n: "s = (t + n) * PAGE_SIZE" "n \<le> z"
  proof -
    obtain k where k: "s = k * PAGE_SIZE" using s(1) by (auto simp: is_page_aligned_def mod_eq_0_iff_dvd dvd_def mult.commute)
    then have "t \<le> k" "k - t \<le> z" using s(2,3) unfolding g k by linarith+
    then show thesis using that [of "k - t"] k by simp
  qed
  let ?is = "[v + n ..< v + z]"
  have "is": "(s - mp_map_to_addr mp + mp_vmo_offset mp) div PAGE_SIZE = v + n" "(mp_map_size mp + mp_vmo_offset mp) div PAGE_SIZE = v + z"
  proof -
    have "s - mp_map_to_addr mp + mp_vmo_offset mp = (v + n) * PAGE_SIZE" "mp_map_size mp + mp_vmo_offset mp = (v + z) * PAGE_SIZE"
      by (simp_all add: g n add_mult_distrib)
    then show "(s - mp_map_to_addr mp + mp_vmo_offset mp) div PAGE_SIZE = v + n" "(mp_map_size mp + mp_vmo_offset mp) div PAGE_SIZE = v + z"
      by simp_all
  qed
  have "inside mp ?is" by (auto simp: inside_def g)
  from trim_right_loop_gone [OF ok sp this] obtain mp' sp' where
    tr: "trim_right_loop ?is (mp, aw) = (Ok (), (mp', aw\<lparr>aw_space := sp'\<rparr>))" "gone mp ?is (aw_space aw) mp' sp'" by blast
  obtain mm pp where mp': "mp' = mp\<lparr>mp_mapped_pages := mm, mp_page_perms := pp\<rparr>"
    "\<And>j. map_of mm j = (if j \<in> set ?is then None else map_of (mp_mapped_pages mp) j)" "space_inv sp'"
    "\<And>va. vs_frame sp' va = (if \<exists>i \<in> set ?is. page_of va = page_va mp i then None else vs_frame (aw_space aw) va)"
    using tr(2) unfolding gone_def by auto
  have "trim_right s (mp, aw) = (Ok (mp_map_to_addr mp),
      (mp\<lparr>mp_map_size := s - mp_map_to_addr mp, mp_mapped_pages := mm, mp_page_perms := pp\<rparr>, aw\<lparr>aw_space := sp'\<rparr>))"
    using s tr(1) by (simp add: trim_right_def "is" mp'(1) sbind_def slift_def smod_def sreturn_def is_page_aligned_def
      del: Nat.add_diff_assoc2)
  moreover have "map_of mm j = map_of (mp_mapped_pages mp) j" if "j * PAGE_SIZE < mp_vmo_offset mp + (s - mp_map_to_addr mp)" for j
  proof -
    have "j * PAGE_SIZE < (v + n) * PAGE_SIZE" using that by (simp add: g n add_mult_distrib)
    then have "j < v + n" by simp
    then show ?thesis using mp'(2) by simp
  qed
  moreover have "page_va mp (v + n) = s" "page_va mp (v + z) = snd (mp_range mp)"
    by (simp_all add: page_va_pages [OF g(1,2)] n mp_range_def g algebra_simps)
  ultimately show ?thesis using mp'(3,4) page_run [OF g(1,2), of "v + n" "v + z"] n(2)
    by (intro exI [of _ mm] exI [of _ pp] exI [of _ sp']) simp
qed
text \<open>The mappings that a trim leaves: the mapping itself unless its address is to be removed, and the appended ones.\<close>

definition pieces :: "nat \<Rightarrow> vm_mapping \<Rightarrow> bool \<times> (nat \<times> vm_mapping) list \<Rightarrow> (nat \<times> vm_mapping) list" where
  "pieces k mp' out = (if fst out then [] else [(k, mp')]) @ snd out"

definition frames_only_lost :: "range \<Rightarrow> range \<Rightarrow> memory_set \<Rightarrow> memory_set \<Rightarrow> bool" where
  "frames_only_lost within hole sp sp' \<longleftrightarrow> (\<forall>va. (in_rng va hole \<longrightarrow> vs_frame sp' va = None) \<and>
     (vs_frame sp' va = vs_frame sp va \<or> vs_frame sp' va = None \<and> in_rng va within))"

lemma touched_subpiece:
  assumes "touched mp sp" "\<And>va. in_rng va (mp_range q) \<Longrightarrow> in_rng va (mp_range mp)"
    "\<And>va. in_rng va (mp_range q) \<Longrightarrow> vs_frame sp' va \<noteq> None \<Longrightarrow> vs_frame sp va \<noteq> None"
    "\<And>va. in_rng va (mp_range q) \<Longrightarrow> va - mp_map_to_addr q + mp_vmo_offset q = va - mp_map_to_addr mp + mp_vmo_offset mp"
    "\<And>j. mp_vmo_offset q \<le> j * PAGE_SIZE + (PAGE_SIZE - 1) \<Longrightarrow> j * PAGE_SIZE < mp_vmo_offset q + mp_map_size q \<Longrightarrow>
       map_of (mp_mapped_pages q) j = map_of (mp_mapped_pages mp) j"
  shows "touched q sp'"
  unfolding touched_def
proof (intro allI impI)
  fix va assume va: "in_rng va (mp_range q)" "vs_frame sp' va \<noteq> None"
  let ?x = "va - mp_map_to_addr q + mp_vmo_offset q"
  have "mp_vmo_offset q \<le> ?x" "?x < mp_vmo_offset q + mp_map_size q" using va(1) by (auto simp: in_rng_def mp_range_def)
  moreover have "?x div PAGE_SIZE * PAGE_SIZE \<le> ?x" "?x \<le> ?x div PAGE_SIZE * PAGE_SIZE + (PAGE_SIZE - 1)"
    using div_mod_decomp [of ?x PAGE_SIZE] mod_less_divisor [of PAGE_SIZE ?x] by linarith+
  ultimately have "map_of (mp_mapped_pages q) (?x div PAGE_SIZE) = map_of (mp_mapped_pages mp) (?x div PAGE_SIZE)"
    by (intro assms(5)) linarith+
  then show "map_of (mp_mapped_pages q) (?x div PAGE_SIZE) \<noteq> None"
    using assms(1) assms(2,3) [OF va(1)] va(2) assms(4) [OF va(1)] by (simp add: touched_def)
qed

lemma untouched_unmapped:
  assumes "mp_ok mp" "touched mp sp" "untouched_before e mp" "in_rng va (mp_map_to_addr mp, e)" "e \<le> snd (mp_range mp)" "is_page_aligned e"
  shows "vs_frame sp va = None"
proof (rule ccontr)
  assume f: "vs_frame sp va \<noteq> None"
  obtain t v z where g: "mp_map_to_addr mp = t * PAGE_SIZE" "mp_vmo_offset mp = v * PAGE_SIZE" by (rule mp_okD [OF assms(1)])
  obtain k where k: "e = k * PAGE_SIZE" using assms(6) by (auto simp: is_page_aligned_def mod_eq_0_iff_dvd dvd_def mult.commute)
  let ?x = "va - mp_map_to_addr mp + mp_vmo_offset mp"
  have "in_rng va (mp_range mp)" using assms(4,5) by (simp add: in_rng_def mp_range_def)
  then have m: "map_of (mp_mapped_pages mp) (?x div PAGE_SIZE) \<noteq> None" using assms(2) f by (simp add: touched_def)
  have "v \<le> ?x div PAGE_SIZE" using div_le_mono [of "v * PAGE_SIZE" ?x PAGE_SIZE] by (simp add: g)
  then have "mp_vmo_offset mp \<le> ?x div PAGE_SIZE * PAGE_SIZE" unfolding g(2) by simp
  from untouched_beforeD [OF assms(3) m this] have "mp_vmo_offset mp + (e - mp_map_to_addr mp) \<le> ?x div PAGE_SIZE * PAGE_SIZE" .
  also have "\<dots> \<le> ?x" by simp
  finally show False using assms(4) unfolding in_rng_def fst_conv snd_conv by linarith
qed
text \<open>A good cut of a mapping is page aligned and inside it; when it does not cover the end of the mapping, no
  page before its end has been mapped, and when it does, it covers the start too.\<close>

definition good_cut :: "range \<Rightarrow> vm_mapping \<Rightarrow> bool" where
  "good_cut r mp \<longleftrightarrow> is_page_aligned (fst r) \<and> is_page_aligned (snd r) \<and> mp_map_to_addr mp \<le> fst r \<and> fst r < snd r \<and>
     (if snd r = snd (mp_range mp) then fst r = mp_map_to_addr mp else snd r < snd (mp_range mp) \<and> untouched_before (snd r) mp)"

definition cut_result ::
    "range \<Rightarrow> vm_mapping \<Rightarrow> memory_set \<Rightarrow> (nat \<times> vm_mapping) list \<Rightarrow> memory_set \<Rightarrow> bool" where
  "cut_result r mp sp ps sp' \<longleftrightarrow> space_inv sp' \<and> frames_only_lost (mp_range mp) r sp sp' \<and> btm_wf ps \<and>
     (\<forall>(k, q) \<in> set ps. k = mp_map_to_addr q \<and> mp_ok q \<and> touched q sp' \<and> mp_map_to_addr mp \<le> k \<and> snd (mp_range q) \<le> snd (mp_range mp)) \<and>
     (\<forall>a. cover (map (\<lambda>x. mp_range (snd x)) ps) a + cover [r] a = cover [mp_range mp] a)"

lemma page_range_pages:
  assumes "a \<le> b" "b * PAGE_SIZE + PAGE_SIZE < USIZE_LIMIT"
  shows "get_page_idx_range (a * PAGE_SIZE, b * PAGE_SIZE) = Ok (a, b)"
proof -
  have "(b * PAGE_SIZE + (PAGE_SIZE - 1)) div PAGE_SIZE = b" by simp
  then show ?thesis using page_range [of "a * PAGE_SIZE" "b * PAGE_SIZE"] assms by simp
qed

lemma trim_whole:
  assumes "mp_ok mp" "space_inv (aw_space aw)"
  shows "\<exists>mp' sp'. trim_mapping (mp_range mp) (mp, aw) = (Ok (True, []), (mp', aw\<lparr>aw_space := sp'\<rparr>)) \<and>
    cut_result (mp_range mp) mp (aw_space aw) (pieces k mp' (True, [])) sp'"
proof -
  obtain t v z where g: "mp_map_to_addr mp = t * PAGE_SIZE" "mp_vmo_offset mp = v * PAGE_SIZE" "mp_map_size mp = z * PAGE_SIZE"
    "0 < z" "t + z \<le> 2 ^ 35" "(v + z) * PAGE_SIZE + PAGE_SIZE < USIZE_LIMIT" by (rule mp_okD [OF assms(1)])
  let ?is = "[v ..< v + z]"
  have "inside mp ?is" by (auto simp: inside_def g)
  from unmap_pages_loop_gone [OF assms this] obtain mp' sp' where
    u: "unmap_pages_loop ?is (mp, aw) = (Ok (), (mp', aw\<lparr>aw_space := sp'\<rparr>))" "gone mp ?is (aw_space aw) mp' sp'" by blast
  have idx: "get_page_idx_range (mp_vmo_offset mp, mp_map_size mp + mp_vmo_offset mp) = Ok (v, v + z)"
    using page_range_pages [of v "v + z"] g(6) by (simp add: g add_mult_distrib add.commute)
  have pv: "page_va mp v = mp_map_to_addr mp" "page_va mp (v + z) = snd (mp_range mp)"
    by (simp_all add: page_va_pages [OF g(1,2)] mp_range_def g algebra_simps)
  have "trim_mapping (mp_range mp) (mp, aw) = (Ok (True, []), (mp'\<lparr>mp_is_destroyed := False\<rparr>, aw\<lparr>aw_space := sp'\<rparr>))"
    using g(4) u(1) idx gone_geom [OF u(2)] by (simp add: trim_mapping_def is_intersected_def mp_range_def mp_unmap_def usize_sub_def sbind_def slift_def smod_def sreturn_def g(3))
  moreover have "cut_result (mp_range mp) mp (aw_space aw) (pieces k (mp'\<lparr>mp_is_destroyed := False\<rparr>) (True, [])) sp'"
    using u(2) page_run [OF g(1,2), of v "v + z"] pv
    by (auto simp: cut_result_def pieces_def gone_def frames_only_lost_def mp_range_def)
  ultimately show ?thesis by blast
qed

lemma aligned_arith: "is_page_aligned a \<Longrightarrow> is_page_aligned b \<Longrightarrow> is_page_aligned (a - b) \<and> is_page_aligned (a + b)"
  by (simp add: is_page_aligned_def mod_eq_0_iff_dvd)

lemma mp_ok_head:
  assumes ok: "mp_ok mp" and e: "is_page_aligned e" "mp_map_to_addr mp \<le> e" "e < snd (mp_range mp)"
  shows "mp_ok (mp\<lparr>mp_map_to_addr := e, mp_vmo_offset := mp_vmo_offset mp + (e - mp_map_to_addr mp),
    mp_map_size := mp_map_size mp - (e - mp_map_to_addr mp), mp_page_perms := pp\<rparr>)"
proof -
  let ?d = "e - mp_map_to_addr mp"
  have "is_page_aligned ?d" using aligned_arith [OF e(1)] ok by (simp add: mp_ok_def)
  then have "is_page_aligned (mp_vmo_offset mp + ?d)" "is_page_aligned (mp_map_size mp - ?d)"
    using aligned_arith ok unfolding mp_ok_def by blast+
  moreover have "0 < mp_map_size mp - ?d" "e + (mp_map_size mp - ?d) \<le> 2 ^ 47"
    "mp_vmo_offset mp + ?d + (mp_map_size mp - ?d) + PAGE_SIZE < USIZE_LIMIT"
    using ok e unfolding mp_ok_def mp_range_def snd_conv by linarith+
  ultimately show ?thesis using ok e(1) unfolding mp_ok_def by simp
qed

lemma mp_ok_tail:
  assumes ok: "mp_ok mp" and s: "is_page_aligned s" "mp_map_to_addr mp < s" "s \<le> snd (mp_range mp)"
  shows "mp_ok (mp\<lparr>mp_map_size := s - mp_map_to_addr mp, mp_mapped_pages := mm, mp_page_perms := pp\<rparr>)"
proof -
  have "is_page_aligned (s - mp_map_to_addr mp)" using aligned_arith [OF s(1)] ok by (simp add: mp_ok_def)
  moreover have "mp_vmo_offset mp + (s - mp_map_to_addr mp) + PAGE_SIZE < USIZE_LIMIT" "mp_map_to_addr mp + (s - mp_map_to_addr mp) \<le> 2 ^ 47"
    using ok s unfolding mp_ok_def mp_range_def snd_conv by linarith+
  ultimately show ?thesis using ok s(2) unfolding mp_ok_def by simp
qed

lemma cut_result_head:
  assumes ok: "mp_ok mp" and sp: "space_inv sp" "touched mp sp"
    and e: "is_page_aligned e" "mp_map_to_addr mp < e" "untouched_before e mp" "e < snd (mp_range mp)"
    and q: "q = mp\<lparr>mp_map_to_addr := e, mp_vmo_offset := mp_vmo_offset mp + (e - mp_map_to_addr mp),
      mp_map_size := mp_map_size mp - (e - mp_map_to_addr mp), mp_page_perms := pp\<rparr>"
  shows "cut_result (mp_map_to_addr mp, e) mp sp [(e, q)] sp"
proof -
  have rq: "mp_range q = (e, snd (mp_range mp))" using e by (simp add: q mp_range_def)
  have "mp_ok q" using mp_ok_head [OF ok e(1) _ e(4)] e(2) by (simp add: q)
  moreover have "touched q sp"
    by (rule touched_subpiece [OF sp(2)]) (use e in \<open>auto simp: rq in_rng_def q mp_range_def\<close>)
  moreover have "frames_only_lost (mp_range mp) (mp_map_to_addr mp, e) sp sp"
    using untouched_unmapped [OF ok sp(2) e(3) _ _ e(1)] e(4) by (auto simp: frames_only_lost_def)
  moreover have "cover [mp_range q] a + cover [(mp_map_to_addr mp, e)] a = cover [mp_range mp] a" for a
    unfolding rq using e(2,4) by (auto simp: in_rng_def mp_range_def)
  ultimately show ?thesis using sp(1) e rq by (simp add: cut_result_def btm_wf_Cons) (simp add: q)
qed

lemma trim_head:
  assumes "mp_ok mp" "space_inv (aw_space aw)" "touched mp (aw_space aw)"
    and "good_cut (mp_map_to_addr mp, e) mp" "e < snd (mp_range mp)"
  shows "\<exists>mp'. trim_mapping (mp_map_to_addr mp, e) (mp, aw) = (Ok (True, [(e, mp')]), (mp', aw)) \<and>
    cut_result (mp_map_to_addr mp, e) mp (aw_space aw) (pieces k mp' (True, [(e, mp')])) (aw_space aw)"
proof -
  have e: "is_page_aligned e" "mp_map_to_addr mp < e" "untouched_before e mp" using assms(4,5) by (auto simp: good_cut_def)
  have e': "e \<le> mp_map_to_addr mp + mp_map_size mp" using assms(5) by (simp add: mp_range_def)
  let ?d = "e - mp_map_to_addr mp"
  obtain pp where tl: "trim_left e (mp, aw) = (Ok e, (mp\<lparr>mp_map_to_addr := e, mp_vmo_offset := mp_vmo_offset mp + ?d,
    mp_map_size := mp_map_size mp - ?d, mp_page_perms := pp\<rparr>, aw))" (is "_ = (_, (?q, _))")
    using trim_left_ok [OF assms(1) e(1) _ e' e(3)] e(2) by auto
  have "trim_mapping (mp_map_to_addr mp, e) (mp, aw) = (Ok (True, [(e, ?q)]), (?q, aw))"
    using e assms(5) tl by (simp add: trim_mapping_def is_intersected_def mp_range_def sbind_def)
  moreover have "cut_result (mp_map_to_addr mp, e) mp (aw_space aw) (pieces k ?q (True, [(e, ?q)])) (aw_space aw)"
    using cut_result_head [OF assms(1-3) e assms(5) refl] by (simp add: pieces_def)
  ultimately show ?thesis by blast
qed
lemma trim_hole:
  assumes ok: "mp_ok mp" and sp: "space_inv (aw_space aw)" "touched mp (aw_space aw)"
    and s: "is_page_aligned s" "mp_map_to_addr mp < s" "s < e"
    and e: "is_page_aligned e" "untouched_before e mp" "e < snd (mp_range mp)"
  shows "\<exists>out mp' sp'. trim_mapping (s, e) (mp, aw) = (Ok out, (mp', aw\<lparr>aw_space := sp'\<rparr>)) \<and>
    (\<exists>q. out = (False, [(e, q)])) \<and> cut_result (s, e) mp (aw_space aw) (pieces (mp_map_to_addr mp) mp' out) sp'"
proof -
  let ?d = "e - mp_map_to_addr mp"
  have ends: "e \<le> mp_map_to_addr mp + mp_map_size mp" "s \<le> mp_map_to_addr mp + mp_map_size mp" "mp_map_to_addr mp \<le> e" "mp_map_to_addr mp \<le> s"
    using s e(3) by (simp_all add: mp_range_def)
  obtain pp where tl: "trim_left e (mp, aw) = (Ok e, (mp\<lparr>mp_map_to_addr := e, mp_vmo_offset := mp_vmo_offset mp + ?d,
    mp_map_size := mp_map_size mp - ?d, mp_page_perms := pp\<rparr>, aw))" (is "_ = (_, (?q, _))")
    using trim_left_ok [OF ok e(1) ends(3,1) e(2), of aw] by auto
  obtain mm pp' sp' where tr: "trim_right s (mp, aw) = (Ok (mp_map_to_addr mp),
      (mp\<lparr>mp_map_size := s - mp_map_to_addr mp, mp_mapped_pages := mm, mp_page_perms := pp'\<rparr>, aw\<lparr>aw_space := sp'\<rparr>))" (is "_ = (_, (?p, _))")
    and mm: "\<And>j. j * PAGE_SIZE < mp_vmo_offset mp + (s - mp_map_to_addr mp) \<Longrightarrow> map_of mm j = map_of (mp_mapped_pages mp) j"
    and sp': "space_inv sp'" "\<And>va. vs_frame sp' va = (if in_rng va (s, snd (mp_range mp)) then None else vs_frame (aw_space aw) va)"
    using trim_right_ok [OF ok sp(1) s(1) ends(4,2)] by blast
  have rq: "mp_range ?q = (e, snd (mp_range mp))" and rp: "mp_range ?p = (mp_map_to_addr mp, s)"
    using ends by (simp_all add: mp_range_def)
  have "mp_try_clone mp = Ok mp" using ok by (simp add: mp_try_clone_def cap_dup_def check_rights_def mp_ok_def)
  then have run: "trim_mapping (s, e) (mp, aw) = (Ok (False, [(e, ?q)]), (?p, aw\<lparr>aw_space := sp'\<rparr>))"
    using s e ends tl tr by (simp add: trim_mapping_def is_intersected_def mp_range_def sbind_def slift_def sreturn_def)
  have "mp_ok ?q" by (rule mp_ok_head [OF ok e(1) ends(3) e(3)])
  moreover have "mp_ok ?p" by (rule mp_ok_tail [OF ok s(1,2)]) (use ends in \<open>simp add: mp_range_def\<close>)
  moreover have "touched ?q sp'" using sp'(2) rq s(3) by (auto simp: touched_def in_rng_def)
  moreover have "touched ?p sp'"
    by (rule touched_subpiece [OF sp(2)]) (use sp'(2) rp ends mm in \<open>auto simp: in_rng_def mp_range_def split: if_splits\<close>)
  moreover have "frames_only_lost (mp_range mp) (s, e) (aw_space aw) sp'"
    using sp'(2) s e(3) by (auto simp: frames_only_lost_def in_rng_def mp_range_def)
  moreover have "cover [mp_range ?p, mp_range ?q] a + cover [(s, e)] a = cover [mp_range mp] a" for a
    unfolding rp rq using s e(3) by (auto simp: in_rng_def mp_range_def)
  ultimately have "cut_result (s, e) mp (aw_space aw) [(mp_map_to_addr mp, ?p), (e, ?q)] sp'"
    using sp'(1) s(2,3) e(3) rp rq by (simp add: cut_result_def btm_wf_Cons)
  then show ?thesis using run by (intro exI [of _ "(False, [(e, ?q)])"] exI [of _ ?p] exI [of _ sp']) (simp add: pieces_def)
qed

text \<open>A good cut leaves the mapping outside the cut, and unmaps what is in it.\<close>

lemma trim_mapping_correct:
  assumes "mp_ok mp" "space_inv (aw_space aw)" "touched mp (aw_space aw)" "good_cut r mp"
  shows "\<exists>out mp' sp'. trim_mapping r (mp, aw) = (Ok out, (mp', aw\<lparr>aw_space := sp'\<rparr>)) \<and>
    cut_result r mp (aw_space aw) (pieces (mp_map_to_addr mp) mp' out) sp' \<and>
    (\<forall>(k, q) \<in> set (snd out). mp_map_to_addr mp < k)"
proof -
  obtain s e where r: "r = (s, e)" by fastforce
  have c: "is_page_aligned s" "is_page_aligned e" "mp_map_to_addr mp \<le> s" "s < e" using assms(4) by (simp_all add: good_cut_def r)
  consider (whole) "r = mp_range mp" | (head) "s = mp_map_to_addr mp" "e < snd (mp_range mp)"
    | (hole) "mp_map_to_addr mp < s" "e < snd (mp_range mp)" "untouched_before e mp"
  proof (cases "e = snd (mp_range mp)")
    case True
    then show ?thesis using assms(4) that(1) by (simp add: good_cut_def r mp_range_def)
  next
    case False
    then have "e < snd (mp_range mp)" "untouched_before e mp" using assms(4) by (simp_all add: good_cut_def r)
    then show ?thesis using c(3) that(2,3) by (cases "s = mp_map_to_addr mp") simp_all
  qed
  then show ?thesis
  proof cases
    case whole
    from trim_whole [OF assms(1,2)] obtain mp' sp' where
      "trim_mapping (mp_range mp) (mp, aw) = (Ok (True, []), (mp', aw\<lparr>aw_space := sp'\<rparr>))"
      "cut_result (mp_range mp) mp (aw_space aw) (pieces (mp_map_to_addr mp) mp' (True, [])) sp'" by blast
    then show ?thesis unfolding whole by (intro exI [of _ "(True, [])"] exI [of _ mp'] exI [of _ sp']) simp
  next
    case head
    have "good_cut (mp_map_to_addr mp, e) mp" using assms(4) r head by simp
    from trim_head [OF assms(1-3) this head(2)] obtain mp' where
      "trim_mapping (mp_map_to_addr mp, e) (mp, aw) = (Ok (True, [(e, mp')]), (mp', aw))"
      "cut_result (mp_map_to_addr mp, e) mp (aw_space aw) (pieces (mp_map_to_addr mp) mp' (True, [(e, mp')])) (aw_space aw)" by blast
    then show ?thesis using c(4) unfolding r head(1)
      by (intro exI [of _ "(True, [(e, mp')])"] exI [of _ mp'] exI [of _ "aw_space aw"]) simp
  next
    case hole
    from trim_hole [OF assms(1-3) c(1) hole(1) c(4,2) hole(3,2)] obtain q mp' sp' where
      "trim_mapping (s, e) (mp, aw) = (Ok (False, [(e, q)]), (mp', aw\<lparr>aw_space := sp'\<rparr>))"
      "cut_result (s, e) mp (aw_space aw) (pieces (mp_map_to_addr mp) mp' (False, [(e, q)])) sp'" by blast
    then show ?thesis using c(4) hole(1) unfolding r
      by (intro exI [of _ "(False, [(e, q)])"] exI [of _ mp'] exI [of _ sp']) simp
  qed
qed

end
