(* ===== verification/Vmar_Correct.thy ===== *)
theory Vmar_Correct
  imports Vm_Mapping_Correct
begin

text \<open>
  Correctness of the address regions. The invariant says that the free regions, the mappings and the children
  of a region are well formed and cover every address of it at most once. Mapping an object takes its range
  from the free regions, \<^verbatim>\<open>munmap\<close> gives the range back and leaves nothing of it in the page table, and the merging
  of free regions ends, keeps the free addresses and leaves no two adjacent regions.
\<close>

section \<open>Merging\<close>

lemma merge_regions_ok:
  assumes "free_wf m" "\<And>a. fcover m a \<le> 1"
  shows "\<exists>m'. merge_continuous_regions m = Ok m' \<and> free_wf m' \<and> (\<forall>a. fcover m' a = fcover m a) \<and>
    (\<forall>k q. map_of m' k = Some q \<longrightarrow> map_of m' (snd q) = None)"
proof -
  have "sorted_wrt (<) (btm_keys m)" "fst ` set m \<subseteq> set (btm_keys m)"
    using free_wf_btm [OF assms(1)] by (simp_all add: btm_wf_def btm_keys_def)
  then show ?thesis using merge_keys_correct [OF assms(1) free_wf_Nil, of "btm_keys m"] assms(2)
    by (simp add: merge_continuous_regions_def)
qed

lemma insert_regions_ok:
  assumes "free_wf m" "\<And>r. r \<in> set rs \<Longrightarrow> fst r < snd r" "\<And>a. cover rs a + fcover m a \<le> 1"
  shows "free_wf (insert_regions rs m) \<and> (\<forall>a. fcover (insert_regions rs m) a = cover rs a + fcover m a)"
  using assms
proof (induction rs arbitrary: m)
  case (Cons r rs)
  have r: "fst r < snd r" using Cons.prems(2) by simp
  then have "in_rng (fst r) r" by (simp add: in_rng_def)
  then have z: "fcover m (fst r) = 0" using Cons.prems(3) [of "fst r"] by simp
  note c = insert_region_cover [OF Cons.prems(1) z]
  have "cover rs a + fcover (insert_region r m) a \<le> 1" for a using c [of a] Cons.prems(3) [of a] by simp
  then have "free_wf (insert_regions rs (insert_region r m)) \<and>
    (\<forall>a. fcover (insert_regions rs (insert_region r m)) a = cover rs a + fcover (insert_region r m) a)"
    using Cons.IH [OF free_wf_insert [OF Cons.prems(1) r]] Cons.prems(2) by simp
  then show ?case using c by simp
qed simp

lemma append_regions_ok:
  assumes "free_wf m" "free_wf m0" "\<And>a. fcover m0 a + fcover m a \<le> 1"
  shows "free_wf (btm_insert_all m0 m) \<and> (\<forall>a. fcover (btm_insert_all m0 m) a = fcover m0 a + fcover m a)"
proof -
  have "map (\<lambda>r. (fst r, r)) (map snd m0) = m0"
    using assms(2) unfolding free_wf_def by (induction m0) (auto simp: btm_wf_Cons)
  then have "btm_insert_all m0 m = insert_regions (map snd m0) m" by (simp add: insert_regions_def)
  moreover have "fst r < snd r" if "r \<in> set (map snd m0)" for r using that assms(2) by (auto simp: free_wf_def)
  ultimately show ?thesis using insert_regions_ok [OF assms(1), of "map snd m0"] assms(3) by simp
qed

section \<open>The invariant\<close>

abbreviation mcover :: "(nat, vm_mapping) btree_map \<Rightarrow> nat \<Rightarrow> nat" where
  "mcover ms \<equiv> cover (map (\<lambda>x. mp_range (snd x)) ms)"

abbreviation ccover :: "(nat \<times> vmar) list \<Rightarrow> nat \<Rightarrow> nat" where
  "ccover cs \<equiv> cover (map (\<lambda>x. vr_range (snd x)) cs)"

definition mappings_ok :: "(nat, vm_mapping) btree_map \<Rightarrow> bool" where
  "mappings_ok ms \<longleftrightarrow> btm_wf ms \<and> (\<forall>(k, mp) \<in> set ms. k = mp_map_to_addr mp \<and> mp_ok mp)"

definition vmar_inv :: "vmar \<Rightarrow> bool" where
  "vmar_inv v \<longleftrightarrow> free_wf (vr_free v) \<and> mappings_ok (vr_mappings v) \<and>
     btm_wf (vr_children v) \<and> (\<forall>(k, c) \<in> set (vr_children v). k = vr_base c \<and> 0 < vr_size c) \<and>
     (\<forall>a. fcover (vr_free v) a + mcover (vr_mappings v) a + ccover (vr_children v) a \<le> (if in_rng a (vr_range v) then 1 else 0))"

lemma vmar_inv_le:
  assumes "vmar_inv v"
  shows "fcover (vr_free v) a + mcover (vr_mappings v) a + ccover (vr_children v) a \<le> 1"
proof -
  have "fcover (vr_free v) a + mcover (vr_mappings v) a + ccover (vr_children v) a \<le> (if in_rng a (vr_range v) then 1 else 0)"
    using assms unfolding vmar_inv_def by blast
  then show ?thesis by (rule le_trans) simp
qed

lemma mapping_positive: "mp_ok mp \<Longrightarrow> in_rng (mp_map_to_addr mp) (mp_range mp)"
  by (simp add: mp_ok_def in_rng_def mp_range_def)

text \<open>Disjoint mappings in the order of their addresses end before the next one starts.\<close>

lemma mapping_order:
  assumes "mappings_ok ((k, mp) # ms)" "\<And>a. mcover ((k, mp) # ms) a \<le> 1" "(l, q) \<in> set ms"
  shows "snd (mp_range mp) \<le> l"
proof (rule ccontr)
  assume "\<not> snd (mp_range mp) \<le> l"
  moreover have "mp_map_to_addr mp < l" "l = mp_map_to_addr q" "mp_ok q"
    using assms(1,3) by (auto simp: mappings_ok_def btm_wf_Cons)
  ultimately have "in_rng l (mp_range mp)" "in_rng l (mp_range q)"
    using mapping_positive [of q] by (auto simp: in_rng_def mp_range_def)
  then show False using cover_pos [OF assms(3), of l "\<lambda>x. mp_range (snd x)"] assms(2) [of l] by simp
qed

section \<open>Applying the trims\<close>

fun out_key :: "trim_out \<Rightarrow> nat set" where
  "out_key (RemoveAddr a) = {a}"
| "out_key (AppendMapping a mp) = {a}"
| "out_key (FreedRange r) = {}"

definition out_keys :: "trim_out list \<Rightarrow> nat set" where
  "out_keys outs = \<Union> (out_key ` set outs)"

definition remove_outs :: "trim_out list \<Rightarrow> (nat, vm_mapping) btree_map \<Rightarrow> (nat, vm_mapping) btree_map" where
  "remove_outs = fold (\<lambda>out m. case out of RemoveAddr a \<Rightarrow> btm_remove a m | _ \<Rightarrow> m)"

definition append_outs :: "trim_out list \<Rightarrow> (nat, vm_mapping) btree_map \<Rightarrow> (nat, vm_mapping) btree_map" where
  "append_outs = fold (\<lambda>out m. case out of AppendMapping a mp \<Rightarrow> btm_insert a mp m | _ \<Rightarrow> m)"

lemma apply_trims_eq: "apply_trims outs ms = append_outs outs (remove_outs outs ms)"
  by (simp add: apply_trims_def append_outs_def remove_outs_def)

lemma outs_simps [simp]:
  "remove_outs [] m = m" "remove_outs (RemoveAddr a # outs) m = remove_outs outs (btm_remove a m)"
  "remove_outs (AppendMapping a mp # outs) m = remove_outs outs m" "remove_outs (FreedRange r # outs) m = remove_outs outs m"
  "append_outs [] m = m" "append_outs (AppendMapping a mp # outs) m = append_outs outs (btm_insert a mp m)"
  "append_outs (RemoveAddr a # outs) m = append_outs outs m" "append_outs (FreedRange r # outs) m = append_outs outs m"
  "remove_outs (xs @ ys) m = remove_outs ys (remove_outs xs m)" "append_outs (xs @ ys) m = append_outs ys (append_outs xs m)"
  "out_keys [] = {}" "out_keys (x # xs) = out_key x \<union> out_keys xs" "out_keys (xs @ ys) = out_keys xs \<union> out_keys ys"
  by (auto simp: remove_outs_def append_outs_def out_keys_def)

lemma remove_outs_Cons: "\<forall>a \<in> out_keys outs. k < a \<Longrightarrow> remove_outs outs ((k, v) # m) = (k, v) # remove_outs outs m"
  by (induction outs arbitrary: m rule: freed_ranges.induct) (simp_all split: if_splits)

lemma append_outs_prefix:
  "\<forall>k \<in> fst ` set ps. \<forall>a \<in> out_keys outs. k < a \<Longrightarrow> append_outs outs (ps @ m) = ps @ append_outs outs m"
proof (induction outs arbitrary: m)
  case (Cons x outs)
  have "btm_insert a q (ps @ m) = ps @ btm_insert a q m" if "\<forall>k \<in> fst ` set ps. k < a" for a q
    using that by (induction ps) auto
  then show ?case using Cons by (cases x) auto
qed simp

lemma remove_outs_keys: "fst ` set (remove_outs outs m) \<subseteq> fst ` set m"
  by (induction outs arbitrary: m rule: freed_ranges.induct) (force simp: set_btm_remove)+

lemma btm_insert_front: "\<forall>l \<in> fst ` set m. a < l \<Longrightarrow> btm_insert a q m = (a, q) # m"
  by (cases m) auto
lemma append_outs_pieces:
  "btm_wf ps \<Longrightarrow> \<forall>k \<in> fst ` set ps. \<forall>l \<in> fst ` set m. k < l \<Longrightarrow>
   append_outs (map (\<lambda>(a, q). AppendMapping a q) ps) m = ps @ m"
proof (induction ps arbitrary: m rule: rev_induct)
  case (snoc x ps)
  obtain a q where x: "x = (a, q)" by fastforce
  have wf: "btm_wf ps" "\<forall>k \<in> fst ` set ps. k < a"
    using snoc.prems(1) by (auto simp: x btm_wf_def sorted_wrt_append)
  have "append_outs (map (\<lambda>(a, q). AppendMapping a q) (ps @ [x])) m = btm_insert a q (ps @ m)"
    using snoc.IH [OF wf(1)] snoc.prems(2) by (simp add: x)
  also have "\<dots> = ps @ btm_insert a q m" using wf(2) by (induction ps) auto
  finally show ?case using btm_insert_front [of m a q] snoc.prems(2) by (simp add: x)
qed simp

lemma freed_outs [simp]:
  "remove_outs (map FreedRange rs) m = m" "append_outs (map FreedRange rs) m = m" "out_keys (map FreedRange rs) = {}"
  "freed_ranges (map FreedRange rs @ outs) = rs @ freed_ranges outs"
  by (induction rs) simp_all

lemma appended_outs [simp]:
  "remove_outs (map (\<lambda>(a, q). AppendMapping a q) ps) m = m" "out_keys (map (\<lambda>(a, q). AppendMapping a q) ps) = fst ` set ps"
  "freed_ranges (map (\<lambda>(a, q). AppendMapping a q) ps @ outs) = freed_ranges outs"
  by (induction ps) auto

lemma freed_trim_outs: "freed_ranges (trim_outs k out @ outs) = freed_ranges outs"
  using appended_outs(3) [of "snd out" outs] by (simp add: trim_outs_def split_def)

text \<open>The trims of the first mapping of the list do not interfere with those of the others.\<close>

lemma apply_trims_Cons:
  assumes "btm_wf (pieces k mp' out)" "\<forall>(a, q) \<in> set (snd out). k < a"
    and "\<forall>a \<in> out_keys outs \<union> fst ` set ms. k < a \<and> (\<forall>l \<in> fst ` set (pieces k mp' out). l < a)"
  shows "apply_trims (trim_outs k out @ map FreedRange rs @ outs) ((k, mp') # ms) = pieces k mp' out @ apply_trims outs ms"
proof -
  let ?app = "map (\<lambda>(a, q). AppendMapping a q) (snd out)"
  let ?hd = "if fst out then [] else [(k, mp')]"
  have "remove_outs outs ((k, mp') # ms) = (k, mp') # remove_outs outs ms" using remove_outs_Cons assms(3) by simp
  moreover have "k \<notin> fst ` set ms" using assms(3) by auto
  ultimately have rm: "remove_outs (trim_outs k out @ map FreedRange rs @ outs) ((k, mp') # ms) = ?hd @ remove_outs outs ms"
    by (simp add: trim_outs_def btm_remove_absent)
  have below: "\<forall>l \<in> fst ` set (pieces k mp' out). \<forall>a \<in> fst ` set (remove_outs outs ms). l < a"
    using assms(3) remove_outs_keys [of outs ms] by blast
  have "append_outs ?app (?hd @ remove_outs outs ms) = ?hd @ append_outs ?app (remove_outs outs ms)"
    by (rule append_outs_prefix) (use assms(2) in \<open>auto simp: out_keys_def\<close>)
  also have "append_outs ?app (remove_outs outs ms) = snd out @ remove_outs outs ms"
  proof (rule append_outs_pieces)
    show "btm_wf (snd out)" using assms(1) by (auto simp: pieces_def btm_wf_Cons split: if_splits)
    show "\<forall>k \<in> fst ` set (snd out). \<forall>l \<in> fst ` set (remove_outs outs ms). k < l" using below by (auto simp: pieces_def)
  qed
  finally have "append_outs ?app (?hd @ remove_outs outs ms) = pieces k mp' out @ remove_outs outs ms" by (simp add: pieces_def)
  moreover have "append_outs outs (pieces k mp' out @ remove_outs outs ms) = pieces k mp' out @ append_outs outs (remove_outs outs ms)"
    by (rule append_outs_prefix) (use assms(3) in auto)
  ultimately show ?thesis unfolding apply_trims_eq rm by (simp add: trim_outs_def split: if_splits)
qed

section \<open>Destroying a range\<close>

definition cuts :: "range \<Rightarrow> vm_mapping \<Rightarrow> range list" where
  "cuts rng mp = (if is_intersected (mp_range mp) rng
     then [(max (fst (mp_range mp)) (fst rng), min (snd (mp_range mp)) (snd rng))] else [])"

text \<open>The range does not cut the tail off the mapping, and the pages that precede a cut have not been mapped.\<close>

definition clean_cut :: "range \<Rightarrow> vm_mapping \<Rightarrow> bool" where
  "clean_cut rng mp \<longleftrightarrow> list_all (\<lambda>r. good_cut r mp) (cuts rng mp)"

lemma cuts_cover: "cover (cuts rng mp) a = (if in_rng a rng then cover [mp_range mp] a else 0)"
  by (auto simp: cuts_def is_intersected_def in_rng_def)

lemma cuts_positive: "r \<in> set (cuts rng mp) \<Longrightarrow> fst r < snd r"
  by (auto simp: cuts_def is_intersected_def split: if_splits)

definition lost_in :: "(nat \<Rightarrow> bool) \<Rightarrow> range \<Rightarrow> memory_set \<Rightarrow> memory_set \<Rightarrow> bool" where
  "lost_in M rng sp sp' \<longleftrightarrow> (\<forall>va. (in_rng va rng \<longrightarrow> M va \<longrightarrow> vs_frame sp' va = None) \<and>
     (vs_frame sp' va = vs_frame sp va \<or> vs_frame sp' va = None \<and> M va))"

lemma touched_lost:
  assumes "touched mp sp" "lost_in M rng sp sp'"
  shows "touched mp sp'"
  unfolding touched_def
proof (intro allI impI)
  fix va assume va: "in_rng va (mp_range mp)" "vs_frame sp' va \<noteq> None"
  then have "vs_frame sp va \<noteq> None" using assms(2) unfolding lost_in_def by metis
  then show "map_of (mp_mapped_pages mp) ((va - mp_map_to_addr mp + mp_vmo_offset mp) div PAGE_SIZE) \<noteq> None"
    using assms(1) va(1) unfolding touched_def by simp
qed

lemma destroy_in_mapping_ok:
  assumes "mp_ok mp" "space_inv (aw_space aw)" "touched mp (aw_space aw)" "clean_cut rng mp"
  shows "\<exists>out mp' sp'. destroy_in_mapping rng k (mp, aw) =
      (Ok (trim_outs (mp_map_to_addr mp) out @ map FreedRange (cuts rng mp)), (mp', aw\<lparr>aw_space := sp'\<rparr>)) \<and>
    space_inv sp' \<and> lost_in (\<lambda>va. in_rng va (mp_range mp)) rng (aw_space aw) sp' \<and>
    btm_wf (pieces (mp_map_to_addr mp) mp' out) \<and> (\<forall>(a, q) \<in> set (snd out). mp_map_to_addr mp < a) \<and>
    (\<forall>(l, q) \<in> set (pieces (mp_map_to_addr mp) mp' out). l = mp_map_to_addr q \<and> mp_ok q \<and> touched q sp' \<and>
       mp_map_to_addr mp \<le> l \<and> snd (mp_range q) \<le> snd (mp_range mp)) \<and>
    (\<forall>a. mcover (pieces (mp_map_to_addr mp) mp' out) a + cover (cuts rng mp) a = cover [mp_range mp] a)"
proof (cases "is_intersected (mp_range mp) rng")
  case False
  then have "\<not> (in_rng va rng \<and> in_rng va (mp_range mp))" for va by (auto simp: is_intersected_def in_rng_def)
  then show ?thesis using False assms
    by (intro exI [of _ "(False, [])"] exI [of _ mp] exI [of _ "aw_space aw"])
      (auto simp: destroy_in_mapping_def trim_outs_def cuts_def pieces_def lost_in_def btm_wf_Cons)
next
  case True
  let ?r = "(max (fst (mp_range mp)) (fst rng), min (snd (mp_range mp)) (snd rng))"
  have "good_cut ?r mp" using assms(4) True by (simp add: clean_cut_def cuts_def)
  from trim_mapping_correct [OF assms(1-3) this] obtain out mp' sp' where
    t: "trim_mapping ?r (mp, aw) = (Ok out, (mp', aw\<lparr>aw_space := sp'\<rparr>))"
    "cut_result ?r mp (aw_space aw) (pieces (mp_map_to_addr mp) mp' out) sp'" "\<forall>(k, q) \<in> set (snd out). mp_map_to_addr mp < k" by blast
  have "in_rng va rng \<Longrightarrow> in_rng va (mp_range mp) \<Longrightarrow> in_rng va ?r" for va by (simp add: in_rng_def)
  then have "lost_in (\<lambda>va. in_rng va (mp_range mp)) rng (aw_space aw) sp'"
    using t(2) unfolding cut_result_def frames_only_lost_def lost_in_def by blast
  moreover have "destroy_in_mapping rng k (mp, aw) =
      (Ok (trim_outs (mp_map_to_addr mp) out @ map FreedRange (cuts rng mp)), (mp', aw\<lparr>aw_space := sp'\<rparr>))"
    using True t(1) by (simp add: destroy_in_mapping_def Let_def get_intersected_range_def cuts_def sbind_def slift_def sreturn_def)
  ultimately show ?thesis using t(2,3) True unfolding cut_result_def
    by (intro exI [of _ out] exI [of _ mp'] exI [of _ sp']) (simp add: cuts_def)
qed
definition loop_result ::
    "range \<Rightarrow> (nat, vm_mapping) btree_map \<Rightarrow> memory_set \<Rightarrow> trim_out list \<Rightarrow> (nat, vm_mapping) btree_map \<Rightarrow> memory_set \<Rightarrow> bool" where
  "loop_result rng ms sp outs fin sp' \<longleftrightarrow> space_inv sp' \<and> lost_in (\<lambda>va. 1 \<le> mcover ms va) rng sp sp' \<and> mappings_ok fin \<and>
     (\<forall>(l, q) \<in> set fin. touched q sp') \<and> freed_ranges outs = concat (map (\<lambda>x. cuts rng (snd x)) ms) \<and>
     (\<forall>a. mcover fin a + cover (freed_ranges outs) a = mcover ms a) \<and>
     (\<forall>a \<in> out_keys outs \<union> fst ` set fin. \<exists>k \<in> fst ` set ms. k \<le> a)"

lemma btm_wf_append: "btm_wf (xs @ ys) \<longleftrightarrow> btm_wf xs \<and> btm_wf ys \<and> (\<forall>k \<in> fst ` set xs. \<forall>l \<in> fst ` set ys. k < l)"
  by (auto simp: btm_wf_def sorted_wrt_append)

lemma lost_in_trans:
  assumes "lost_in M rng sp sp1" "lost_in N rng sp1 sp2"
  shows "lost_in (\<lambda>va. M va \<or> N va) rng sp sp2"
  unfolding lost_in_def
proof (intro allI conjI impI)
  fix va
  have 1: "in_rng va rng \<longrightarrow> M va \<longrightarrow> vs_frame sp1 va = None" "vs_frame sp1 va = vs_frame sp va \<or> vs_frame sp1 va = None \<and> M va"
    using assms(1) by (simp_all add: lost_in_def)
  have 2: "in_rng va rng \<longrightarrow> N va \<longrightarrow> vs_frame sp2 va = None" "vs_frame sp2 va = vs_frame sp1 va \<or> vs_frame sp2 va = None \<and> N va"
    using assms(2) by (simp_all add: lost_in_def)
  show "vs_frame sp2 va = vs_frame sp va \<or> vs_frame sp2 va = None \<and> (M va \<or> N va)" using 1(2) 2(2) by auto
  assume "in_rng va rng" "M va \<or> N va"
  then show "vs_frame sp2 va = None" using 1(1) 2 by auto
qed

lemma loop_result_Cons:
  assumes ok: "mappings_ok ((k, mp) # ms)" "\<And>a. mcover ((k, mp) # ms) a \<le> 1"
    and l1: "lost_in (\<lambda>va. in_rng va (mp_range mp)) rng sp sp1"
    and p: "btm_wf (pieces k mp' out)" "\<forall>(a, q) \<in> set (snd out). k < a"
      "\<forall>(l, q) \<in> set (pieces k mp' out). l = mp_map_to_addr q \<and> mp_ok q \<and> touched q sp1 \<and> k \<le> l \<and> snd (mp_range q) \<le> snd (mp_range mp)"
      "\<And>a. mcover (pieces k mp' out) a + cover (cuts rng mp) a = cover [mp_range mp] a"
    and r: "map fst ms2 = map fst ms" "loop_result rng ms sp1 outs2 (apply_trims outs2 ms2) sp2"
    and outs: "outs = trim_outs k out @ map FreedRange (cuts rng mp) @ outs2"
  shows "loop_result rng ((k, mp) # ms) sp outs (apply_trims outs ((k, mp') # ms2)) sp2"
proof -
  let ?ps = "pieces k mp' out" and ?fin = "apply_trims outs2 ms2"
  have k: "k = mp_map_to_addr mp" "mp_ok mp" using ok(1) by (simp_all add: mappings_ok_def)
  have lt: "l < snd (mp_range mp)" if "(l, q) \<in> set ?ps" for l q
  proof -
    have q: "l = mp_map_to_addr q" "mp_ok q" "snd (mp_range q) \<le> snd (mp_range mp)" using p(3) that by auto
    then show ?thesis using mapping_positive [OF q(2)] by (simp add: in_rng_def)
  qed
  have far: "snd (mp_range mp) \<le> a" if "a \<in> out_keys outs2 \<union> fst ` set ?fin \<union> fst ` set ms2" for a
  proof -
    have "\<exists>k' \<in> fst ` set ms. k' \<le> a"
      using that r unfolding loop_result_def by (metis UnE list.set_map order_refl)
    then obtain l q where "(l, q) \<in> set ms" "l \<le> a" by auto
    then show ?thesis using mapping_order [OF ok \<open>(l, q) \<in> set ms\<close>] by simp
  qed
  have klt: "k < snd (mp_range mp)" using mapping_positive [OF k(2)] k(1) by (simp add: in_rng_def)
  have fin: "apply_trims outs ((k, mp') # ms2) = ?ps @ ?fin"
    unfolding outs by (rule apply_trims_Cons [OF p(1,2)]) (use far lt klt in \<open>force\<close>)
  have r': "space_inv sp2" "lost_in (\<lambda>va. 1 \<le> mcover ms va) rng sp1 sp2" "mappings_ok ?fin" "\<forall>(l, q) \<in> set ?fin. touched q sp2"
    "freed_ranges outs2 = concat (map (\<lambda>x. cuts rng (snd x)) ms)" "\<And>a. mcover ?fin a + cover (freed_ranges outs2) a = mcover ms a"
    "\<forall>a \<in> out_keys outs2 \<union> fst ` set ?fin. \<exists>k \<in> fst ` set ms. k \<le> a"
    using r(2) unfolding loop_result_def by blast+
  have free: "freed_ranges outs = cuts rng mp @ freed_ranges outs2" unfolding outs freed_trim_outs by simp
  have "lost_in (\<lambda>va. 1 \<le> mcover ((k, mp) # ms) va) rng sp sp2"
  proof -
    have "(\<lambda>va. in_rng va (mp_range mp) \<or> 1 \<le> mcover ms va) = (\<lambda>va. 1 \<le> mcover ((k, mp) # ms) va)" by auto
    then show ?thesis using lost_in_trans [OF l1 r'(2)] by simp
  qed
  moreover have "mappings_ok (?ps @ ?fin)"
    using p(1,3) r'(3) far lt by (fastforce simp: mappings_ok_def btm_wf_append)
  moreover have "\<forall>(l, q) \<in> set (?ps @ ?fin). touched q sp2"
    using p(3) r'(4) touched_lost [OF _ r'(2)] by fastforce
  moreover have "mcover (?ps @ ?fin) a + cover (freed_ranges outs) a = mcover ((k, mp) # ms) a" for a
    using p(4) [of a] r'(6) [of a] by (simp add: free)
  moreover have "\<forall>a \<in> out_keys outs \<union> fst ` set (?ps @ ?fin). \<exists>k' \<in> fst ` set ((k, mp) # ms). k' \<le> a"
  proof
    fix a assume "a \<in> out_keys outs \<union> fst ` set (?ps @ ?fin)"
    then consider "a \<in> out_keys (trim_outs k out)" | "a \<in> fst ` set ?ps" | "a \<in> out_keys outs2 \<union> fst ` set ?fin"
      by (auto simp: outs)
    then show "\<exists>k' \<in> fst ` set ((k, mp) # ms). k' \<le> a"
    proof cases
      case 1
      then have "a = k \<or> a \<in> fst ` set (snd out)" using appended_outs(2) [of "snd out"] by (auto simp: trim_outs_def split: if_splits)
      then show ?thesis using p(2) by fastforce
    next
      case 2
      then show ?thesis using p(3) by fastforce
    next
      case 3
      then obtain k' where "k' \<in> fst ` set ms" "k' \<le> a" using r'(7) by blast
      then show ?thesis by auto
    qed
  qed
  ultimately show ?thesis using r'(1,5) unfolding loop_result_def fin by (simp add: free)
qed

lemma destroy_loop_ok:
  assumes "mappings_ok ms" "\<And>a. mcover ms a \<le> 1" "space_inv (aw_space aw)"
    and "\<forall>(k, mp) \<in> set ms. touched mp (aw_space aw) \<and> clean_cut rng mp"
  shows "\<exists>outs ms' sp'. mappings_loop (destroy_in_mapping rng) ms (acc, aw) = (Ok outs, (acc @ ms', aw\<lparr>aw_space := sp'\<rparr>)) \<and>
    map fst ms' = map fst ms \<and> loop_result rng ms (aw_space aw) outs (apply_trims outs ms') sp'"
  using assms
proof (induction ms arbitrary: acc aw)
  case Nil
  then show ?case
    by (intro exI [of _ "[]"] exI [of _ "aw_space aw"]) (simp add: loop_result_def lost_in_def mappings_ok_def apply_trims_def)
next
  case (Cons x ms)
  obtain k mp where x: "x = (k, mp)" by fastforce
  have k: "k = mp_map_to_addr mp" "mp_ok mp" "touched mp (aw_space aw)" "clean_cut rng mp"
    using Cons.prems(1,4) by (simp_all add: x mappings_ok_def)
  obtain out mp' sp1 where d: "destroy_in_mapping rng k (mp, aw) =
      (Ok (trim_outs k out @ map FreedRange (cuts rng mp)), (mp', aw\<lparr>aw_space := sp1\<rparr>))" "space_inv sp1"
    "lost_in (\<lambda>va. in_rng va (mp_range mp)) rng (aw_space aw) sp1"
    "btm_wf (pieces k mp' out)" "\<forall>(a, q) \<in> set (snd out). k < a"
    "\<forall>(l, q) \<in> set (pieces k mp' out). l = mp_map_to_addr q \<and> mp_ok q \<and> touched q sp1 \<and> k \<le> l \<and> snd (mp_range q) \<le> snd (mp_range mp)"
    "\<And>a. mcover (pieces k mp' out) a + cover (cuts rng mp) a = cover [mp_range mp] a"
    using destroy_in_mapping_ok [OF k(2) Cons.prems(3) k(3,4), of k] unfolding k(1) [symmetric] by blast
  have "mcover ms a \<le> 1" for a using Cons.prems(2) [of a] by (simp add: x)
  moreover have "mappings_ok ms" "\<forall>(k, mp) \<in> set ms. touched mp sp1 \<and> clean_cut rng mp"
    using Cons.prems(1) Cons.prems(4) touched_lost [OF _ d(3)] by (auto simp: x mappings_ok_def btm_wf_Cons)
  ultimately obtain outs2 ms2 sp2 where r: "mappings_loop (destroy_in_mapping rng) ms (acc @ [(k, mp')], aw\<lparr>aw_space := sp1\<rparr>) =
      (Ok outs2, ((acc @ [(k, mp')]) @ ms2, aw\<lparr>aw_space := sp2\<rparr>))" "map fst ms2 = map fst ms"
    "loop_result rng ms sp1 outs2 (apply_trims outs2 ms2) sp2"
    using Cons.IH [of "aw\<lparr>aw_space := sp1\<rparr>" "acc @ [(k, mp')]"] d(2) by auto
  have "loop_result rng (x # ms) (aw_space aw) (trim_outs k out @ map FreedRange (cuts rng mp) @ outs2)
      (apply_trims (trim_outs k out @ map FreedRange (cuts rng mp) @ outs2) ((k, mp') # ms2)) sp2"
    unfolding x by (rule loop_result_Cons [OF _ _ d(3-7) r(2,3) refl]) (use Cons.prems(1,2) in \<open>simp_all add: x\<close>)
  then show ?case using d(1) r(1,2)
    by (intro exI [of _ "trim_outs k out @ map FreedRange (cuts rng mp) @ outs2"] exI [of _ "(k, mp') # ms2"] exI [of _ sp2]) (simp add: x)
qed
lemma cuts_cover_all:
  "cover (concat (map (\<lambda>x. cuts rng (snd x)) ms)) a = (if in_rng a rng then mcover ms a else 0)"
  by (induction ms) (simp_all add: cuts_cover)

lemma retain_all: "(\<forall>(k, mp) \<in> set ms. P k mp) \<Longrightarrow> btm_retain P ms = ms"
  by (simp add: btm_retain_def case_prod_unfold)

definition destroyed :: "range \<Rightarrow> vmar \<Rightarrow> memory_set \<Rightarrow> vmar \<Rightarrow> memory_set \<Rightarrow> bool" where
  "destroyed rng v sp v' sp' \<longleftrightarrow> vmar_inv v' \<and> vr_range v' = vr_range v \<and> vr_children v' = vr_children v \<and> space_inv sp' \<and>
     (\<forall>(k, mp) \<in> set (vr_mappings v'). touched mp sp') \<and>
     (\<forall>a. mcover (vr_mappings v') a = (if in_rng a rng then 0 else mcover (vr_mappings v) a)) \<and>
     (\<forall>a. fcover (vr_free v') a = fcover (vr_free v) a + (if in_rng a rng then mcover (vr_mappings v) a else 0)) \<and>
     lost_in (\<lambda>va. 1 \<le> mcover (vr_mappings v) va) rng sp sp'"

lemma vr_range_set [simp]: "vr_range (set_free m v) = vr_range v" "vr_range (set_mappings ms v) = vr_range v"
  by (simp_all add: vr_range_def)

lemma vr_destroy_ok:
  assumes inv: "vmar_inv v" and nc: "vr_children v = []" and al: "is_page_aligned (fst rng)" "is_page_aligned (snd rng)"
    and sp: "space_inv (aw_space aw)" and cl: "\<forall>(k, mp) \<in> set (vr_mappings v). touched mp (aw_space aw) \<and> clean_cut rng mp"
  shows "\<exists>v' sp'. vr_destroy rng (v, aw) = (Ok (), (v', aw\<lparr>aw_space := sp'\<rparr>)) \<and> destroyed rng v (aw_space aw) v' sp'"
proof -
  have i: "free_wf (vr_free v)" "mappings_ok (vr_mappings v)" "\<And>a. fcover (vr_free v) a + mcover (vr_mappings v) a \<le> (if in_rng a (vr_range v) then 1 else 0)"
    using inv nc by (simp_all add: vmar_inv_def)
  have le1: "mcover (vr_mappings v) a \<le> 1" "fcover (vr_free v) a + mcover (vr_mappings v) a \<le> 1" for a using i(3) [of a] by (auto split: if_splits)
  obtain outs ms' sp' where l: "mappings_loop (destroy_in_mapping rng) (vr_mappings v) ([], aw) = (Ok outs, (ms', aw\<lparr>aw_space := sp'\<rparr>))"
    "loop_result rng (vr_mappings v) (aw_space aw) outs (apply_trims outs ms') sp'"
    using destroy_loop_ok [OF i(2) le1(1) sp cl, of "[]"] by auto
  let ?fin = "apply_trims outs ms'" and ?fr = "insert_regions (freed_ranges outs) []"
  have r: "space_inv sp'" "lost_in (\<lambda>va. 1 \<le> mcover (vr_mappings v) va) rng (aw_space aw) sp'" "mappings_ok ?fin" "\<forall>(l, q) \<in> set ?fin. touched q sp'"
    "freed_ranges outs = concat (map (\<lambda>x. cuts rng (snd x)) (vr_mappings v))" "\<And>a. mcover ?fin a + cover (freed_ranges outs) a = mcover (vr_mappings v) a"
    using l(2) unfolding loop_result_def by blast+
  have fc: "cover (freed_ranges outs) a = (if in_rng a rng then mcover (vr_mappings v) a else 0)" for a
    unfolding r(5) by (rule cuts_cover_all)
  have "fst q < snd q" if "q \<in> set (freed_ranges outs)" for q using that unfolding r(5) by (auto intro: cuts_positive)
  then have fr: "free_wf ?fr" "\<And>a. fcover ?fr a = cover (freed_ranges outs) a"
    using insert_regions_ok [of "[]" "freed_ranges outs"] le1(1) fc by auto
  have "free_wf (btm_insert_all ?fr (vr_free v)) \<and> (\<forall>a. fcover (btm_insert_all ?fr (vr_free v)) a = fcover ?fr a + fcover (vr_free v) a)"
  proof (rule append_regions_ok [OF i(1) fr(1)])
    show "fcover ?fr a + fcover (vr_free v) a \<le> 1" for a using le1(2) [of a] fr(2) [of a] fc [of a] by (simp split: if_splits)
  qed
  moreover have "fcover (btm_insert_all ?fr (vr_free v)) a \<le> 1" for a
    using calculation fr(2) [of a] fc [of a] le1(2) [of a] by (simp split: if_splits)
  ultimately obtain m' where m': "merge_continuous_regions (btm_insert_all ?fr (vr_free v)) = Ok m'" "free_wf m'"
    "\<And>a. fcover m' a = fcover ?fr a + fcover (vr_free v) a"
    using merge_regions_ok [of "btm_insert_all ?fr (vr_free v)"] by auto
  have "btm_retain (\<lambda>_ mp. \<not> mp_is_destroyed mp) ?fin = ?fin"
    by (rule retain_all) (use r(3) in \<open>auto simp: mappings_ok_def mp_ok_def\<close>)
  then have run: "vr_destroy rng (v, aw) = (Ok (), (set_free m' (set_mappings ?fin v), aw\<lparr>aw_space := sp'\<rparr>))"
    using nc al l(1) m'(1)
    by (simp add: vr_destroy_def check_destroy_range_def is_page_aligned_def sbind_def slift_def smod_def for_mappings_def
        merge_after_def btm_retain_def set_free_def set_mappings_def set_children_def)
  have "mcover ?fin a = (if in_rng a rng then 0 else mcover (vr_mappings v) a)" for a
    using r(6) [of a] fc [of a] by (simp split: if_splits)
  moreover have "fcover m' a = fcover (vr_free v) a + (if in_rng a rng then mcover (vr_mappings v) a else 0)" for a
    using m'(3) [of a] fr(2) [of a] fc [of a] by simp
  moreover from this have "fcover m' a + mcover ?fin a \<le> (if in_rng a (vr_range v) then 1 else 0)" for a
    using i(3) [of a] r(6) [of a] fc [of a] by simp
  ultimately have "destroyed rng v (aw_space aw) (set_free m' (set_mappings ?fin v)) sp'"
    unfolding destroyed_def vmar_inv_def using r(1-4) m'(2) nc by simp
  then show ?thesis using run by blast
qed
section \<open>Mapping an object\<close>

text \<open>The place asked for: the given address, or any aligned one.\<close>

definition placed :: "nat option \<Rightarrow> nat \<Rightarrow> nat \<Rightarrow> bool" where
  "placed off align s \<longleftrightarrow> (case off of Some x \<Rightarrow> s = x | None \<Rightarrow> s mod align = 0)"

definition room :: "free_map \<Rightarrow> nat option \<Rightarrow> nat \<Rightarrow> nat \<Rightarrow> bool" where
  "room fr off sz align \<longleftrightarrow> (\<exists>(k, r) \<in> set fr. \<exists>s. placed off align s \<and> fst r \<le> s \<and> s + sz \<le> snd r)"

lemma find_free_loop_ok:
  assumes "\<forall>(k, r) \<in> set fr. k = fst r \<and> snd r \<le> 2 ^ 47" "sz \<le> 2 ^ 47" "align = 2 ^ n" "0 < n" "n \<le> 47"
    and "\<And>x. off = Some x \<Longrightarrow> x \<le> 2 ^ 47" "\<forall>(k, r) \<in> set fr. fst r < snd r"
  shows "case find_free_loop fr off sz align of
      Ok (b, s) \<Rightarrow> \<exists>r. (b, r) \<in> set fr \<and> placed off align s \<and> fst r \<le> s \<and> s + sz \<le> snd r
    | Err e \<Rightarrow> e = EACCES \<and> \<not> room fr off sz align
    | Panic \<Rightarrow> False"
  using assms
proof (induction fr)
  case Nil
  then show ?case by (simp add: room_def)
next
  case (Cons x fr)
  obtain k r where x: "x = (k, r)" by (cases x)
  have r: "k = fst r" "snd r \<le> 2 ^ 47" "fst r < snd r" using Cons.prems(1,7) by (auto simp: x)
  have IH: "case find_free_loop fr off sz align of
      Ok (b, s) \<Rightarrow> \<exists>r. (b, r) \<in> set fr \<and> placed off align s \<and> fst r \<le> s \<and> s + sz \<le> snd r
    | Err e \<Rightarrow> e = EACCES \<and> \<not> room fr off sz align | Panic \<Rightarrow> False"
    by (rule Cons.IH) (use Cons.prems in auto)
  have rm: "room (x # fr) off sz align \<longleftrightarrow> (\<exists>s. placed off align s \<and> fst r \<le> s \<and> s + sz \<le> snd r) \<or> room fr off sz align"
    by (auto simp: room_def x)
  show ?case
  proof (cases off)
    case None
    have al: "0 < align" "align \<le> 2 ^ 47" using Cons.prems(3) power_increasing [OF Cons.prems(5), of "2::nat"] by simp_all
    then have up: "usize_align_up (fst r) align = Some (round_up (fst r) align)"
      using r(2,3) by (intro usize_align_up_Some [OF Cons.prems(4,3)]) simp_all
    note b = round_up_bounds [OF al(1), of "fst r"]
    have add: "(usize_add (round_up (fst r) align) sz :: nat res) = Ok (round_up (fst r) align + sz)"
      using b(3) r(2,3) al(2) Cons.prems(2) by (simp add: usize_add_def)
    have best: "round_up (fst r) align \<le> s" if "placed None align s" "fst r \<le> s" for s
      using round_up_le [OF al(1), of s "fst r"] that by (simp add: placed_def mod_eq_0_iff_dvd)
    have pl: "placed None align (round_up (fst r) align)" using b(1) by (simp add: placed_def)
    have no: "\<not> (\<exists>s. placed None align s \<and> fst r \<le> s \<and> s + sz \<le> snd r)" if "\<not> round_up (fst r) align + sz \<le> snd r"
      using best that by (meson add_le_mono1 le_trans)
    have step: "find_free_loop (x # fr) off sz align =
        (if round_up (fst r) align + sz \<le> snd r then Ok (k, round_up (fst r) align) else find_free_loop fr off sz align)"
      using up add b(2) by (simp add: x None)
    show ?thesis unfolding step
    proof (cases "round_up (fst r) align + sz \<le> snd r")
      case True
      then show "case if round_up (fst r) align + sz \<le> snd r then Ok (k, round_up (fst r) align) else find_free_loop fr off sz align of
          Ok (b, s) \<Rightarrow> \<exists>r. (b, r) \<in> set (x # fr) \<and> placed off align s \<and> fst r \<le> s \<and> s + sz \<le> snd r
        | Err e \<Rightarrow> e = EACCES \<and> \<not> room (x # fr) off sz align | Panic \<Rightarrow> False"
        using b(2) pl by (simp add: None) (rule exI [of _ "fst r"], rule exI [of _ "snd r"], simp add: x)
    qed (use IH no rm None in \<open>auto split: result.splits\<close>)
  next
    case (Some p)
    have "(usize_add p sz :: nat res) = Ok (p + sz)" using Cons.prems(2) Cons.prems(6) [OF Some] by (simp add: usize_add_def)
    then have step: "find_free_loop (x # fr) off sz align = (if k \<le> p \<and> p + sz \<le> snd r then Ok (k, p) else find_free_loop fr off sz align)"
      by (simp add: x Some)
    show ?thesis unfolding step
    proof (cases "k \<le> p \<and> p + sz \<le> snd r")
      case True
      then show "case if k \<le> p \<and> p + sz \<le> snd r then Ok (k, p) else find_free_loop fr off sz align of
          Ok (b, s) \<Rightarrow> \<exists>r. (b, r) \<in> set (x # fr) \<and> placed off align s \<and> fst r \<le> s \<and> s + sz \<le> snd r
        | Err e \<Rightarrow> e = EACCES \<and> \<not> room (x # fr) off sz align | Panic \<Rightarrow> False"
        using r(1) by (simp add: Some placed_def) (rule exI [of _ "fst r"], rule exI [of _ "snd r"], simp add: x)
    qed (use IH rm r(1) Some in \<open>auto simp: placed_def split: result.splits\<close>)
  qed
qed

lemma free_bound:
  assumes "vmar_inv v" "(k, r) \<in> set (vr_free v)"
  shows "snd r \<le> vr_base v + vr_size v" "k = fst r" "fst r < snd r"
proof -
  show r: "k = fst r" "fst r < snd r" using assms by (auto simp: vmar_inv_def free_wf_def)
  then have "in_rng (snd r - 1) r" by (auto simp: in_rng_def)
  then have "1 \<le> fcover (vr_free v) (snd r - 1)" using cover_pos [OF assms(2), of _ snd] by simp
  moreover have "fcover (vr_free v) (snd r - 1) \<le> (if in_rng (snd r - 1) (vr_range v) then 1 else 0)"
    using assms(1) unfolding vmar_inv_def by (metis add_leD1)
  ultimately have "in_rng (snd r - 1) (vr_range v)" by (simp split: if_splits)
  then show "snd r \<le> vr_base v + vr_size v" by (auto simp: in_rng_def vr_range_def)
qed

text \<open>Options that \<^verbatim>\<open>mmap\<close> without \<^verbatim>\<open>MAP_FIXED\<close> gives: aligned, not smaller than the object, with the rights of the permissions.\<close>

definition options_ok :: "map_options \<Rightarrow> nat \<Rightarrow> bool" where
  "options_ok ops vsz \<longleftrightarrow> \<not> op_can_overwrite ops \<and> (\<exists>n. 12 \<le> n \<and> n \<le> 46 \<and> op_align ops = 2 ^ n) \<and>
     op_vmo_offset ops mod op_align ops = 0 \<and> (case op_offset ops of None \<Rightarrow> True | Some x \<Rightarrow> x mod op_align ops = 0 \<and> x \<le> 2 ^ 46) \<and>
     rights_contain (op_rights ops) (rights_from_perms (op_perms ops)) \<and> rights_contain (op_rights ops) R_DUP \<and>
     is_page_aligned (op_size ops) \<and> 0 < op_size ops \<and> op_size ops \<le> 2 ^ 46 \<and> vsz \<le> op_size ops \<and>
     op_vmo_offset ops + op_size ops + PAGE_SIZE < USIZE_LIMIT"

lemma children_overlap: "check_children_overlap rng cs \<longleftrightarrow> (\<exists>(k, c) \<in> set cs. is_intersected rng (vr_range c))"
  by (induction rng cs rule: check_children_overlap.induct) auto
lemma allocate_ok:
  assumes inv: "vmar_inv v" "vr_base v + vr_size v \<le> 2 ^ 47" and o: "options_ok ops vsz"
  shows "if room (vr_free v) (op_offset ops) (op_size ops) (op_align ops)
    then \<exists>s fr. allocate_free_region_for_vmo vsz (op_size ops) (op_offset ops) (op_align ops) False (v, aw) = (Ok s, (set_free fr v, aw)) \<and>
      placed (op_offset ops) (op_align ops) s \<and> free_wf fr \<and> s + op_size ops \<le> 2 ^ 47 \<and>
      (\<forall>a. fcover fr a + cover [(s, s + op_size ops)] a = fcover (vr_free v) a)
    else allocate_free_region_for_vmo vsz (op_size ops) (op_offset ops) (op_align ops) False (v, aw) = (Err EACCES, (v, aw))"
proof -
  let ?sz = "op_size ops" and ?off = "op_offset ops" and ?al = "op_align ops"
  obtain n where n: "12 \<le> n" "n \<le> 46" "?al = 2 ^ n" using o by (auto simp: options_ok_def)
  have sz: "0 < ?sz" "?sz \<le> 2 ^ 46" "max ?sz vsz = ?sz" using o by (auto simp: options_ok_def)
  have off: "x \<le> 2 ^ 46" if "?off = Some x" for x using o that by (simp add: options_ok_def)
  have ff: "case find_free_loop (vr_free v) ?off ?sz ?al of
      Ok (b, s) \<Rightarrow> \<exists>r. (b, r) \<in> set (vr_free v) \<and> placed ?off ?al s \<and> fst r \<le> s \<and> s + ?sz \<le> snd r
    | Err e \<Rightarrow> e = EACCES \<and> \<not> room (vr_free v) ?off ?sz ?al | Panic \<Rightarrow> False"
  proof (rule find_free_loop_ok [OF _ _ n(3)])
    show "\<forall>(k, r) \<in> set (vr_free v). k = fst r \<and> snd r \<le> 2 ^ 47" "\<forall>(k, r) \<in> set (vr_free v). fst r < snd r"
      using free_bound [OF inv(1)] inv(2) by (blast intro: le_trans)+
  qed (use n(1,2) sz(2) off in force)+
  show ?thesis
  proof (cases "find_free_loop (vr_free v) ?off ?sz ?al")
    case (Ok p)
    obtain b s where p: "p = (b, s)" by (cases p)
    obtain r where r: "(b, r) \<in> set (vr_free v)" "placed ?off ?al s" "fst r \<le> s" "s + ?sz \<le> snd r" using ff Ok p by auto
    have i: "free_wf (vr_free v)" using inv(1) by (simp add: vmar_inv_def)
    have le: "fcover (vr_free v) a \<le> 1" for a using vmar_inv_le [OF inv(1), of a] by linarith
    have m: "map_of (vr_free v) b = Some r" using r(1) free_wf_btm [OF i] by (simp add: btm_mem_iff)
    have e: "s + ?sz \<le> 2 ^ 47" using r(4) free_bound [OF inv(1) r(1)] inv(2) by linarith
    let ?fr = "insert_regions (allocate_range r (s, s + ?sz)) (btm_remove b (vr_free v))"
    have R: "room (vr_free v) ?off ?sz ?al" using r by (fastforce simp: room_def)
    have "allocate_free_region_for_vmo vsz ?sz ?off ?al False (v, aw) = (Ok s, (set_free ?fr v, aw))"
      using Ok p m e sz r(3,4)
      by (simp add: allocate_free_region_for_vmo_def Let_def find_free_region_for_child_def sbind_def slift_def sget_def smod_def sreturn_def
          usize_add_def get_intersected_range_def is_intersected_def unwrap_opt_def)
    then show ?thesis unfolding if_P [OF R] using take_range [OF i le m r(3) _ r(4)] sz(1) r(2) e
      by (intro exI [of _ s] exI [of _ ?fr]) simp
  next
    case (Err er)
    then show ?thesis using ff sz(3)
      by (simp add: allocate_free_region_for_vmo_def Let_def find_free_region_for_child_def sbind_def slift_def sget_def)
  qed (use ff in auto)
qed

lemma free_apart:
  assumes "vmar_inv v" "(k, r) \<in> set (vr_free v)" "in_rng p r"
  shows "mcover (vr_mappings v) p = 0" "ccover (vr_children v) p = 0"
  using vmar_inv_le [OF assms(1), of p] cover_pos [OF assms(2), of p snd] assms(3) by simp_all

lemma check_options_outcome:
  assumes inv: "vmar_inv v" and o: "options_ok ops vsz"
  shows "check_options ops vsz v = Ok () \<or>
    check_options ops vsz v = Err EACCES \<and> \<not> room (vr_free v) (op_offset ops) (op_size ops) (op_align ops)"
proof -
  obtain n where n: "12 \<le> n" "n \<le> 46" "op_align ops = 2 ^ n" using o by (auto simp: options_ok_def)
  have "(2::nat) ^ n = 2 ^ 12 * 2 ^ (n - 12)" using n(1) power_add [of "2::nat" 12 "n - 12"] by simp
  then have a1: "op_align ops mod PAGE_SIZE = 0" by (simp add: n(3))
  have "(2::nat) ^ n < USIZE_LIMIT" using n(2) power_strict_increasing [of n 64 "2::nat"] by simp
  then have "unat (of_nat (op_align ops) :: 64 word) = 2 ^ n" unfolding n(3) by (rule unat_of_nat_usize)
  then have a2: "is_power_of_two (of_nat (op_align ops) :: 64 word)" using is_power_of_two_unat by blast
  have base: "check_options ops vsz v = check_overwrite ops vsz v"
    using o a1 a2 by (auto simp: check_options_def options_ok_def check_rights_def split: option.splits)
  show ?thesis
  proof (cases "op_offset ops")
    case None
    then show ?thesis using o by (simp add: base check_overwrite_def options_ok_def)
  next
    case (Some x)
    let ?r = "(x, x + op_size ops)"
    have co: "check_overwrite ops vsz v = check_vmo_overwrite v ?r False"
      using o Some by (simp add: check_overwrite_def options_ok_def usize_add_def max_absorb1)
    have "check_vmo_overwrite v ?r False = Ok ()" if R: "room (vr_free v) (Some x) (op_size ops) (op_align ops)"
    proof -
      obtain k r where r: "(k, r) \<in> set (vr_free v)" "fst r \<le> x" "x + op_size ops \<le> snd r" using R by (auto simp: room_def placed_def)
      have apart: "\<not> is_intersected ?r q" if "\<And>p. in_rng p q \<Longrightarrow> 1 \<le> mcover (vr_mappings v) p \<or> 1 \<le> ccover (vr_children v) p" for q
      proof
        assume "is_intersected ?r q"
        then have "in_rng (max x (fst q)) q" "in_rng (max x (fst q)) r" using r(2,3) by (auto simp: is_intersected_def in_rng_def)
        then show False using that free_apart [OF inv r(1)] by fastforce
      qed
      have "\<not> is_intersected ?r (vr_range c)" if "(b, c) \<in> set (vr_children v)" for b c
        by (rule apart) (use cover_pos [OF that, of _ "\<lambda>x. vr_range (snd x)"] in simp)
      then have "\<not> check_children_overlap ?r (vr_children v)" by (auto simp: children_overlap)
      moreover have "\<not> is_intersected ?r (b, b + mp_map_size mp)" if "(b, mp) \<in> set (vr_mappings v)" for b mp
      proof (rule apart)
        fix p assume "in_rng p (b, b + mp_map_size mp)"
        moreover have "b = mp_map_to_addr mp" using inv that by (auto simp: vmar_inv_def mappings_ok_def)
        ultimately show "1 \<le> mcover (vr_mappings v) p \<or> 1 \<le> ccover (vr_children v) p"
          using cover_pos [OF that, of p "\<lambda>x. mp_range (snd x)"] by (simp add: mp_range_def)
      qed
      ultimately show ?thesis by (auto simp: check_vmo_overwrite_def list_ex_iff)
    qed
    moreover have "check_vmo_overwrite v ?r False = Ok () \<or> check_vmo_overwrite v ?r False = Err EACCES"
      by (simp add: check_vmo_overwrite_def)
    ultimately show ?thesis unfolding base co Some by blast
  qed
qed
lemma page_index_run: "\<exists>a b. (get_page_idx_range (x, y) :: (nat \<times> nat) res) = Ok (a, b)" if "x \<le> y" "y + PAGE_SIZE < USIZE_LIMIT"
  using page_range [OF that] by blast

lemma add_mapping_inv:
  assumes inv: "vmar_inv v" and fr: "free_wf fr" "\<And>a. fcover fr a + cover [mp_range mp] a = fcover (vr_free v) a" and ok: "mp_ok mp"
  shows "vmar_inv (add_mapping mp (set_free fr v))"
    and "mcover (vr_mappings (add_mapping mp (set_free fr v))) a = mcover (vr_mappings v) a + cover [mp_range mp] a"
proof -
  let ?k = "mp_map_to_addr mp"
  have "1 \<le> fcover (vr_free v) ?k" using fr(2) [of ?k] mapping_positive [OF ok] by (simp split: if_splits)
  then have z: "mcover (vr_mappings v) ?k = 0" using vmar_inv_le [OF inv, of ?k] by simp
  have "?k \<notin> fst ` set (vr_mappings v)"
  proof
    assume "?k \<in> fst ` set (vr_mappings v)"
    then obtain q where q: "(?k, q) \<in> set (vr_mappings v)" by auto
    then have "in_rng ?k (mp_range q)" using inv mapping_positive [of q] by (auto simp: vmar_inv_def mappings_ok_def)
    then show False using cover_pos [OF q, of ?k "\<lambda>x. mp_range (snd x)"] z by simp
  qed
  from cover_insert [OF this, of "\<lambda>x. mp_range (snd x)" mp]
  have mc: "mcover (btm_insert ?k mp (vr_mappings v)) a = cover [mp_range mp] a + mcover (vr_mappings v) a" for a by simp
  then show "mcover (vr_mappings (add_mapping mp (set_free fr v))) a = mcover (vr_mappings v) a + cover [mp_range mp] a"
    by (simp add: add_mapping_def)
  have "fcover fr a + mcover (btm_insert ?k mp (vr_mappings v)) a + ccover (vr_children v) a \<le> (if in_rng a (vr_range v) then 1 else 0)" for a
  proof -
    have "fcover (vr_free v) a + mcover (vr_mappings v) a + ccover (vr_children v) a \<le> (if in_rng a (vr_range v) then 1 else 0)"
      using inv unfolding vmar_inv_def by blast
    then show ?thesis using fr(2) [of a] mc [of a] by linarith
  qed
  moreover have "mappings_ok (btm_insert ?k mp (vr_mappings v))"
    using inv ok by (auto simp: vmar_inv_def mappings_ok_def set_btm_insert btm_wf_insert)
  ultimately show "vmar_inv (add_mapping mp (set_free fr v))"
    using inv fr(1) unfolding vmar_inv_def by (simp add: add_mapping_def)
qed

lemma page_align_ok:
  assumes "options_ok ops vsz" "placed (op_offset ops) (op_align ops) s"
  shows "is_page_aligned s" "is_page_aligned (op_vmo_offset ops)"
proof -
  obtain n where n: "12 \<le> n" "op_align ops = 2 ^ n" using assms(1) by (auto simp: options_ok_def)
  have "PAGE_SIZE dvd op_align ops" using n power_add [of "2::nat" 12 "n - 12"] by simp
  moreover have "op_align ops dvd s" "op_align ops dvd op_vmo_offset ops"
    using assms by (auto simp: options_ok_def placed_def mod_eq_0_iff_dvd split: option.splits)
  ultimately show "is_page_aligned s" "is_page_aligned (op_vmo_offset ops)"
    by (auto simp: is_page_aligned_def mod_eq_0_iff_dvd dest: dvd_trans)
qed

text \<open>C8: Mapping an object. When a free region has room for the mapping at the place asked for, the mapping is made
  there: its addresses leave the free regions and join the mappings, nothing else changes, and the invariant
  is kept; in particular no two mappings overlap. When there is no room, the call fails and changes nothing.\<close>

theorem map_build_correct:
  assumes "vmar_inv v" "vr_base v + vr_size v \<le> 2 ^ 47" "options_ok ops (vmo_size (aw_vmos aw ! op_vmo ops))"
  shows "if room (vr_free v) (op_offset ops) (op_size ops) (op_align ops)
    then \<exists>s v'. map_build ops (v, aw) = (Ok s, (v', aw)) \<and> vmar_inv v' \<and> placed (op_offset ops) (op_align ops) s \<and>
      (\<forall>a. mcover (vr_mappings v') a = mcover (vr_mappings v) a + cover [(s, s + op_size ops)] a) \<and>
      (\<forall>a. fcover (vr_free v') a + cover [(s, s + op_size ops)] a = fcover (vr_free v) a) \<and> vr_children v' = vr_children v
    else map_build ops (v, aw) = (Err EACCES, (v, aw))"
proof -
  let ?vsz = "vmo_size (aw_vmos aw ! op_vmo ops)" and ?room = "room (vr_free v) (op_offset ops) (op_size ops) (op_align ops)"
  let ?al = "allocate_free_region_for_vmo ?vsz (op_size ops) (op_offset ops) (op_align ops) False (v, aw)"
  note o = assms(3) [unfolded options_ok_def]
  note chk = check_options_outcome [OF assms(1,3)] and al = allocate_ok [OF assms, of aw]
  have build: "map_build ops (v, aw) = (case check_options ops ?vsz v of Ok _ \<Rightarrow>
      sbind (build_mapping ops) (\<lambda>mp. sbind (smod (\<lambda>(v, aw). (add_mapping mp v, aw))) (\<lambda>_. sreturn (mp_map_to_addr mp))) (v, aw)
    | Err e \<Rightarrow> (Err e, (v, aw)) | Panic \<Rightarrow> (Panic, (v, aw)))"
    by (simp add: map_build_def sbind_def slift_def sget_def split: result.split)
  show ?thesis
  proof (cases ?room)
    case True
    then obtain s fr where s: "?al = (Ok s, (set_free fr v, aw))" "placed (op_offset ops) (op_align ops) s" "free_wf fr" "s + op_size ops \<le> 2 ^ 47"
      "\<And>a. fcover fr a + cover [(s, s + op_size ops)] a = fcover (vr_free v) a"
      using al by (simp only: if_True) blast
    obtain x y where xy: "get_page_idx_range (op_vmo_offset ops, op_vmo_offset ops + op_size ops) = Ok (x, y)"
      using page_index_run o by fastforce
    obtain mp where mp: "build_mapping ops (v, aw) = (Ok mp, (set_free fr v, aw))" "mp_map_to_addr mp = s" "mp_map_size mp = op_size ops"
      "mp_vmo_offset mp = op_vmo_offset ops" "\<not> mp_is_destroyed mp" "mp_rights mp = op_rights ops"
      using s(1) xy o by (simp add: build_mapping_def sbind_def sget_def slift_def sreturn_def usize_add_def)
    have "mp_ok mp" using page_align_ok [OF assms(3) s(2)] o s(4) by (simp add: mp_ok_def mp)
    moreover have rng: "mp_range mp = (s, s + op_size ops)" by (simp add: mp_range_def mp)
    ultimately have "vmar_inv (add_mapping mp (set_free fr v))"
      "\<forall>a. mcover (vr_mappings (add_mapping mp (set_free fr v))) a = mcover (vr_mappings v) a + cover [(s, s + op_size ops)] a"
      using add_mapping_inv [OF assms(1) s(3), of mp] s(5) by simp_all
    moreover have "map_build ops (v, aw) = (Ok s, (add_mapping mp (set_free fr v), aw))"
      using chk True mp(1,2) by (simp add: build sbind_def smod_def sreturn_def)
    ultimately show ?thesis unfolding if_P [OF True] using s(2,5)
      by (intro exI [of _ s] exI [of _ "add_mapping mp (set_free fr v)"]) (simp add: add_mapping_def)
  next
    case False
    then have "?al = (Err EACCES, (v, aw))" using al by (simp only: if_False)
    then have "build_mapping ops (v, aw) = (Err EACCES, (v, aw))" using o by (simp add: build_mapping_def sbind_def sget_def)
    then show ?thesis unfolding if_not_P [OF False] using chk by (auto simp: build sbind_def)
  qed
qed
section \<open>Unmapping and merging\<close>

text \<open>C22: The merging of free regions ends without a panic for every well-formed set of disjoint regions. It keeps the
  free addresses, and afterwards no region starts where another ends.\<close>

theorem merge_continuous_regions_correct:
  assumes "free_wf m" "\<forall>a. fcover m a \<le> 1"
  shows "\<exists>m'. merge_continuous_regions m = Ok m' \<and> free_wf m' \<and> (\<forall>a. fcover m' a = fcover m a) \<and>
    (\<forall>k q. map_of m' k = Some q \<longrightarrow> map_of m' (snd q) = None)"
  using merge_regions_ok assms by blast

text \<open>C7: \<^verbatim>\<open>munmap\<close> of a range that cuts no tail off a mapping, where the pages that precede a cut inside a mapping have not
  been touched. The call succeeds; the mappings lose exactly the addresses of the range, rounded up to pages, and the free
  regions gain them; no page of the range that belonged to a mapping is left in the page table; the pages outside the mappings
  keep their frames; and the invariant of the region and of the page table holds again.\<close>

theorem sys_munmap_correct:
  assumes "vmar_inv v" "vr_children v = []" "space_inv (aw_space aw)" "is_page_aligned addr" "addr + len + PAGE_SIZE < USIZE_LIMIT"
    and "\<forall>(k, mp) \<in> set (vr_mappings v). touched mp (aw_space aw) \<and> clean_cut (addr, addr + round_up len PAGE_SIZE) mp"
  shows "\<exists>v' sp. sys_munmap addr len (v, aw) = (Ok 0, (v', aw\<lparr>aw_space := sp\<rparr>)) \<and> vmar_inv v' \<and> space_inv sp \<and>
    (\<forall>a. mcover (vr_mappings v') a = (if addr \<le> a \<and> a < addr + round_up len PAGE_SIZE then 0 else mcover (vr_mappings v) a)) \<and>
    (\<forall>a. fcover (vr_free v') a = fcover (vr_free v) a +
       (if addr \<le> a \<and> a < addr + round_up len PAGE_SIZE then mcover (vr_mappings v) a else 0)) \<and>
    (\<forall>a. 1 \<le> mcover (vr_mappings v) a \<longrightarrow> addr \<le> a \<longrightarrow> a < addr + round_up len PAGE_SIZE \<longrightarrow> vs_frame sp a = None) \<and>
    (\<forall>a. mcover (vr_mappings v) a = 0 \<longrightarrow> vs_frame sp a = vs_frame (aw_space aw) a)"
proof -
  let ?e = "addr + round_up len PAGE_SIZE"
  have up: "usize_align_up len PAGE_SIZE = Some (round_up len PAGE_SIZE)"
    by (rule usize_align_up_Some [of 12]) (use assms(5) in simp_all)
  note b = round_up_bounds [of PAGE_SIZE len]
  have "is_page_aligned ?e" using assms(4) b(1) by (simp add: is_page_aligned_def mod_eq_0_iff_dvd)
  then obtain v' sp where d: "vr_destroy (addr, ?e) (v, aw) = (Ok (), (v', aw\<lparr>aw_space := sp\<rparr>))" "destroyed (addr, ?e) v (aw_space aw) v' sp"
    using vr_destroy_ok [OF assms(1,2) _ _ assms(3,6)] assms(4) by auto
  have "?e < USIZE_LIMIT" using b(3) assms(5) by simp
  then have "sys_munmap addr len (v, aw) = (Ok 0, (v', aw\<lparr>aw_space := sp\<rparr>))"
    using up d(1) by (simp add: sys_munmap_def sbind_def slift_def sreturn_def usize_add_def unwrap_opt_def)
  moreover have "vs_frame sp a = vs_frame (aw_space aw) a" if "mcover (vr_mappings v) a = 0" for a
    using d(2) that unfolding destroyed_def lost_in_def by force
  ultimately show ?thesis using d(2) unfolding destroyed_def lost_in_def
    by (intro exI [of _ v'] exI [of _ sp]) (simp add: in_rng_def)
qed

section \<open>What goes wrong\<close>

lemma trim_left_loop_panics:
  assumes "i \<in> set is" "map_of (mp_mapped_pages mp) i \<noteq> None" "\<forall>j \<in> set is. j * PAGE_SIZE < mp_vmo_offset mp"
  shows "fst (trim_left_loop is (mp, aw)) = Panic"
  using assms
proof (induction "is" arbitrary: mp)
  case (Cons j "is")
  let ?mp = "mp\<lparr>mp_page_perms := btm_remove j (mp_page_perms mp)\<rparr>"
  show ?case
  proof (cases "map_of (mp_mapped_pages mp) j")
    case None
    then have "i \<in> set is" using Cons.prems(1,2) by auto
    then have "fst (trim_left_loop is (?mp, aw)) = Panic" using Cons.IH [of ?mp] Cons.prems(2,3) by simp
    then show ?thesis using None by (simp add: sbind_def smod_def)
  next
    case (Some u)
    have "j * PAGE_SIZE < mp_vmo_offset mp" using Cons.prems(3) by simp
    then show ?thesis using Some
      by (simp add: sbind_def smod_def ignore_result_def unmap_one_page_def page_map_addr_def usize_sub_def slift_def)
  qed
qed simp

text \<open>C37: Cutting a mapping in front of or behind a page that has been touched panics: \<^verbatim>\<open>trim_left\<close> first moves the start of
  the mapping behind the cut and then asks for the addresses of the pages before it, which underflows. So \<^verbatim>\<open>munmap\<close> of a part
  of a mapping, other than its end, panics as soon as a page before the end of the part has been used.\<close>

theorem trim_touched_panics:
  assumes "mp_ok mp" "is_page_aligned e" "mp_map_to_addr mp \<le> s" "s < e" "e < snd (mp_range mp)"
    and "map_of (mp_mapped_pages mp) j \<noteq> None" "mp_vmo_offset mp \<le> j * PAGE_SIZE" "j * PAGE_SIZE < mp_vmo_offset mp + (e - mp_map_to_addr mp)"
  shows "fst (trim_mapping (s, e) (mp, aw)) = Panic"
proof -
  let ?d = "e - mp_map_to_addr mp"
  let ?mp = "mp\<lparr>mp_map_to_addr := e, mp_vmo_offset := mp_vmo_offset mp + ?d, mp_map_size := mp_map_size mp - ?d\<rparr>"
  let ?is = "[mp_vmo_offset mp div PAGE_SIZE ..< (mp_vmo_offset mp + ?d) div PAGE_SIZE]"
  have al: "is_page_aligned (mp_vmo_offset mp)" "is_page_aligned (mp_vmo_offset mp + ?d)"
    using assms(1,2) aligned_arith unfolding mp_ok_def by blast+
  then have q: "mp_vmo_offset mp div PAGE_SIZE * PAGE_SIZE = mp_vmo_offset mp"
    "(mp_vmo_offset mp + ?d) div PAGE_SIZE * PAGE_SIZE = mp_vmo_offset mp + ?d" by (auto simp: is_page_aligned_def)
  have "i * PAGE_SIZE < mp_vmo_offset mp + ?d" if "i \<in> set ?is" for i
    using that mult_less_mono1 [of i "(mp_vmo_offset mp + ?d) div PAGE_SIZE" PAGE_SIZE] q(2) by simp
  moreover have "j \<in> set ?is"
  proof -
    have "mp_vmo_offset mp div PAGE_SIZE * PAGE_SIZE \<le> j * PAGE_SIZE" "j * PAGE_SIZE < (mp_vmo_offset mp + ?d) div PAGE_SIZE * PAGE_SIZE"
      unfolding q by (fact assms(7), fact assms(8))
    then have "mp_vmo_offset mp div PAGE_SIZE \<le> j" "j < (mp_vmo_offset mp + ?d) div PAGE_SIZE" by (simp_all only: mult_le_cancel2 mult_less_cancel2)
    then show ?thesis by simp
  qed
  ultimately have "fst (trim_left_loop ?is (?mp, aw)) = Panic" using trim_left_loop_panics [of j ?is ?mp aw] assms(6) by simp
  then have "fst (trim_left e (mp, aw)) = Panic"
    using assms(2-5) by (auto simp: trim_left_def Let_def sbind_def smod_def slift_def is_page_aligned_def mp_range_def split: prod.splits)
  moreover have "mp_try_clone mp = Ok mp" using assms(1) by (simp add: mp_try_clone_def cap_dup_def check_rights_def mp_ok_def)
  ultimately show ?thesis using assms(3-5)
    by (auto simp: trim_mapping_def Let_def is_intersected_def mp_range_def sbind_def slift_def split: prod.splits)
qed

text \<open>A fixed mapping that starts below an existing one and covers it panics: the old mapping is unmapped with the new range,
  whose start minus the start of the mapping underflows.\<close>

theorem overwrite_from_below_panics:
  assumes "fst r < mp_map_to_addr mp" "snd (mp_range mp) \<le> snd r" "0 < mp_map_size mp"
  shows "fst (trim_mapping r (mp, aw)) = Panic"
  using assms by (simp add: trim_mapping_def Let_def is_intersected_def mp_range_def mp_unmap_def sbind_def slift_def usize_sub_def)
lemma destroy_children_none:
  assumes "\<forall>(k, c) \<in> set cs. \<not> is_intersected rng (vr_range c)"
  shows "destroy_children rng cs aw = (Ok (map (\<lambda>x. vr_range (snd x)) cs), (cs, aw))"
  using assms by (induction rng cs aw rule: destroy_children.induct) (auto simp: Let_def)

lemma check_destroy_none:
  assumes "\<forall>(k, c) \<in> set cs. \<not> is_intersected rng (vr_range c) \<and> k = vr_base c \<and> 0 < vr_size c" "fst rng < snd rng"
  shows "check_destroy_children rng cs = Ok ()"
  using assms
proof (induction rng cs rule: check_destroy_children.induct)
  case (2 rng k c cs)
  then have "k + vr_size c \<le> fst rng \<or> snd rng \<le> k" by (auto simp: is_intersected_def vr_range_def)
  then show ?case using 2 by (auto simp: Let_def)
qed simp

text \<open>C38: Destroying any range of a region makes the ranges of all its children free, also of the children that the range does
  not touch and that go on living. The next mapping may then be placed over a living child.\<close>

theorem destroy_frees_living_children:
  assumes "vmar_inv v" "vr_mappings v = []" "fst rng < snd rng" "is_page_aligned (fst rng)" "is_page_aligned (snd rng)"
    and "\<forall>(k, c) \<in> set (vr_children v). \<not> is_intersected rng (vr_range c) \<and> \<not> vr_is_destroyed c"
  shows "\<exists>v'. vr_destroy rng (v, aw) = (Ok (), (v', aw)) \<and> vr_children v' = vr_children v \<and>
    (\<forall>a. fcover (vr_free v') a = fcover (vr_free v) a + ccover (vr_children v) a)"
proof -
  let ?cs = "vr_children v" and ?rs = "map (\<lambda>x. vr_range (snd x)) (vr_children v)"
  have kids: "\<forall>(k, c) \<in> set ?cs. \<not> is_intersected rng (vr_range c) \<and> k = vr_base c \<and> 0 < vr_size c"
    using assms(1,6) by (auto simp: vmar_inv_def)
  have fr: "free_wf (vr_free v)" using assms(1) by (simp add: vmar_inv_def)
  have le: "fcover (vr_free v) a + cover ?rs a \<le> 1" for a using vmar_inv_le [OF assms(1), of a] assms(2) by simp
  have "fst r < snd r" if "r \<in> set ?rs" for r using that kids by (auto simp: vr_range_def)
  moreover have "cover ?rs a \<le> 1" for a using le [of a] by linarith
  ultimately have ir: "free_wf (insert_regions ?rs []) \<and> (\<forall>a. fcover (insert_regions ?rs []) a = cover ?rs a)"
    using insert_regions_ok [OF free_wf_Nil, of ?rs] by simp
  then have ap: "free_wf (btm_insert_all (insert_regions ?rs []) (vr_free v)) \<and>
      (\<forall>a. fcover (btm_insert_all (insert_regions ?rs []) (vr_free v)) a = cover ?rs a + fcover (vr_free v) a)"
    using append_regions_ok [OF fr, of "insert_regions ?rs []"] le by (simp add: add.commute)
  moreover have "fcover (btm_insert_all (insert_regions ?rs []) (vr_free v)) a \<le> 1" for a using ap le [of a] by (simp add: add.commute)
  ultimately obtain m' where m': "merge_continuous_regions (btm_insert_all (insert_regions ?rs []) (vr_free v)) = Ok m'"
    "\<And>a. fcover m' a = cover ?rs a + fcover (vr_free v) a"
    using merge_regions_ok [of "btm_insert_all (insert_regions ?rs []) (vr_free v)"] by auto
  have "btm_retain (\<lambda>_ c. \<not> vr_is_destroyed c) ?cs = ?cs"
    using assms(6) by (auto simp: btm_retain_def intro!: filter_True)
  then have "vr_destroy rng (v, aw) = (Ok (), (set_free m' v, aw))"
    using destroy_children_none [of ?cs rng aw] check_destroy_none [OF kids assms(3)] kids assms(2,4,5) m'(1)
    by (simp add: vr_destroy_def check_destroy_range_def is_page_aligned_def sbind_def slift_def smod_def for_mappings_def
        apply_trims_def merge_after_def btm_retain_def set_free_def set_mappings_def set_children_def case_prod_unfold)
  then show ?thesis using m'(2) by (intro exI [of _ "set_free m' v"]) simp
qed

end
