(* ===== verification/Vmar_Examples.thy ===== *)
theory Vmar_Examples
  imports Vmar_Correct
begin

text \<open>
  Concrete address regions: the properties of the regions at concrete inputs, and a run in which unmapping the tail
  of a mapping makes the next mapping disappear.
\<close>

section \<open>Regions and mappings\<close>

definition demo_as :: "(nat, unit) as_world" where
  "demo_as = \<lparr>aw_world = demo_world, aw_vmos = [demo_vmo], aw_space = demo_space\<rparr>"

definition demo_map :: "nat \<Rightarrow> nat \<Rightarrow> vm_mapping" where
  "demo_map addr n = \<lparr>mp_vmo_offset = 0, mp_map_size = n * PAGE_SIZE, mp_map_to_addr = addr, mp_is_destroyed = False, mp_mapped_pages = [],
     mp_page_perms = [], mp_vmo = 0, mp_rights = RIGHTS_ALL\<rparr>"

definition demo_vmar :: vmar where
  "demo_vmar = Vmar False [] [(0x400000, demo_map 0x400000 2), (0x402000, demo_map 0x402000 3)]
     [(0x100000, (0x100000, 0x400000)), (0x405000, (0x405000, 0x500000))] 0 0x500000"

definition demo_parent :: vmar where
  "demo_parent = Vmar False [(0x400000, Vmar False [] [] [] 0x400000 0x1000)] [] [(0x100000, (0x100000, 0x400000))] 0 0x500000"

lemma demo_vmar_ok: "vmar_inv demo_vmar" "vmar_inv demo_parent"
  by (auto simp: vmar_inv_def demo_vmar_def demo_parent_def free_wf_def mappings_ok_def btm_wf_def demo_map_def mp_ok_def is_page_aligned_def
      in_rng_def mp_range_def vr_range_def RIGHTS_ALL_def rights_contain_def R_DUP_def R_READ_def R_WRITE_def R_EXEC_def R_SIGNAL_def)

text \<open>Unmapping the tail of a mapping drops the mapping that follows it: \<^verbatim>\<open>trim_mapping\<close> takes a cut that ends where the mapping
  ends for a hole, and files the empty rest under the address behind the mapping, over the mapping that starts there.\<close>

lemma demo_region_map_ok: "mp_ok (demo_map 0x400000 2)" "untouched_before e (demo_map a n)" "space_inv (aw_space demo_as)"
  using demo_vmar_ok(1) demo_space_ok(1)
  by (simp_all add: vmar_inv_def mappings_ok_def demo_vmar_def untouched_before_def demo_map_def demo_as_def)

lemma demo_cut_tail:
  "\<exists>p q aw'. destroy_in_mapping (0x401000, 0x402000) k (demo_map 0x400000 2, demo_as) =
     (Ok [AppendMapping 0x402000 q, FreedRange (0x401000, 0x402000)], (p, aw')) \<and> mp_map_size q = 0 \<and> \<not> mp_is_destroyed q \<and>
     mp_map_to_addr p = 0x400000 \<and> mp_map_size p = 0x1000 \<and> \<not> mp_is_destroyed p"
proof -
  let ?m = "demo_map 0x400000 2"
  have g: "mp_map_to_addr ?m = 0x400000" "mp_map_size ?m = 0x2000" "mp_vmo_offset ?m = 0" "mp_range ?m = (0x400000, 0x402000)"
    "\<not> mp_is_destroyed ?m" "mp_try_clone ?m = Ok ?m"
    by (simp_all add: demo_map_def mp_range_def mp_try_clone_def cap_dup_def check_rights_def rights_contain_def RIGHTS_ALL_def
        R_DUP_def R_READ_def R_WRITE_def R_EXEC_def R_SIGNAL_def)
  obtain q where q: "trim_left 0x402000 (?m, demo_as) = (Ok 0x402000, (q, demo_as))" "mp_map_size q = 0" "\<not> mp_is_destroyed q"
    using trim_left_ok [where e = "0x402000" and aw = demo_as, OF demo_region_map_ok(1)] demo_region_map_ok(2) by (auto simp: g is_page_aligned_def)
  obtain p aw' where p: "trim_right 0x401000 (?m, demo_as) = (Ok 0x400000, (p, aw'))" "mp_map_to_addr p = 0x400000" "mp_map_size p = 0x1000" "\<not> mp_is_destroyed p"
    using trim_right_ok [where s = "0x401000", OF demo_region_map_ok(1,3)] by (auto simp: g is_page_aligned_def)
  have "destroy_in_mapping (0x401000, 0x402000) k (?m, demo_as) = (Ok [AppendMapping 0x402000 q, FreedRange (0x401000, 0x402000)], (p, aw'))"
    using p(1) q(1) by (simp add: destroy_in_mapping_def Let_def g is_intersected_def get_intersected_range_def trim_mapping_def
        sbind_def slift_def sreturn_def trim_outs_def)
  then show ?thesis using p q by blast
qed

text \<open>C36: Unmapping the tail of a mapping drops the mapping that follows it: \<^verbatim>\<open>trim_mapping\<close> takes a cut that ends where the mapping
  ends for a hole, and files the empty rest under the address behind the mapping, over the mapping that starts there.\<close>

theorem munmap_tail_drops_neighbour:
  "\<exists>v' aw'. sys_munmap 0x401000 PAGE_SIZE (demo_vmar, demo_as) = (Ok 0, (v', aw')) \<and>
     get_vm_mapping demo_vmar 0x402000 = Ok (demo_map 0x402000 3) \<and> get_vm_mapping v' 0x402000 = Err EACCES"
proof -
  obtain p q aw' where c: "destroy_in_mapping (0x401000, 0x402000) 0x400000 (demo_map 0x400000 2, demo_as) =
     (Ok [AppendMapping 0x402000 q, FreedRange (0x401000, 0x402000)], (p, aw'))" "mp_map_size q = 0" "\<not> mp_is_destroyed q"
     "mp_map_to_addr p = 0x400000" "mp_map_size p = 0x1000" "\<not> mp_is_destroyed p"
    using demo_cut_tail [of "0x400000"] by blast
  have far: "destroy_in_mapping (0x401000, 0x402000) k (demo_map 0x402000 3, w) = (Ok [], (demo_map 0x402000 3, w))" for k and w :: "(nat, unit) as_world"
    by (simp add: destroy_in_mapping_def Let_def mp_range_def demo_map_def is_intersected_def)
  have up: "usize_align_up PAGE_SIZE PAGE_SIZE = Some PAGE_SIZE"
    using usize_align_up_Some [of 12 PAGE_SIZE PAGE_SIZE] by (simp add: round_up_def)
  have "vr_destroy (0x401000, 0x402000) (demo_vmar, demo_as) = (Ok (), (Vmar False [] [(0x400000, p), (0x402000, q)]
     [(0x100000, (0x100000, 0x400000)), (0x401000, (0x401000, 0x402000)), (0x405000, (0x405000, 0x500000))] 0 0x500000, aw'))"
    using c far by (simp add: vr_destroy_def demo_vmar_def check_destroy_range_def sbind_def slift_def smod_def for_mappings_def Let_def
        set_free_def set_mappings_def set_children_def apply_trims_def merge_after_def merge_continuous_regions_def btm_retain_def
        btm_keys_def insert_regions_def insert_region_def)
  then show ?thesis using up c(2,5)
    by (simp add: sys_munmap_def sbind_def slift_def sreturn_def usize_add_def unwrap_opt_def get_vm_mapping_def demo_vmar_def demo_map_def)
qed
definition demo_map_options :: map_options where
  "demo_map_options = map_options_new 0 RIGHTS_ALL 8192 PERM_READ"

lemma rights_all_ok: "rights_contain RIGHTS_ALL R_DUP" "rights_contain RIGHTS_ALL (rights_from_perms PERM_READ)"
  by (simp_all add: rights_contain_def RIGHTS_ALL_def R_DUP_def R_READ_def R_WRITE_def R_EXEC_def R_SIGNAL_def rights_from_perms_def
      add_if_def PERM_READ_def PERM_WRITE_def PERM_EXEC_def)

lemma demo_options_ok: "options_ok demo_map_options (vmo_size (aw_vmos demo_as ! op_vmo demo_map_options))"
proof -
  have "\<exists>n::nat. 12 \<le> n \<and> n \<le> 46 \<and> PAGE_SIZE = 2 ^ n" by (rule exI [of _ 12]) simp
  then show ?thesis using rights_all_ok
    by (simp add: options_ok_def demo_map_options_def map_options_new_def demo_as_def demo_vmo_def is_page_aligned_def)
qed

lemma root_ok: "vmar_inv vr_new_root"
  by (simp add: vmar_inv_def vr_new_root_def free_wf_def mappings_ok_def btm_wf_def in_rng_def vr_range_def)

theorem map_build_correct_witness:
  "\<exists>s v'. map_build demo_map_options (vr_new_root, demo_as) = (Ok s, (v', demo_as)) \<and> s mod PAGE_SIZE = 0 \<and> mcover (vr_mappings v') (s + 8191) = 1"
proof -
  have "room (vr_free vr_new_root) (op_offset demo_map_options) (op_size demo_map_options) (op_align demo_map_options)"
    by (auto simp: room_def vr_new_root_def demo_map_options_def map_options_new_def placed_def intro: exI [of _ ROOT_VMAR_LOWEST_ADDR])
  from map_build_correct [OF root_ok _ demo_options_ok, unfolded if_P [OF this]] obtain s v' where
    "map_build demo_map_options (vr_new_root, demo_as) = (Ok s, (v', demo_as))" "placed (op_offset demo_map_options) (op_align demo_map_options) s"
    "\<forall>a. mcover (vr_mappings v') a = mcover (vr_mappings vr_new_root) a + cover [(s, s + op_size demo_map_options)] a"
    by (auto simp: vr_new_root_def)
  then show ?thesis by (auto simp: demo_map_options_def map_options_new_def placed_def vr_new_root_def in_rng_def)
qed

theorem merge_continuous_regions_correct_witness:
  "\<exists>m'. merge_continuous_regions [(0, (0, 10)), (10, (10, 20)), (30, (30, 40))] = Ok m' \<and> fcover m' 15 = 1 \<and> fcover m' 25 = 0"
proof -
  have "free_wf [(0, (0, 10)), (10, (10, 20)), (30, (30, 40))]" "\<forall>a. fcover [(0, (0, 10)), (10, (10, 20)), (30, (30, 40))] a \<le> 1"
    by (auto simp: free_wf_def btm_wf_def in_rng_def)
  from merge_continuous_regions_correct [OF this] show ?thesis by (auto simp: in_rng_def)
qed

theorem sys_munmap_correct_witness:
  "\<exists>v' sp. sys_munmap 0x403000 100 (demo_vmar, demo_as) = (Ok 0, (v', demo_as\<lparr>aw_space := sp\<rparr>)) \<and>
     mcover (vr_mappings v') 0x403fff = 0 \<and> fcover (vr_free v') 0x403fff = 1 \<and> mcover (vr_mappings v') 0x404000 = 1"
proof -
  have r: "round_up 100 PAGE_SIZE = PAGE_SIZE" by (simp add: round_up_def)
  have "\<forall>(k, mp) \<in> set (vr_mappings demo_vmar). touched mp (aw_space demo_as) \<and> clean_cut (0x403000, 0x403000 + round_up 100 PAGE_SIZE) mp"
    using demo_space_ok(2)
    by (simp add: r demo_vmar_def touched_def demo_as_def clean_cut_def cuts_def is_intersected_def mp_range_def demo_map_def good_cut_def
        is_page_aligned_def untouched_before_def)
  from sys_munmap_correct [OF demo_vmar_ok(1) _ demo_region_map_ok(3) _ _ this] obtain v' sp where
    "sys_munmap 0x403000 100 (demo_vmar, demo_as) = (Ok 0, (v', demo_as\<lparr>aw_space := sp\<rparr>))"
    "\<forall>a. mcover (vr_mappings v') a = (if 0x403000 \<le> a \<and> a < 0x403000 + round_up 100 PAGE_SIZE then 0 else mcover (vr_mappings demo_vmar) a)"
    "\<forall>a. fcover (vr_free v') a = fcover (vr_free demo_vmar) a +
       (if 0x403000 \<le> a \<and> a < 0x403000 + round_up 100 PAGE_SIZE then mcover (vr_mappings demo_vmar) a else 0)"
    by (auto simp: is_page_aligned_def demo_vmar_def)
  then show ?thesis by (intro exI [of _ v'] exI [of _ sp]) (simp add: r demo_vmar_def demo_map_def mp_range_def in_rng_def)
qed

definition demo_touched :: vm_mapping where
  "demo_touched = (demo_map 0x400000 2)\<lparr>mp_mapped_pages := [(0, ())]\<rparr>"

theorem trim_touched_panics_witness: "fst (trim_mapping (0x400000, 0x401000) (demo_touched, demo_as)) = Panic"
  by (rule trim_touched_panics [where j = 0])
    (use demo_region_map_ok(1) in \<open>simp_all add: demo_touched_def demo_map_def mp_ok_def is_page_aligned_def mp_range_def\<close>)

theorem overwrite_from_below_panics_witness: "fst (trim_mapping (0x3ff000, 0x402000) (demo_touched, demo_as)) = Panic"
  by (rule overwrite_from_below_panics) (simp_all add: demo_touched_def demo_map_def mp_range_def)

theorem destroy_frees_living_children_witness:
  "\<exists>v'. vr_destroy (0x200000, 0x201000) (demo_parent, demo_as) = (Ok (), (v', demo_as)) \<and>
     vr_children v' = [(0x400000, Vmar False [] [] [] 0x400000 0x1000)] \<and> fcover (vr_free v') 0x400000 = 1"
proof -
  have "\<exists>v'. vr_destroy (0x200000, 0x201000) (demo_parent, demo_as) = (Ok (), (v', demo_as)) \<and> vr_children v' = vr_children demo_parent \<and>
    (\<forall>a. fcover (vr_free v') a = fcover (vr_free demo_parent) a + ccover (vr_children demo_parent) a)"
    by (rule destroy_frees_living_children [OF demo_vmar_ok(2)])
      (simp_all add: demo_parent_def is_page_aligned_def is_intersected_def vr_range_def)
  then show ?thesis by (auto simp: demo_parent_def in_rng_def vr_range_def)
qed

end
