(* ===== verification/Page_Fault.thy ===== *)
theory Page_Fault
  imports Vmar_Examples
begin

text \<open>
  The composition of regions, mappings, objects and page tables in a page fault: a fault on a page of a mapping that the
  permissions allow ends with the page in the page table, backed by a frame that holds the content of the object.
\<close>

section \<open>Entering a page\<close>

lemma vs_map_one:
  assumes sp: "space_inv sp" and a: "is_page_aligned a" "a + PAGE_SIZE \<le> 2 ^ 47" "vs_frame sp a = None"
    and f: "frame_ok (vf_start_paddr f)" "vf_start_paddr f \<notin> pt_frames sp" "3 \<le> length (pt_supply (ms_pt sp))"
  shows "\<exists>sp'. vs_map sp [f] ((mo_set_addr mo_new (Some a))\<lparr>mo_perm := p\<rparr>) = (Ok a, sp') \<and> space_inv sp' \<and>
    (\<forall>va < 2 ^ 47. translate (ms_pt sp') va = (if page_of va = a then Some (vf_start_paddr f, vm_perm_flags p) else translate (ms_pt sp) va))"
proof -
  have in1: "in_pages a 1 va \<longleftrightarrow> page_of va = a" for va using page_of_range [OF a(1)] by (simp add: in_pages_def)
  have none: "vs_frame sp va = None" if "in_pages a 1 va" for va using that a(1,3) in1 by (simp add: vs_frame_def)
  have "\<exists>ms'. vs_map_loop sp (vm_perm_flags p) a 0 [f] = Some ms' \<and> space_inv ms' \<and> pt_step sp ms' \<and>
    (\<forall>va. vs_frame ms' va = (if in_pages (a + 0 * PAGE_SIZE) (length [f]) va
       then Some ([f] ! ((va - (a + 0 * PAGE_SIZE)) div PAGE_SIZE)) else vs_frame sp va)) \<and>
    (\<forall>va < 2 ^ 47. translate (ms_pt ms') va = (if in_pages (a + 0 * PAGE_SIZE) (length [f]) va
       then Some (vf_start_paddr ([f] ! ((va - (a + 0 * PAGE_SIZE)) div PAGE_SIZE)), vm_perm_flags p)
       else translate (ms_pt sp) va))"
    by (rule vs_map_loop_correct [OF sp a(1)]) (use a(2) none f in simp_all)
  then obtain sp' where sp': "vs_map_loop sp (vm_perm_flags p) a 0 [f] = Some sp'" "space_inv sp'"
    "\<forall>va < 2 ^ 47. translate (ms_pt sp') va = (if in_pages a 1 va
       then Some (vf_start_paddr ([f] ! ((va - a) div PAGE_SIZE)), vm_perm_flags p) else translate (ms_pt sp) va)" by auto
  have "(va - a) div PAGE_SIZE = 0" if "page_of va = a" for va
  proof -
    have "a \<le> va" "va < a + PAGE_SIZE" using that in1 [of va] by (simp_all add: in_pages_def)
    then show ?thesis by simp
  qed
  then show ?thesis using sp' in1
    by (intro exI [of _ sp']) (auto simp: vs_map_def Let_def mo_set_addr_def mo_new_def)
qed

lemma map_one_page_ok:
  assumes ok: "mp_ok mp" and sp: "space_inv (aw_space aw)" "vs_frame (aw_space aw) (page_va mp i) = None"
    and i: "mp_vmo_offset mp \<le> i * PAGE_SIZE" "i * PAGE_SIZE < mp_vmo_offset mp + mp_map_size mp"
    and f: "frame_ok (vf_start_paddr f)" "vf_start_paddr f \<notin> pt_frames (aw_space aw)" "3 \<le> length (pt_supply (ms_pt (aw_space aw)))"
    and p: "map_of (mp_page_perms mp) i = Some p" "ro \<longrightarrow> vmo_is_cow (aw_vmos aw ! mp_vmo mp)"
  shows "\<exists>sp'. map_one_page i f ro (mp, aw) = (Ok (), (mp\<lparr>mp_mapped_pages := btm_insert i () (mp_mapped_pages mp)\<rparr>, aw\<lparr>aw_space := sp'\<rparr>)) \<and>
    space_inv sp' \<and> (\<forall>va < 2 ^ 47. translate (ms_pt sp') va =
      (if page_of va = page_va mp i then Some (vf_start_paddr f, vm_perm_flags (if ro then p AND NOT VM_W else p))
       else translate (ms_pt (aw_space aw)) va))"
proof -
  let ?a = "page_va mp i" and ?q = "if ro then p AND NOT VM_W else p"
  have al: "is_page_aligned ?a" "?a + PAGE_SIZE \<le> 2 ^ 47" "page_map_addr mp i = Ok ?a" using page_va_ok [OF ok i] by simp_all
  obtain sp' where sp': "vs_map (aw_space aw) [f] ((mo_set_addr mo_new (Some ?a))\<lparr>mo_perm := ?q\<rparr>) = (Ok ?a, sp')" "space_inv sp'"
    "\<forall>va < 2 ^ 47. translate (ms_pt sp') va = (if page_of va = ?a then Some (vf_start_paddr f, vm_perm_flags ?q) else translate (ms_pt (aw_space aw)) va)"
    using vs_map_one [OF sp(1) al(1,2) sp(2) f, of ?q] by blast
  have "\<not> ms_is_mapped (aw_space aw) ?a" using is_mapped_iff [OF sp(1) al(1)] sp(2) by simp
  then have "map_one_page i f ro (mp, aw) = (Ok (), (mp\<lparr>mp_mapped_pages := btm_insert i () (mp_mapped_pages mp)\<rparr>, aw\<lparr>aw_space := sp'\<rparr>))"
    using al(3) p sp'(1)
    by (simp add: map_one_page_def Let_def mp_the_vmo_def sbind_def slift_def smod_def sreturn_def on_world_def on_space_def from_fres_def unwrap_opt_def)
  then show ?thesis using sp'(2,3) by blast
qed
section \<open>The fault\<close>

lemma on_first_mapping_hit:
  assumes "(k, mp) \<in> set ms" "P (k, k + mp_map_size mp)" "\<forall>(l, q) \<in> set ms. P (l, l + mp_map_size q) \<longrightarrow> (l, q) = (k, mp)"
    and "f k (mp, aw) = (r, (mp', aw'))"
  shows "\<exists>ms'. on_first_mapping P f ms aw = Some (r, (ms', aw')) \<and> (k, mp') \<in> set ms'"
  using assms
proof (induction P f ms aw rule: on_first_mapping.induct)
  case (2 P f l q ms aw)
  show ?case
  proof (cases "P (l, l + mp_map_size q)")
    case True
    then have "(l, q) = (k, mp)" using "2.prems"(3) by auto
    then show ?thesis using True "2.prems"(4) by auto
  next
    case False
    then have "(k, mp) \<in> set ms" using "2.prems"(1,2) by auto
    then obtain ms' where "on_first_mapping P f ms aw = Some (r, (ms', aw'))" "(k, mp') \<in> set ms'"
      using "2.IH" [OF False] "2.prems"(2-4) by auto
    then show ?thesis using False by auto
  qed
qed simp

lemma only_mapping:
  assumes "mappings_ok ms" "\<And>a. mcover ms a \<le> 1" "(k, mp) \<in> set ms" "(l, q) \<in> set ms" "in_rng a (mp_range mp)" "in_rng a (mp_range q)"
  shows "(l, q) = (k, mp)"
proof (rule ccontr)
  assume "(l, q) \<noteq> (k, mp)"
  moreover have "map_of ms k = Some mp" "map_of ms l = Some q" using assms(1,3,4) by (simp_all add: mappings_ok_def btm_mem_iff)
  ultimately have "map_of (btm_remove k ms) l = Some q" by (auto simp: map_of_btm_remove)
  then have "(l, q) \<in> set (btm_remove k ms)" by (rule map_of_SomeD)
  then have "1 \<le> mcover (btm_remove k ms) a" using cover_pos [of l q _ a "\<lambda>x. mp_range (snd x)"] assms(6) by simp
  moreover have "mcover (btm_remove k ms) a + 1 = mcover ms a"
    using cover_remove [of ms k mp "\<lambda>x. mp_range (snd x)" a] assms(1,5) \<open>map_of ms k = Some mp\<close> by (simp add: mappings_ok_def)
  ultimately show False using assms(2) [of a] by linarith
qed

lemma fault_page:
  assumes ok: "mp_ok mp" and a: "in_rng addr (mp_range mp)"
  defines "i \<equiv> (mp_vmo_offset mp + addr - mp_map_to_addr mp) div PAGE_SIZE"
  shows "mp_vmo_offset mp \<le> i * PAGE_SIZE" "i * PAGE_SIZE < mp_vmo_offset mp + mp_map_size mp" "page_va mp i = page_of addr"
proof -
  obtain t v z where g: "mp_map_to_addr mp = t * PAGE_SIZE" "mp_vmo_offset mp = v * PAGE_SIZE" "mp_map_size mp = z * PAGE_SIZE"
    by (rule mp_okD [OF ok])
  obtain n where n: "addr = t * PAGE_SIZE + n" "n < z * PAGE_SIZE"
    using a le_Suc_ex [of "t * PAGE_SIZE" addr] by (auto simp: in_rng_def mp_range_def g)
  have d: "addr div PAGE_SIZE = t + n div PAGE_SIZE" by (simp add: n(1))
  have "mp_vmo_offset mp + addr - mp_map_to_addr mp = v * PAGE_SIZE + n" by (simp add: g n(1))
  then have i: "i = v + n div PAGE_SIZE" by (simp add: i_def)
  have "n div PAGE_SIZE < z" using n(2) by (simp add: div_less_iff_less_mult)
  then have "v \<le> i" "i < v + z" by (simp_all add: i)
  then show "mp_vmo_offset mp \<le> i * PAGE_SIZE" "i * PAGE_SIZE < mp_vmo_offset mp + mp_map_size mp" unfolding g(2,3) by linarith+
  show "page_va mp i = page_of addr" using page_va_pages [OF g(1,2), of i] by (simp add: i page_of_def d algebra_simps)
qed
text \<open>The state of a mapped object that the fault handler needs: the object of the mapping satisfies its invariant, a
  frame is available, and no frame that the allocator hands out is used by the page table.\<close>

definition backed :: "('s \<Rightarrow> nat set) \<Rightarrow> ('s \<Rightarrow> nat) \<Rightarrow> vm_mapping \<Rightarrow> ('s, 'p) as_world \<Rightarrow> bool" where
  "backed used avail mp aw \<longleftrightarrow> mp_vmo mp < length (aw_vmos aw) \<and>
     vmo_inv (used (wd_alloc (aw_world aw))) (aw_vmos aw ! mp_vmo mp) \<and> 1 \<le> avail (wd_alloc (aw_world aw)) \<and>
     (\<forall>s. \<forall>i \<in> used s. frame_ok (i * PAGE_SIZE) \<and> i * PAGE_SIZE \<notin> pt_frames (aw_space aw)) \<and>
     3 \<le> length (pt_supply (ms_pt (aw_space aw)))"

lemma mp_fault_ok:
  fixes aw :: "('s, 'p) as_world"
  assumes al: "alloc_ok al used avail" and ok: "mp_ok mp" and bk: "backed used avail mp aw" and a: "in_rng addr (mp_range mp)"
    and sp: "space_inv (aw_space aw)" "vs_frame (aw_space aw) addr = None"
  defines "vo \<equiv> aw_vmos aw ! mp_vmo mp" and "x \<equiv> mp_vmo_offset mp + addr - mp_map_to_addr mp"
  assumes x: "x < vmo_size vo" and p: "map_of (mp_page_perms mp) (x div PAGE_SIZE) = Some p" "vm_perm_contains p (if wr then VM_W else VM_R)"
    and rt: "rights_contain (mp_rights mp) (if wr then R_WRITE else R_READ)"
  shows "\<exists>mp' aw' f. mp_handle_page_fault al addr np wr (mp, aw) = (Ok (), (mp', aw')) \<and> space_inv (aw_space aw') \<and>
    (\<forall>va < 2 ^ 47. translate (ms_pt (aw_space aw')) va = (if page_of va = page_of addr
       then Some (vf_start_paddr f, vm_perm_flags (if vmo_is_cow vo \<and> \<not> wr then p AND NOT VM_W else p)) else translate (ms_pt (aw_space aw)) va)) \<and>
    (\<forall>k < PAGE_SIZE. wd_mem (aw_world aw') (vf_as_ptr f + k) = vmo_byte vo (wd_mem (aw_world aw)) (x div PAGE_SIZE * PAGE_SIZE + k))"
proof -
  let ?w = "aw_world aw" and ?i = "x div PAGE_SIZE" and ?ro = "vmo_is_cow vo \<and> \<not> wr"
  note page = fault_page [OF ok a, folded x_def]
  have inv: "vmo_inv (used (wd_alloc ?w)) vo" "mp_vmo mp < length (aw_vmos aw)" and av: "1 \<le> avail (wd_alloc ?w)"
    using bk by (simp_all add: backed_def vo_def)
  have "?i * PAGE_SIZE \<le> x" by simp
  then have "?i * PAGE_SIZE < vmo_size vo" using x by linarith
  from get_committed_frame_spec [OF al inv(1) this, of wr] obtain f vo' w' where
    g: "get_committed_frame al ?i wr (vo, ?w) = (Ok f, (vo', w'))" "vmo_step used (vo, ?w) (vo', w')" "page_got used wr ?i f (vo, ?w) (vo', w')"
    using av unfolding provides_def by (cases "get_committed_frame al ?i wr (vo, ?w)") (auto split: result.splits)
  let ?aw = "aw\<lparr>aw_vmos := (aw_vmos aw)[mp_vmo mp := vo'], aw_world := w'\<rparr>"
  have f: "frame_ok (vf_start_paddr f)" "vf_start_paddr f \<notin> pt_frames (aw_space ?aw)" "3 \<le> length (pt_supply (ms_pt (aw_space ?aw)))"
    using bk g(3) by (auto simp: backed_def page_got_def vf_start_paddr_def)
  have "vmo_is_cow vo' = vmo_is_cow vo" using g(2) by (auto simp: vmo_step_def Let_def same_object_def)
  then have cow: "?ro \<longrightarrow> vmo_is_cow (aw_vmos ?aw ! mp_vmo mp)" using inv(2) by simp
  have un: "vs_frame (aw_space ?aw) (page_va mp ?i) = None" using sp(2) page(3) by (simp add: vs_frame_def)
  obtain sp' where m: "map_one_page ?i f ?ro (mp, ?aw) = (Ok (), (mp\<lparr>mp_mapped_pages := btm_insert ?i () (mp_mapped_pages mp)\<rparr>, ?aw\<lparr>aw_space := sp'\<rparr>))"
    "space_inv sp'" "\<forall>va < 2 ^ 47. translate (ms_pt sp') va = (if page_of va = page_va mp ?i
       then Some (vf_start_paddr f, vm_perm_flags (if ?ro then p AND NOT VM_W else p)) else translate (ms_pt (aw_space ?aw)) va)"
    using map_one_page_ok [OF ok _ un page(1,2) f p(1) cow] sp(1) by auto
  have sub: "(usize_sub (mp_vmo_offset mp + addr) (mp_map_to_addr mp) :: nat res) = Ok x" using a by (simp add: usize_sub_def x_def in_rng_def mp_range_def)
  have "on_mp_vmo (get_committed_frame al ?i wr) (mp, aw) = (Ok f, (mp, ?aw))"
    using g(1) by (simp add: on_mp_vmo_def on_world_def on_vmo_def vo_def)
  then have "mp_handle_page_fault al addr np wr (mp, aw) = (Ok (), (mp\<lparr>mp_mapped_pages := btm_insert ?i () (mp_mapped_pages mp)\<rparr>, ?aw\<lparr>aw_space := sp'\<rparr>))"
    using sub x p rt m(1)
    by (cases wr) (simp_all add: mp_handle_page_fault_def Let_def mp_the_vmo_def vo_def [symmetric] sbind_def slift_def check_rights_def check_perm_def ok_or_def)
  then show ?thesis using m(2,3) page(3) g(3) unfolding page_got_def
    by (intro exI [of _ "mp\<lparr>mp_mapped_pages := btm_insert ?i () (mp_mapped_pages mp)\<rparr>"] exI [of _ "?aw\<lparr>aw_space := sp'\<rparr>"] exI [of _ f]) simp
qed
text \<open>C6: A page fault that the permissions allow. The address is in a mapping of the region and the page is not in the page table.
  The fault succeeds and enters the page, and only it, with the permission of the mapping, without the write permission when the
  object is a copy-on-write child that was only read. The frame of the page holds the bytes of the object at the place the mapping
  gives, as they were before the fault.\<close>

theorem page_fault_correct:
  assumes "alloc_ok al used avail" "vmar_inv v" "vr_children v = []" "(k, mp) \<in> set (vr_mappings v)" "in_rng addr (mp_range mp)"
    and "backed used avail mp aw" "space_inv (aw_space aw)" "vs_frame (aw_space aw) addr = None"
    and "vo = aw_vmos aw ! mp_vmo mp" "x = mp_vmo_offset mp + addr - mp_map_to_addr mp" "x < vmo_size vo"
    and "map_of (mp_page_perms mp) (x div PAGE_SIZE) = Some p" "vm_perm_contains p (if wr then VM_W else VM_R)"
    and "rights_contain (mp_rights mp) (if wr then R_WRITE else R_READ)"
  shows "\<exists>v' aw' f. vr_handle_page_fault al addr np wr (v, aw) = (Ok (), (v', aw')) \<and> space_inv (aw_space aw') \<and>
    (\<forall>va < 2 ^ 47. translate (ms_pt (aw_space aw')) va = (if page_of va = page_of addr
       then Some (vf_start_paddr f, vm_perm_flags (if vmo_is_cow vo \<and> \<not> wr then p AND NOT VM_W else p)) else translate (ms_pt (aw_space aw)) va)) \<and>
    (\<forall>k < PAGE_SIZE. wd_mem (aw_world aw') (vf_as_ptr f + k) = vmo_byte vo (wd_mem (aw_world aw)) (x div PAGE_SIZE * PAGE_SIZE + k))"
proof -
  let ?P = "\<lambda>r. fst r \<le> addr \<and> addr < snd r" and ?f = "\<lambda>k. mp_handle_page_fault al addr np wr"
  have i: "mappings_ok (vr_mappings v)" using assms(2) by (simp add: vmar_inv_def)
  then have mp: "k = mp_map_to_addr mp" "mp_ok mp" using assms(4) by (auto simp: mappings_ok_def)
  have le: "mcover (vr_mappings v) a \<le> 1" for a using vmar_inv_le [OF assms(2), of a] by linarith
  obtain mp' aw' f where h: "mp_handle_page_fault al addr np wr (mp, aw) = (Ok (), (mp', aw'))" "space_inv (aw_space aw')"
    "\<forall>va < 2 ^ 47. translate (ms_pt (aw_space aw')) va = (if page_of va = page_of addr
       then Some (vf_start_paddr f, vm_perm_flags (if vmo_is_cow vo \<and> \<not> wr then p AND NOT VM_W else p)) else translate (ms_pt (aw_space aw)) va)"
    "\<forall>k < PAGE_SIZE. wd_mem (aw_world aw') (vf_as_ptr f + k) = vmo_byte vo (wd_mem (aw_world aw)) (x div PAGE_SIZE * PAGE_SIZE + k)"
    using mp_fault_ok [OF assms(1) mp(2) assms(6,5,7,8), of p wr np] assms(11-14) unfolding assms(9,10) by blast
  have only: "(l, q) = (k, mp)" if "(l, q) \<in> set (vr_mappings v)" "?P (l, l + mp_map_size q)" for l q
  proof (rule only_mapping [OF i le assms(4) that(1) assms(5)])
    have "l = mp_map_to_addr q" using i that(1) by (auto simp: mappings_ok_def)
    then show "in_rng addr (mp_range q)" using that(2) by (simp add: in_rng_def mp_range_def)
  qed
  have "?P (k, k + mp_map_size mp)" using assms(5) mp(1) by (simp add: in_rng_def mp_range_def)
  moreover have "\<forall>(l, q) \<in> set (vr_mappings v). ?P (l, l + mp_map_size q) \<longrightarrow> (l, q) = (k, mp)" using only by blast
  ultimately obtain ms' where ms': "on_first_mapping ?P ?f (vr_mappings v) aw = Some (Ok (), (ms', aw'))"
    using on_first_mapping_hit [where P = ?P and f = ?f, OF assms(4) _ _ h(1)] by blast
  have "1 \<le> mcover (vr_mappings v) addr" using cover_pos [OF assms(4), of addr "\<lambda>x. mp_range (snd x)"] assms(5) by simp
  moreover have "fcover (vr_free v) addr + mcover (vr_mappings v) addr + ccover (vr_children v) addr \<le> (if in_rng addr (vr_range v) then 1 else 0)"
    using assms(2) unfolding vmar_inv_def by blast
  ultimately have "in_rng addr (vr_range v)" by (simp split: if_splits)
  then have "vr_handle_page_fault al addr np wr (v, aw) = (Ok (), (set_mappings ms' v, aw'))"
    using ms' assms(3) by (cases v) (auto simp: vr_handle_page_fault_def in_rng_def vr_range_def set_mappings_def)
  then show ?thesis using h(2-4) by blast
qed

section \<open>An example\<close>

definition demo_page_map :: vm_mapping where
  "demo_page_map = (demo_map 0x400000 2)\<lparr>mp_page_perms := [(0, VM_R), (1, VM_R OR VM_W)]\<rparr>"

definition demo_page_vmar :: vmar where
  "demo_page_vmar = Vmar False [] [(0x400000, demo_page_map)] [] 0 0x500000"

definition high_bump :: "nat \<Rightarrow> nat \<Rightarrow> nat option \<times> nat" where
  "high_bump s n = (if 512 \<le> s \<and> s < 576 then (Some s, Suc s) else (None, s))"

definition high_used :: "nat \<Rightarrow> nat set" where
  "high_used s = {512..<min s 576}"
definition high_left :: "nat \<Rightarrow> nat" where
  "high_left s = (if 512 \<le> s then 576 - s else 0)"

definition demo_page_as :: "(nat, unit) as_world" where
  "demo_page_as = \<lparr>aw_world = demo_world\<lparr>wd_alloc := 512\<rparr>, aw_vmos = [demo_vmo], aw_space = demo_space\<rparr>"

lemma high_ok: "alloc_ok high_bump high_used high_left"
  by (auto simp: alloc_ok_def high_bump_def high_used_def high_left_def split: if_splits)

lemma demo_page_ok: "vmar_inv demo_page_vmar" "backed high_used high_left demo_page_map demo_page_as"
proof -
  show "vmar_inv demo_page_vmar"
    using rights_all_ok by (simp add: vmar_inv_def demo_page_vmar_def mappings_ok_def btm_wf_def demo_page_map_def demo_map_def mp_ok_def
        is_page_aligned_def in_rng_def mp_range_def vr_range_def)
  show "backed high_used high_left demo_page_map demo_page_as"
    using demo_space_ok(3,4)
    by (auto simp: backed_def demo_page_map_def demo_map_def demo_page_as_def vmo_inv_def demo_vmo_def vmo_frame_def high_used_def high_left_def frame_ok_def)
qed

theorem page_fault_correct_witness:
  "\<exists>v' aw' f. vr_handle_page_fault high_bump 0x401234 True True (demo_page_vmar, demo_page_as) = (Ok (), (v', aw')) \<and>
     translate (ms_pt (aw_space aw')) 0x401fff = Some (vf_start_paddr f, vm_perm_flags (VM_R OR VM_W)) \<and> wd_mem (aw_world aw') (vf_as_ptr f + 7) = 0"
proof -
  have z: "vmo_byte demo_vmo m a = 0" for m a by (simp add: vmo_byte_def vmo_frame_def demo_vmo_def)
  have "\<exists>v' aw' f. vr_handle_page_fault high_bump 0x401234 True True (demo_page_vmar, demo_page_as) = (Ok (), (v', aw')) \<and> space_inv (aw_space aw') \<and>
    (\<forall>va < 2 ^ 47. translate (ms_pt (aw_space aw')) va = (if page_of va = page_of 0x401234
       then Some (vf_start_paddr f, vm_perm_flags (if vmo_is_cow demo_vmo \<and> \<not> True then (VM_R OR VM_W) AND NOT VM_W else VM_R OR VM_W))
       else translate (ms_pt (aw_space demo_page_as)) va)) \<and>
    (\<forall>k < PAGE_SIZE. wd_mem (aw_world aw') (vf_as_ptr f + k) = vmo_byte demo_vmo (wd_mem (aw_world demo_page_as)) (0x1234 div PAGE_SIZE * PAGE_SIZE + k))"
    by (rule page_fault_correct [OF high_ok demo_page_ok(1) _ _ _ demo_page_ok(2)])
      (use demo_space_ok(1,2) rights_all_ok in \<open>simp_all add: demo_page_vmar_def demo_page_as_def demo_page_map_def demo_map_def in_rng_def mp_range_def
        demo_vmo_def vm_perm_contains_def VM_W_def VM_R_def rights_contain_def RIGHTS_ALL_def R_DUP_def R_READ_def R_WRITE_def R_EXEC_def R_SIGNAL_def\<close>)
  then obtain v' aw' f where h: "vr_handle_page_fault high_bump 0x401234 True True (demo_page_vmar, demo_page_as) = (Ok (), (v', aw'))"
    "\<forall>va < 2 ^ 47. translate (ms_pt (aw_space aw')) va = (if page_of va = page_of 0x401234
       then Some (vf_start_paddr f, vm_perm_flags (if vmo_is_cow demo_vmo \<and> \<not> True then (VM_R OR VM_W) AND NOT VM_W else VM_R OR VM_W))
       else translate (ms_pt (aw_space demo_page_as)) va)"
    "\<forall>k < PAGE_SIZE. wd_mem (aw_world aw') (vf_as_ptr f + k) = vmo_byte demo_vmo (wd_mem (aw_world demo_page_as)) (0x1234 div PAGE_SIZE * PAGE_SIZE + k)"
    by blast
  have "translate (ms_pt (aw_space aw')) 0x401fff = Some (vf_start_paddr f, vm_perm_flags (VM_R OR VM_W))"
    using h(2) [rule_format, of "0x401fff"] by (simp add: page_of_def)
  moreover have "wd_mem (aw_world aw') (vf_as_ptr f + 7) = 0" using h(3) [rule_format, of 7] by (simp add: z)
  ultimately show ?thesis using h(1) by blast
qed

end
