(* ===== verification/Atomic_Bits.thy ===== *)
theory Atomic_Bits
  imports Align
begin

text \<open>
  The bit set of \<^verbatim>\<open>framework/aster-frame/src/sync/atomic_bits.rs\<close>: a fixed number of bits in 64-bit words, with
  iterators over the positions of ones and of zeroes that skip through the words with \<^verbatim>\<open>trailing_zeros\<close> and
  \<^verbatim>\<open>trailing_ones\<close>. Each operation is one atomic access to a word. The two iterators have the same
  loop; what they need from a word is the interface \<open>word_scan\<close>, and the lemma that the loop finds exactly the
  positions of the interface is proved once.
\<close>

section \<open>The bits\<close>

record atomic_bits =
  ab_num_bits :: nat
  ab_u64s :: "64 word list"

definition ab_new :: "64 word \<Rightarrow> nat \<Rightarrow> atomic_bits res" where
  "ab_new u64_val num_bits =
     rbind (unwrap_opt (usize_align_up num_bits 64)) (\<lambda>n.
       Ok \<lparr>ab_num_bits = num_bits, ab_u64s = replicate (n div 64) u64_val\<rparr>)"

definition new_zeroes :: "nat \<Rightarrow> atomic_bits res" where
  "new_zeroes num_bits = ab_new 0 num_bits"

definition new_ones :: "nat \<Rightarrow> atomic_bits res" where
  "new_ones num_bits = ab_new (NOT 0) num_bits"

definition ab_get :: "atomic_bits \<Rightarrow> nat \<Rightarrow> bool res" where
  "ab_get bits index =
     rbind (assert_or_panic (index < ab_num_bits bits)) (\<lambda>_.
       Ok (ab_u64s bits ! (index div 64) AND push_bit (index mod 64) 1 \<noteq> 0))"

definition ab_set :: "nat \<Rightarrow> bool \<Rightarrow> atomic_bits \<Rightarrow> atomic_bits res" where
  "ab_set index new_bit bits =
     rbind (assert_or_panic (index < ab_num_bits bits)) (\<lambda>_.
       let i = index div 64; j = index mod 64; w = ab_u64s bits ! i in
       Ok (bits\<lparr>ab_u64s := (ab_u64s bits)[i := if new_bit then w OR push_bit j 1 else w AND NOT (push_bit j 1)]\<rparr>))"

text \<open>\<^verbatim>\<open>clear\<close>, \<^verbatim>\<open>is_full\<close> and \<^verbatim>\<open>is_empty\<close> end in \<^verbatim>\<open>todo!()\<close>.\<close>

definition ab_clear :: "atomic_bits \<Rightarrow> atomic_bits res" where
  "ab_clear bits = Panic"

definition match_pattern :: "atomic_bits \<Rightarrow> 64 word \<Rightarrow> bool res" where
  "match_pattern bits pattern = Panic"

definition ab_is_full :: "atomic_bits \<Rightarrow> bool res" where
  "ab_is_full bits = match_pattern bits (NOT 0)"

definition ab_is_empty :: "atomic_bits \<Rightarrow> bool res" where
  "ab_is_empty bits = match_pattern bits 0"

definition ab_clone :: "atomic_bits \<Rightarrow> atomic_bits" where
  "ab_clone bits = \<lparr>ab_num_bits = ab_num_bits bits, ab_u64s = map (\<lambda>i. ab_u64s bits ! i) [0..<length (ab_u64s bits)]\<rparr>"

text \<open>The iterator over the bits; the state is the next index.\<close>

definition iter_next :: "atomic_bits \<Rightarrow> nat \<Rightarrow> (bool option \<times> nat) res" where
  "iter_next bits bit_i =
     (if bit_i < ab_num_bits bits
      then rbind (ab_get bits bit_i) (\<lambda>bit. rbind (usize_add bit_i 1) (\<lambda>n. Ok (Some bit, n)))
      else Ok (None, bit_i))"

section \<open>Scanning the words\<close>

definition trailing_zeros :: "64 word \<Rightarrow> nat" where
  "trailing_zeros w = length (takeWhile (\<lambda>i. \<not> bit w i) [0..<64])"

definition trailing_ones :: "64 word \<Rightarrow> nat" where
  "trailing_ones w = length (takeWhile (bit w) [0..<64])"

record scan =
  sc_u64_idx :: nat
  sc_u64_val :: "64 word"

definition num_garbage_bits :: "atomic_bits \<Rightarrow> nat" where
  "num_garbage_bits bits = (if ab_num_bits bits mod 64 \<noteq> 0 then 64 - ab_num_bits bits mod 64 else 0)"

definition ones_get_u64_val :: "atomic_bits \<Rightarrow> nat \<Rightarrow> (64 word) res" where
  "ones_get_u64_val bits idx =
     (if idx < length (ab_u64s bits) then
        let u64_val = ab_u64s bits ! idx in
        Ok (if idx = length (ab_u64s bits) - 1 \<and> num_garbage_bits bits > 0
            then u64_val AND (push_bit (64 - num_garbage_bits bits) 1 - 1) else u64_val)
      else Panic)"

definition zeroes_get_u64_val :: "atomic_bits \<Rightarrow> nat \<Rightarrow> (64 word) res" where
  "zeroes_get_u64_val bits idx =
     (if idx < length (ab_u64s bits) then
        let u64_val = ab_u64s bits ! idx in
        Ok (if idx = length (ab_u64s bits) - 1 \<and> num_garbage_bits bits > 0
            then u64_val OR NOT (push_bit (64 - num_garbage_bits bits) 1 - 1) else u64_val)
      else Panic)"

definition iter_ones :: "atomic_bits \<Rightarrow> scan res" where
  "iter_ones bits = rbind (ones_get_u64_val bits 0) (\<lambda>v. Ok \<lparr>sc_u64_idx = 0, sc_u64_val = v\<rparr>)"

definition iter_zeroes :: "atomic_bits \<Rightarrow> scan res" where
  "iter_zeroes bits = rbind (zeroes_get_u64_val bits 0) (\<lambda>v. Ok \<lparr>sc_u64_idx = 0, sc_u64_val = v\<rparr>)"

text \<open>The loop of the two iterators, with the position of the next hit in a word, the change that marks the
  hit as seen, and the access to the words as arguments.\<close>

function scan_loop ::
    "(64 word \<Rightarrow> nat) \<Rightarrow> (nat \<Rightarrow> 64 word \<Rightarrow> 64 word) \<Rightarrow> (nat \<Rightarrow> (64 word) res) \<Rightarrow> nat \<Rightarrow> scan \<Rightarrow> (nat option \<times> scan) res" where
  "scan_loop first mark get_u64_val len s =
     (if sc_u64_idx s \<ge> len then Ok (None, s)
      else
        let p = first (sc_u64_val s) in
        if p < 64 then Ok (Some (sc_u64_idx s * 64 + p), s\<lparr>sc_u64_val := mark p (sc_u64_val s)\<rparr>)
        else
          let idx = sc_u64_idx s + 1 in
          if idx < len
          then rbind (get_u64_val idx) (\<lambda>v. scan_loop first mark get_u64_val len \<lparr>sc_u64_idx = idx, sc_u64_val = v\<rparr>)
          else scan_loop first mark get_u64_val len (s\<lparr>sc_u64_idx := idx\<rparr>))"
  by auto
termination
  by (relation "measure (\<lambda>(_, _, _, len, s). len - sc_u64_idx s)") auto

declare scan_loop.simps [simp del]

definition ones_next :: "atomic_bits \<Rightarrow> scan \<Rightarrow> (nat option \<times> scan) res" where
  "ones_next bits = scan_loop trailing_zeros (\<lambda>j w. w AND NOT (push_bit j 1)) (ones_get_u64_val bits) (length (ab_u64s bits))"

definition zeroes_next :: "atomic_bits \<Rightarrow> scan \<Rightarrow> (nat option \<times> scan) res" where
  "zeroes_next bits = scan_loop trailing_ones (\<lambda>j w. w OR push_bit j 1) (zeroes_get_u64_val bits) (length (ab_u64s bits))"

text \<open>All items of an iterator; the number bounds the calls of \<^verbatim>\<open>next\<close>.\<close>

fun collect :: "nat \<Rightarrow> (scan \<Rightarrow> (nat option \<times> scan) res) \<Rightarrow> scan \<Rightarrow> (nat list option) res" where
  "collect 0 nxt s = Ok None"
| "collect (Suc n) nxt s =
     rbind (nxt s) (\<lambda>(item, s'). case item of None \<Rightarrow> Ok (Some []) | Some p \<Rightarrow> rmap (map_option (Cons p)) (collect n nxt s'))"
section \<open>The interface of the scan and its contract\<close>

definition hits :: "(64 word \<Rightarrow> nat \<Rightarrow> bool) \<Rightarrow> 64 word \<Rightarrow> nat list" where
  "hits hit w = filter (hit w) [0..<64]"

text \<open>The positions an iterator still has to give.\<close>

definition todo :: "(64 word \<Rightarrow> nat \<Rightarrow> bool) \<Rightarrow> (nat \<Rightarrow> 64 word) \<Rightarrow> nat \<Rightarrow> scan \<Rightarrow> nat list" where
  "todo hit vals len s =
     (if sc_u64_idx s < len
      then map (\<lambda>j. sc_u64_idx s * 64 + j) (hits hit (sc_u64_val s)) @
           concat (map (\<lambda>i. map (\<lambda>j. i * 64 + j) (hits hit (vals i))) [Suc (sc_u64_idx s)..<len])
      else [])"

text \<open>What the loop needs of a word: \<open>hit w j\<close> says that bit \<open>j\<close> is one the iterator looks for, \<open>first\<close> gives the
  lowest of them or 64, and \<open>mark\<close> removes one.\<close>

locale word_scan =
  fixes first :: "64 word \<Rightarrow> nat" and mark :: "nat \<Rightarrow> 64 word \<Rightarrow> 64 word" and hit :: "64 word \<Rightarrow> nat \<Rightarrow> bool"
  assumes first_eq: "first w = length (takeWhile (\<lambda>j. \<not> hit w j) [0..<64])"
    and hit_mark: "j < 64 \<Longrightarrow> k < 64 \<Longrightarrow> hit (mark j w) k \<longleftrightarrow> hit w k \<and> k \<noteq> j"
begin

lemma first_le: "first w \<le> 64"
  unfolding first_eq using length_takeWhile_le [of _ "[0..<64]"] by simp

lemma first_none: "hits hit w = [] \<longleftrightarrow> first w = 64"
proof -
  have "hits hit w = [] \<longleftrightarrow> (\<forall>j \<in> set [0..<64]. \<not> hit w j)"
    unfolding hits_def by (simp only: filter_empty_conv)
  also have "\<dots> \<longleftrightarrow> takeWhile (\<lambda>j. \<not> hit w j) [0..<64] = [0..<64]"
    by (simp only: takeWhile_eq_all_conv)
  also have "\<dots> \<longleftrightarrow> first w = 64"
    unfolding first_eq
    by (metis append_Nil2 append_eq_conv_conj diff_zero length_upt takeWhile_dropWhile_id same_append_eq takeWhile_eq_take)
  finally show ?thesis .
qed

lemma first_some:
  assumes "first w < 64"
  shows "hits hit w = first w # hits hit (mark (first w) w)"
proof -
  let ?P = "\<lambda>j. \<not> hit w j" and ?p = "first w"
  have len: "length (takeWhile ?P [0..<64]) < length [0..<64]"
    using assms by (simp add: first_eq)
  have hp: "hit w ?p"
    using nth_length_takeWhile [OF len] assms by (simp add: first_eq)
  have before: "\<not> hit w j" if "j < ?p" for j
    using takeWhile_nth [of j ?P "[0..<64]"] nth_mem [of j "takeWhile ?P [0..<64]"] that assms
    by (auto simp: first_eq dest!: set_takeWhileD)
  have split: "[0..<64] = [0..<?p] @ ?p # [Suc ?p..<64]"
    using assms upt_add_eq_append [of 0 "first w" "64 - first w"] upt_conv_Cons [of "first w" 64] by simp
  have "hits hit w = ?p # filter (hit w) [Suc ?p..<64]"
    unfolding hits_def by (subst split) (use hp before in \<open>simp add: filter_empty_conv\<close>)
  moreover have "hits hit (mark ?p w) = filter (hit w) [Suc ?p..<64]"
  proof -
    have "filter (hit (mark ?p w)) [0..<?p] = []"
      using before assms by (auto simp: filter_empty_conv hit_mark)
    moreover have "filter (hit (mark ?p w)) [Suc ?p..<64] = filter (hit w) [Suc ?p..<64]"
      using assms by (intro filter_cong) (auto simp: hit_mark)
    ultimately show ?thesis
      unfolding hits_def by (subst split) (simp add: hit_mark assms)
  qed
  ultimately show ?thesis by simp
qed

lemma todo_skip:
  assumes "sc_u64_idx s < len" "hits hit (sc_u64_val s) = []"
  shows "todo hit vals len s = todo hit vals len \<lparr>sc_u64_idx = Suc (sc_u64_idx s), sc_u64_val = vals (Suc (sc_u64_idx s))\<rparr>"
proof (cases "Suc (sc_u64_idx s) < len")
  case True
  then show ?thesis
    using assms upt_conv_Cons [OF True] by (simp add: todo_def)
qed (use assms in \<open>simp add: todo_def\<close>)

lemma scan_loop_correct:
  assumes "\<And>i. i < len \<Longrightarrow> get_u64_val i = Ok (vals i)"
  shows "\<exists>s'. scan_loop first mark get_u64_val len s =
     Ok (case todo hit vals len s of [] \<Rightarrow> None | p # _ \<Rightarrow> Some p, s') \<and> todo hit vals len s' = tl (todo hit vals len s)"
proof (induction "len - sc_u64_idx s" arbitrary: s rule: less_induct)
  case less
  let ?v = "sc_u64_val s" and ?i = "sc_u64_idx s"
  consider "?i \<ge> len" | "?i < len" "first ?v < 64" | "?i < len" "first ?v = 64" "Suc ?i < len"
    | "?i < len" "first ?v = 64" "Suc ?i = len"
    using first_le [of ?v] by linarith
  then show ?case
  proof cases
    case 1
    then show ?thesis by (simp add: todo_def scan_loop.simps)
  next
    case 2
    then show ?thesis by (simp add: todo_def Let_def first_some scan_loop.simps)
  next
    case 3
    let ?s = "\<lparr>sc_u64_idx = Suc ?i, sc_u64_val = vals (Suc ?i)\<rparr>"
    have "scan_loop first mark get_u64_val len s = scan_loop first mark get_u64_val len ?s"
      using 3 by (subst scan_loop.simps) (simp add: assms)
    then show ?thesis
      using less [of ?s] 3 todo_skip [of s len vals] by (simp add: first_none)
  next
    case 4
    then show ?thesis
      using first_none [of ?v] by (simp add: todo_def scan_loop.simps)
  qed
qed

lemma collect_correct:
  assumes "\<And>i. i < len \<Longrightarrow> get_u64_val i = Ok (vals i)" "length (todo hit vals len s) < n"
  shows "collect n (scan_loop first mark get_u64_val len) s = Ok (Some (todo hit vals len s))"
  using assms(2)
proof (induction n arbitrary: s)
  case (Suc n)
  obtain s' where s': "scan_loop first mark get_u64_val len s =
      Ok (case todo hit vals len s of [] \<Rightarrow> None | p # _ \<Rightarrow> Some p, s')"
    and rest: "todo hit vals len s' = tl (todo hit vals len s)"
    using scan_loop_correct [of len get_u64_val vals s] assms(1) by blast
  show ?case
  proof (cases "todo hit vals len s")
    case Nil
    then show ?thesis using s' by simp
  next
    case (Cons p ps)
    then have "collect n (scan_loop first mark get_u64_val len) s' = Ok (Some ps)"
      using Suc.IH [of s'] Suc.prems rest by simp
    then show ?thesis using s' Cons by simp
  qed
qed simp

end

interpretation ones: word_scan trailing_zeros "\<lambda>j w. w AND NOT (push_bit j 1)" bit
  by unfold_locales (auto simp: trailing_zeros_def bit_simps)

interpretation zeroes: word_scan trailing_ones "\<lambda>j w. w OR push_bit j 1" "\<lambda>w j. \<not> bit w j"
  by unfold_locales (auto simp: trailing_ones_def bit_simps)

section \<open>The positions of the words are the positions of the bits\<close>

lemma concat_words:
  "concat (map (\<lambda>i. map (\<lambda>j. i * 64 + j) (filter (P i) [0..<64])) [0..<len]) =
   filter (\<lambda>p. P (p div 64) (p mod 64)) [0..<len * 64]"
proof (induction len)
  case (Suc len)
  have "[0..<Suc len * 64] = [0..<len * 64] @ map (\<lambda>j. len * 64 + j) [0..<64]"
    using upt_add_eq_append [of 0 "len * 64" 64] map_add_upt [of "len * 64" 64]
    by (simp add: add.commute [of "len * 64"] cong: map_cong)
  moreover have "filter (\<lambda>p. P (p div 64) (p mod 64)) (map (\<lambda>j. len * 64 + j) [0..<64]) = map (\<lambda>j. len * 64 + j) (filter (P len) [0..<64])"
    unfolding filter_map comp_def by (intro arg_cong [where f = "map _"] filter_cong) auto
  ultimately show ?case using Suc by simp
qed simp

definition ab_wf :: "atomic_bits \<Rightarrow> bool" where
  "ab_wf bits \<longleftrightarrow> ab_num_bits bits + 63 < USIZE_LIMIT \<and> length (ab_u64s bits) = (ab_num_bits bits + 63) div 64"

definition ab_bit :: "atomic_bits \<Rightarrow> nat \<Rightarrow> bool" where
  "ab_bit bits i \<longleftrightarrow> bit (ab_u64s bits ! (i div 64)) (i mod 64)"

lemma bits_in_words:
  assumes "ab_wf bits" "i < length (ab_u64s bits)" "j < 64"
  shows "i * 64 + j < ab_num_bits bits \<longleftrightarrow>
    \<not> (i = length (ab_u64s bits) - 1 \<and> num_garbage_bits bits > 0 \<and> j \<ge> 64 - num_garbage_bits bits)"
proof -
  obtain q r where n: "ab_num_bits bits = q * 64 + r" "r < 64"
    by (metis div_mult_mod_eq mod_less_divisor zero_less_numeral)
  show ?thesis
  proof (cases "r = 0")
    case True
    then have "length (ab_u64s bits) = q" "num_garbage_bits bits = 0"
      using assms(1) n by (simp_all add: ab_wf_def num_garbage_bits_def)
    then show ?thesis using assms n True by simp
  next
    case False
    then have "q * 64 + r + 63 = (Suc q) * 64 + (r - 1)" "r - 1 < 64" using n by simp_all
    then have "(q * 64 + r + 63) div 64 = Suc q" by simp
    then have "length (ab_u64s bits) = Suc q" "num_garbage_bits bits = 64 - r"
      using assms(1) n False by (simp_all add: ab_wf_def num_garbage_bits_def)
    then show ?thesis using assms n False by auto
  qed
qed

lemma ab_get_bit: "i < ab_num_bits bits \<Longrightarrow> ab_get bits i = Ok (ab_bit bits i)"
  by (simp add: ab_get_def ab_bit_def assert_or_panic_def and_exp_eq_0_iff_not_bit push_bit_of_1)

lemma valid_mask: "bit (2 ^ k - 1 :: 64 word) j \<longleftrightarrow> j < 64 \<and> j < k"
proof -
  have "2 ^ k - 1 = (mask k :: 64 word)" by (simp add: mask_eq_exp_minus_1)
  then show ?thesis by (simp add: bit_mask_iff)
qed

lemma ones_get_u64_val_ok:
  assumes "ab_wf bits" "i < length (ab_u64s bits)"
  shows "\<exists>v. ones_get_u64_val bits i = Ok v \<and>
    (\<forall>j < 64. bit v j \<longleftrightarrow> i * 64 + j < ab_num_bits bits \<and> bit (ab_u64s bits ! i) j)"
  using assms bits_in_words [OF assms]
  by (auto simp: ones_get_u64_val_def Let_def bit_and_iff valid_mask)

lemma zeroes_get_u64_val_ok:
  assumes "ab_wf bits" "i < length (ab_u64s bits)"
  shows "\<exists>v. zeroes_get_u64_val bits i = Ok v \<and>
    (\<forall>j < 64. \<not> bit v j \<longleftrightarrow> i * 64 + j < ab_num_bits bits \<and> \<not> bit (ab_u64s bits ! i) j)"
  using assms bits_in_words [OF assms]
  by (auto simp: zeroes_get_u64_val_def Let_def bit_or_iff bit_not_iff valid_mask)

lemma todo_start:
  assumes wf: "ab_wf bits" and pos: "0 < ab_num_bits bits"
    and vals: "\<And>i j. i < length (ab_u64s bits) \<Longrightarrow> j < 64 \<Longrightarrow>
      hit (vals i) j \<longleftrightarrow> i * 64 + j < ab_num_bits bits \<and> Q (i * 64 + j)"
  shows "todo hit vals (length (ab_u64s bits)) \<lparr>sc_u64_idx = 0, sc_u64_val = vals 0\<rparr> = filter Q [0..<ab_num_bits bits]"
proof -
  let ?len = "length (ab_u64s bits)" and ?n = "ab_num_bits bits"
  have len: "0 < ?len" "?n \<le> ?len * 64"
    using wf pos by (simp_all add: ab_wf_def)
  have "todo hit vals ?len \<lparr>sc_u64_idx = 0, sc_u64_val = vals 0\<rparr> =
      concat (map (\<lambda>i. map (\<lambda>j. i * 64 + j) (filter (\<lambda>j. hit (vals i) j) [0..<64])) [0..<?len])"
    using len(1) upt_conv_Cons [OF len(1)] by (simp add: todo_def hits_def)
  also have "\<dots> = filter (\<lambda>p. hit (vals (p div 64)) (p mod 64)) [0..<?len * 64]"
    by (rule concat_words)
  also have "\<dots> = filter (\<lambda>p. p < ?n \<and> Q p) [0..<?len * 64]"
    using vals by (intro filter_cong) (auto simp: less_mult_imp_div_less)
  also have "[0..<?len * 64] = [0..<?n] @ [?n..<?len * 64]"
    using upt_add_eq_append [of 0 ?n "?len * 64 - ?n"] len(2) by simp
  also have "filter (\<lambda>p. p < ?n \<and> Q p) \<dots> = filter Q [0..<?n]"
    by (auto simp: filter_empty_conv intro: filter_cong)
  finally show ?thesis .
qed

lemma ones_listed:
  assumes wf: "ab_wf bits" and pos: "0 < ab_num_bits bits" and n: "ab_num_bits bits < n"
  shows "\<exists>s. iter_ones bits = Ok s \<and> collect n (ones_next bits) s = Ok (Some (filter (ab_bit bits) [0..<ab_num_bits bits]))"
proof -
  let ?len = "length (ab_u64s bits)"
  obtain vals where vals: "\<And>i. i < ?len \<Longrightarrow> ones_get_u64_val bits i = Ok (vals i)"
      "\<And>i j. i < ?len \<Longrightarrow> j < 64 \<Longrightarrow> bit (vals i) j \<longleftrightarrow> i * 64 + j < ab_num_bits bits \<and> bit (ab_u64s bits ! i) j"
    using ones_get_u64_val_ok [OF wf] by metis
  have todo: "todo bit vals ?len \<lparr>sc_u64_idx = 0, sc_u64_val = vals 0\<rparr> = filter (ab_bit bits) [0..<ab_num_bits bits]"
    using vals(2) by (intro todo_start [OF wf pos]) (simp add: ab_bit_def)
  have "0 < ?len" using wf pos by (simp add: ab_wf_def)
  moreover have "length (filter (ab_bit bits) [0..<ab_num_bits bits]) < n"
    using n length_filter_le [of "ab_bit bits" "[0..<ab_num_bits bits]"] by simp
  ultimately show ?thesis
    using vals(1) ones.collect_correct [of ?len "ones_get_u64_val bits" vals "\<lparr>sc_u64_idx = 0, sc_u64_val = vals 0\<rparr>" n]
    by (simp add: iter_ones_def ones_next_def todo)
qed

lemma zeroes_listed:
  assumes wf: "ab_wf bits" and pos: "0 < ab_num_bits bits" and n: "ab_num_bits bits < n"
  shows "\<exists>s. iter_zeroes bits = Ok s \<and> collect n (zeroes_next bits) s = Ok (Some (filter (\<lambda>i. \<not> ab_bit bits i) [0..<ab_num_bits bits]))"
proof -
  let ?len = "length (ab_u64s bits)" and ?hit = "\<lambda>(w :: 64 word) j. \<not> bit w j"
  obtain vals where vals: "\<And>i. i < ?len \<Longrightarrow> zeroes_get_u64_val bits i = Ok (vals i)"
      "\<And>i j. i < ?len \<Longrightarrow> j < 64 \<Longrightarrow> ?hit (vals i) j \<longleftrightarrow> i * 64 + j < ab_num_bits bits \<and> \<not> bit (ab_u64s bits ! i) j"
    using zeroes_get_u64_val_ok [OF wf] by metis
  have todo: "todo ?hit vals ?len \<lparr>sc_u64_idx = 0, sc_u64_val = vals 0\<rparr> = filter (\<lambda>i. \<not> ab_bit bits i) [0..<ab_num_bits bits]"
    using vals(2) by (intro todo_start [OF wf pos]) (simp add: ab_bit_def)
  have "0 < ?len" using wf pos by (simp add: ab_wf_def)
  moreover have "length (filter (\<lambda>i. \<not> ab_bit bits i) [0..<ab_num_bits bits]) < n"
    using n length_filter_le [of "\<lambda>i. \<not> ab_bit bits i" "[0..<ab_num_bits bits]"] by simp
  ultimately show ?thesis
    using vals(1) zeroes.collect_correct [of ?len "zeroes_get_u64_val bits" vals "\<lparr>sc_u64_idx = 0, sc_u64_val = vals 0\<rparr>" n]
    by (simp add: iter_zeroes_def zeroes_next_def todo)
qed

section \<open>Properties\<close>

text \<open>C21: The iterators over ones and zeroes, which skip through the words, list exactly the positions at which
  \<^verbatim>\<open>get\<close> answers one (zero), in increasing order, whatever the unused bits of the last word hold.\<close>

theorem bit_iterators_correct:
  assumes "ab_wf bits" "0 < ab_num_bits bits" "ab_num_bits bits < n"
  shows "(\<exists>s. iter_ones bits = Ok s \<and>
           collect n (ones_next bits) s = Ok (Some (filter (\<lambda>i. ab_get bits i = Ok True) [0..<ab_num_bits bits]))) \<and>
         (\<exists>s. iter_zeroes bits = Ok s \<and>
           collect n (zeroes_next bits) s = Ok (Some (filter (\<lambda>i. ab_get bits i = Ok False) [0..<ab_num_bits bits])))"
proof -
  have "filter (\<lambda>i. ab_get bits i = Ok True) [0..<ab_num_bits bits] = filter (ab_bit bits) [0..<ab_num_bits bits]"
    "filter (\<lambda>i. ab_get bits i = Ok False) [0..<ab_num_bits bits] = filter (\<lambda>i. \<not> ab_bit bits i) [0..<ab_num_bits bits]"
    by (auto simp: ab_get_bit intro: filter_cong)
  then show ?thesis using ones_listed [OF assms] zeroes_listed [OF assms] by simp
qed

definition demo_bits :: atomic_bits where
  "demo_bits = \<lparr>ab_num_bits = 66, ab_u64s = [5, 0xE]\<rparr>"

lemma demo_bits_facts:
  "ab_wf demo_bits" "ab_num_bits demo_bits = 66" "ab_get demo_bits 2 = Ok True"
  by (simp_all add: demo_bits_def ab_wf_def ab_get_bit ab_bit_def)

lemma demo_bits_ones: "filter (\<lambda>i. ab_get demo_bits i = Ok True) [0..<66] = [0, 2, 65]"
  by (simp add: demo_bits_def ab_get_def assert_or_panic_def upt_conv_Cons)

theorem bit_iterators_correct_witness:
  "\<exists>s. iter_ones demo_bits = Ok s \<and> collect 67 (ones_next demo_bits) s = Ok (Some [0, 2, 65])"
  using bit_iterators_correct [of demo_bits 67] unfolding demo_bits_facts(2) demo_bits_ones
  by (simp add: demo_bits_facts(1))


lemma words_cover: "ab_wf bits \<Longrightarrow> i < ab_num_bits bits \<Longrightarrow> i div 64 < length (ab_u64s bits)"
  by (simp add: ab_wf_def)

lemma ab_set_bit:
  assumes wf: "ab_wf bits" and i: "i < ab_num_bits bits"
  shows "\<exists>bits'. ab_set i v bits = Ok bits' \<and> ab_wf bits' \<and> ab_num_bits bits' = ab_num_bits bits \<and>
    (\<forall>j. ab_bit bits' j = (if j = i then v else ab_bit bits j))"
proof -
  let ?i = "i div 64" and ?k = "i mod 64"
  let ?w = "if v then ab_u64s bits ! ?i OR push_bit ?k 1 else ab_u64s bits ! ?i AND NOT (push_bit ?k 1)"
  let ?bits = "bits\<lparr>ab_u64s := (ab_u64s bits)[?i := ?w]\<rparr>"
  have inside: "?i < length (ab_u64s bits)" using words_cover [OF wf i] .
  have w: "bit ?w k = (if k = ?k then v else bit (ab_u64s bits ! ?i) k)" if "k < 64" for k
    using that by (auto simp: bit_simps)
  have "ab_bit ?bits j = (if j = i then v else ab_bit bits j)" for j
  proof (cases "j div 64 = ?i")
    case True
    then have "j mod 64 = ?k \<longleftrightarrow> j = i" by (metis div_mult_mod_eq)
    then show ?thesis using True inside w [of "j mod 64"] by (simp add: ab_bit_def)
  next
    case False
    then show ?thesis by (auto simp: ab_bit_def)
  qed
  moreover have "ab_set i v bits = Ok ?bits" using i by (simp add: ab_set_def assert_or_panic_def Let_def)
  moreover have "ab_wf ?bits" using wf by (simp add: ab_wf_def)
  moreover have "ab_num_bits ?bits = ab_num_bits bits" by simp
  ultimately show ?thesis by blast
qed

text \<open>\<^verbatim>\<open>set\<close> changes the bit it names and no other, and keeps the length and the number of words that
  make the unchecked access to the words of \<^verbatim>\<open>get\<close> and \<^verbatim>\<open>set\<close> in range; past the length it panics.\<close>

theorem ab_set_correct:
  assumes "ab_wf bits"
  shows "(i < ab_num_bits bits \<longrightarrow> (\<exists>bits'. ab_set i v bits = Ok bits' \<and> ab_wf bits' \<and> ab_num_bits bits' = ab_num_bits bits \<and>
           i div 64 < length (ab_u64s bits) \<and>
           (\<forall>j < ab_num_bits bits. ab_get bits' j = (if j = i then Ok v else ab_get bits j)))) \<and>
         (\<not> i < ab_num_bits bits \<longrightarrow> ab_set i v bits = Panic)"
proof (cases "i < ab_num_bits bits")
  case True
  then obtain bits' where "ab_set i v bits = Ok bits'" "ab_wf bits'" "ab_num_bits bits' = ab_num_bits bits"
      "\<And>j. ab_bit bits' j = (if j = i then v else ab_bit bits j)"
    using ab_set_bit [OF assms] by blast
  then show ?thesis using True words_cover [OF assms True] by (simp add: ab_get_bit)
qed (simp add: ab_set_def assert_or_panic_def)

theorem ab_set_correct_witness:
  "\<exists>bits'. ab_set 65 False demo_bits = Ok bits' \<and> ab_get bits' 65 = Ok False \<and> ab_get bits' 2 = Ok True"
  using ab_set_correct [OF demo_bits_facts(1), of 65 False] demo_bits_facts(2,3) by auto

text \<open>C39: A new bit set is well formed, has the length asked for and the same bit everywhere, unless the rounding of
  the length up to whole words overflows, which panics.\<close>

theorem ab_new_correct:
  assumes "num_bits + 63 < USIZE_LIMIT"
  shows "\<exists>zs os. new_zeroes num_bits = Ok zs \<and> new_ones num_bits = Ok os \<and> ab_wf zs \<and> ab_wf os \<and>
    ab_num_bits zs = num_bits \<and> ab_num_bits os = num_bits \<and>
    (\<forall>i < num_bits. ab_get zs i = Ok False \<and> ab_get os i = Ok True)"
proof -
  have up: "usize_align_up num_bits 64 = Some (round_up num_bits 64)"
    using assms by (intro usize_align_up_Some [of 6]) simp_all
  have words: "round_up num_bits 64 div 64 = (num_bits + 63) div 64"
    by (simp add: round_up_def minus_mod_eq_mult_div)
  have new: "ab_new w num_bits = Ok \<lparr>ab_num_bits = num_bits, ab_u64s = replicate ((num_bits + 63) div 64) w\<rparr>" for w
    by (simp add: ab_new_def up words unwrap_opt_def)
  have "i div 64 < (num_bits + 63) div 64" if "i < num_bits" for i
    using that words_cover [of "\<lparr>ab_num_bits = num_bits, ab_u64s = replicate ((num_bits + 63) div 64) 0\<rparr>" i] assms
    by (simp add: ab_wf_def)
  then show ?thesis
    using assms by (simp add: new_zeroes_def new_ones_def new ab_wf_def ab_get_bit ab_bit_def)
qed

theorem ab_new_correct_witness: "\<exists>os. new_ones 65 = Ok os \<and> ab_wf os \<and> ab_get os 64 = Ok True"
  using ab_new_correct [of 65] by auto

end
