(* ===== verification/Spec2Isabelle.thy ===== *)
theory Spec2Isabelle
  imports File_Table Page_Table_Correct Align Memory_Region Vm_Space_Bytes Virt_Queue Signal_Delivery Process_Tree Rw_Mutex Credentials Page_Fault Atomic_Bits
begin

text \<open>
  \<^bold>\<open>A verification development for the Asterinas kernel.\<close>

  The kernel has two halves. The framework (\<^verbatim>\<open>framework/aster-frame/src\<close>, called FW below) owns the
  unsafe code: physical frames, page tables, address spaces, locks. The services
  (\<^verbatim>\<open>services/libs/aster-std/src\<close>, called STD below) build the Linux interface on it: memory objects and
  regions, processes, signals, files. This theory imports the theories of both halves.

  \<^bold>\<open>Conventions\<close> (\<open>Prelude\<close>, \<open>BTree_Map\<close>). A fallible Rust function returns \<open>('e, 'a) result\<close>, in which
  \<open>Panic\<close> is a failed assertion, \<^verbatim>\<open>unwrap\<close>, index or overflow test of the development profile; theories whose
  code cannot fail otherwise use an option for it. Code with side effects passes its state explicitly;
  where many calls are chained it is in the state and result monad \<open>sbind\<close>. A \<^verbatim>\<open>usize\<close> is a \<open>nat\<close> whose sums are
  tested against \<open>USIZE_LIMIT\<close>, and a word where the code works on bits or relies on wrap-around.
  \<^verbatim>\<open>BTreeMap\<close> is a strictly sorted association list.

  \<^bold>\<open>Memory, from the bottom up.\<close>
  \<^item> \<open>Align\<close>: \<^verbatim>\<open>framework/libs/align_ext\<close>, for every word width. \<open>Atomic_Bits\<close>: FW \<^verbatim>\<open>sync/atomic_bits.rs\<close>;
    the word-wise iterators list exactly the positions that \<^verbatim>\<open>get\<close> reports, by the contract \<open>word_scan\<close>.
  \<^item> \<open>Memory_Region\<close>: FW \<^verbatim>\<open>boot/memory_region.rs\<close> and the set-up of the frame allocator; the frames handed to
    the allocator lie in usable memory and outside the reserved regions.
  \<^item> \<open>Vm_Frame\<close>: FW \<^verbatim>\<open>vm/frame.rs\<close>, \<^verbatim>\<open>vm/options.rs\<close>, \<^verbatim>\<open>vm/frame_allocator.rs\<close>: frames, segments, readers and
    writers over one byte memory, with the effect of reading and writing a collection of frames.
  \<^item> \<open>Page_Table\<close> (definitions) and \<open>Page_Table_Correct\<close>: FW \<^verbatim>\<open>arch/x86/mm/mod.rs\<close> and \<^verbatim>\<open>vm/page_table.rs\<close>. The
    table in memory refines a partial map from pages to frames and flags (\<open>translate\<close>), which map, unmap and
    protect update at one page.
  \<^item> \<open>Vm_Space\<close>, \<open>Vm_Space_Correct\<close>, \<open>Vm_Space_Bytes\<close>: FW \<^verbatim>\<open>vm/memory_set.rs\<close> and \<^verbatim>\<open>vm/space.rs\<close>; operations on
    ranges, and byte access through the areas.
  \<^item> \<open>Vmo\<close> and \<open>Vmo_Correct\<close>: STD \<^verbatim>\<open>vm/vmo\<close>; writing changes exactly the bytes of its range, a write to a
    copy-on-write child does not reach its parent, and a write to the parent does reach the child.
  \<^item> \<open>Vm_Mapping\<close> and \<open>Vm_Mapping_Correct\<close>: STD \<^verbatim>\<open>vm/vmar/vm_mapping.rs\<close>; unmapping and trimming one mapping.
  \<^item> \<open>Vmar\<close>, \<open>Vmar_Regions\<close>, \<open>Vmar_Correct\<close>, \<open>Vmar_Examples\<close>: STD \<^verbatim>\<open>vm/vmar\<close> with \<^verbatim>\<open>munmap\<close> and \<^verbatim>\<open>mprotect\<close>. Free
    regions, mappings and children are disjoint and stay so (\<open>vmar_inv\<close>); the set of addresses each of them
    covers is what the theorems speak about. Runs that go wrong are theorems too.
  \<^item> \<open>Page_Fault\<close>: the composition of all of the above in the handling of a page fault.
  \<^item> \<open>Virt_Queue\<close>: \<^verbatim>\<open>services/comps/virtio/src/queue.rs\<close>, with the device as the environment that fills the
    used ring.

  \<^bold>\<open>Locks.\<close> \<open>Rw_Lock\<close> (FW \<^verbatim>\<open>sync/rwlock.rs\<close>), \<open>Sleep_Lock\<close> (\<^verbatim>\<open>sync/wait.rs\<close>, \<^verbatim>\<open>sync/mutex.rs\<close>) and \<open>Rw_Mutex\<close>
  (\<^verbatim>\<open>sync/rwmutex.rs\<close>) are step relations of agents that interleave at every atomic operation: mutual exclusion
  and absence of deadlock of the spinning lock, no lost wake-up in the mutex, and a simulation of
  the sleeping lock by the spinning one, with the wake-up that the sleeping lock does lose.

  \<^bold>\<open>Processes.\<close> \<open>Process_Table\<close>, \<open>Process_Groups\<close>, \<open>Process_Tree\<close>: STD \<^verbatim>\<open>process\<close> and its system calls; the
  operations implement updates of the map from processes to group and session, and the tree of parents and
  children is an invariant of every sequence of calls. \<open>Credentials\<close>: STD \<^verbatim>\<open>process/credentials\<close>; what an unprivileged process can
  reach by any sequence of calls. \<open>Sig_Queues\<close> and \<open>Signal_Delivery\<close>: STD \<^verbatim>\<open>process/signal\<close>; the order of delivery, the frame of a
  handler, and that returning from a handler restores what delivery saved.

  \<^bold>\<open>Files.\<close> \<open>Slot_Vec\<close> (\<^verbatim>\<open>services/libs/aster-util/src/slot_vec.rs\<close>), \<open>Subject\<close> (STD \<^verbatim>\<open>events/subject.rs\<close>) and
  \<open>File_Table\<close> (STD \<^verbatim>\<open>fs/file_table.rs\<close>, \<^verbatim>\<open>dup\<close>, \<^verbatim>\<open>close\<close>).

  \<^bold>\<open>Interfaces.\<close> \<open>slot_table\<close> (interpreted as \<open>sv\<close>), \<open>pending_store\<close> (\<open>sigq\<close>), \<open>buf_setter\<close> (\<open>slice_setter\<close>, \<open>reader_setter\<close>,
  \<open>writer_setter\<close>) and \<open>word_scan\<close> (\<open>ones\<close>, \<open>zeroes\<close>) are the contracts between components, each
  interpreted on the definitions of the component that provides it.

  \<^bold>\<open>Parameters and bounds.\<close> The buddy allocator, the pager, user memory, and the liveness of weak references are
  arguments, with what the code relies on as hypotheses of the theorems. Loops are structural or have a termination
  proof. The functions that repeat an operation until it has nothing left (\<open>drain\<close>, \<open>collect\<close>) take a bound
  on the number of calls, and their theorems say that one call more than the number of results is enough.
  The read-write locks are shown for fewer than \<open>2 ^ 60\<close> agents, the number the reader count of the lock word can hold.

  \<^bold>\<open>Not modelled.\<close> File systems, path lookup and pipes, program loading, futexes, resource limits and the
  remaining system calls are not covered. Networking is the state of a third-party protocol stack. Assembly, interrupt handling, device
  registers, boot, logging, procedural macros and the build tools have no state that the model could express.
  Waiting with a timeout depends on the timer. Memory ordering weaker than sequential consistency is not
  modelled: the atomic operations of the locks take effect one after the other.
\<close>

end
